(* ===== verification/Muduo_Prelude.thy ===== *)
theory Muduo_Prelude
  imports Main "HOL-Library.Word" "HOL-Library.Signed_Division"
begin

text \<open>
  Shared vocabulary of the development: the ways a muduo operation can fail, sequencing of
  fallible operations, fixed-width C++ integers, and the array and search primitives of the C++
  standard library that the components call, each with the lemmas the component proofs use.
\<close>

named_theorems outcome_simps "sequencing of fallible operations"
named_theorems size_simps "size_t arithmetic in range"

section \<open>Outcomes\<close>

text \<open>
  A failed \<^verbatim>\<open>assert\<close> and a \<^verbatim>\<open>LOG_FATAL\<close>/\<^verbatim>\<open>LOG_SYSFATAL\<close> line abort the process,
  \<^verbatim>\<open>std::vector\<close> throws \<^verbatim>\<open>std::length_error\<close> when asked for more than \<^verbatim>\<open>max_size()\<close>
  elements, and an access outside an array or through a dangling pointer is undefined. Each is a
  value of \<open>failure\<close>; an operation that can fail returns \<open>Inl\<close> of one of them, and \<open>Inr\<close>
  of its result otherwise.
\<close>

datatype failure =
    Assert_failed string
  | Log_fatal string
  | Length_error
  | Out_of_bounds
  | Bad_pointer

type_synonym 'a outcome = "failure + 'a"

fun andThen :: "'a outcome \<Rightarrow> ('a \<Rightarrow> 'b outcome) \<Rightarrow> 'b outcome" where
  "andThen (Inl e) f = Inl e"
| "andThen (Inr x) f = f x"

definition assert_that :: "bool \<Rightarrow> string \<Rightarrow> 'a outcome \<Rightarrow> 'a outcome" where
  "assert_that c what k = (if c then k else Inl (Assert_failed what))"

text \<open>A range-based \<^verbatim>\<open>for\<close> loop whose body may fail.\<close>

fun for_each :: "('a \<Rightarrow> 's \<Rightarrow> 's outcome) \<Rightarrow> 'a list \<Rightarrow> 's \<Rightarrow> 's outcome" where
  "for_each f [] s = Inr s"
| "for_each f (x # xs) s = andThen (f x s) (for_each f xs)"

lemma assert_that_True [simp, outcome_simps]: "c \<Longrightarrow> assert_that c w k = k"
  by (simp add: assert_that_def)

lemma assert_that_False [simp, outcome_simps]: "\<not> c \<Longrightarrow> assert_that c w k = Inl (Assert_failed w)"
  by (simp add: assert_that_def)

lemma assert_that_eq_Inr [outcome_simps]: "assert_that c w k = Inr r \<longleftrightarrow> c \<and> k = Inr r"
  by (simp add: assert_that_def)

lemma andThen_eq_Inr [outcome_simps]: "andThen m f = Inr r \<longleftrightarrow> (\<exists>x. m = Inr x \<and> f x = Inr r)"
  by (cases m) auto

lemma andThen_eq_Inl: "andThen m f = Inl e \<longleftrightarrow> m = Inl e \<or> (\<exists>x. m = Inr x \<and> f x = Inl e)"
  by (cases m) auto

lemma andThen_assoc: "andThen (andThen m f) g = andThen m (\<lambda>x. andThen (f x) g)"
  by (cases m) auto

lemma for_each_append:
  "for_each f (xs @ ys) s = andThen (for_each f xs s) (for_each f ys)"
proof (induction xs arbitrary: s)
  case Nil
  then show ?case by simp
next
  case (Cons x xs)
  then show ?case by (cases "f x s") auto
qed

text \<open>A loop whose body always succeeds under an invariant it keeps succeeds and keeps it.\<close>

lemma for_each_invariant:
  assumes "I s"
    and "\<And>x t. x \<in> set xs \<Longrightarrow> I t \<Longrightarrow> \<exists>t'. f x t = Inr t' \<and> I t'"
  shows "\<exists>s'. for_each f xs s = Inr s' \<and> I s'"
  using assms
proof (induction xs arbitrary: s)
  case Nil
  then show ?case by simp
next
  case (Cons x xs)
  from Cons.prems obtain t where "f x s = Inr t" "I t" by (meson list.set_intros(1))
  with Cons show ?case by simp
qed

text \<open>The same step taken \<open>n\<close> times.\<close>

fun rounds :: "('a \<Rightarrow> 'a outcome) \<Rightarrow> nat \<Rightarrow> 'a \<Rightarrow> 'a outcome" where
  "rounds f 0 x = Inr x"
| "rounds f (Suc n) x = andThen (f x) (rounds f n)"

section \<open>Lists\<close>

lemma distinct_map_filterI:
  assumes "\<And>i j. i < j \<Longrightarrow> j < length xs \<Longrightarrow> P (xs ! i) \<Longrightarrow> P (xs ! j) \<Longrightarrow> f (xs ! i) \<noteq> f (xs ! j)"
  shows "distinct (map f (filter P xs))"
  using assms
proof (induction xs)
  case (Cons x xs)
  have "f x \<noteq> f y" if "P x" "y \<in> set xs" "P y" for y
  proof -
    from that(2) obtain j where "j < length xs" "xs ! j = y" by (auto simp: in_set_conv_nth)
    with Cons.prems [of 0 "Suc j"] that show ?thesis by simp
  qed
  moreover have "distinct (map f (filter P xs))"
    using Cons.prems [of "Suc i" "Suc j" for i j] by (intro Cons.IH) simp
  ultimately show ?case by auto
qed simp

section \<open>Integers of fixed width\<close>

text \<open>
  \<^verbatim>\<open>size_t\<close> has 64 bits and wraps around. Sizes and indices are \<open>nat\<close> values below
  \<open>2 ^ 64\<close>; where the code adds or subtracts two of them the wrap-around is written out.
  \<^verbatim>\<open>vector_max_size\<close> is \<^verbatim>\<open>std::vector<char>::max_size()\<close>, which is \<^verbatim>\<open>PTRDIFF_MAX\<close>.
\<close>

definition size_add :: "nat \<Rightarrow> nat \<Rightarrow> nat" where
  "size_add a b = (a + b) mod 2 ^ 64"

definition size_sub :: "nat \<Rightarrow> nat \<Rightarrow> nat" where
  "size_sub a b = nat ((int a - int b) mod 2 ^ 64)"

definition vector_max_size :: nat where
  "vector_max_size = 2 ^ 63 - 1"

text \<open>Conversions between \<^verbatim>\<open>size_t\<close> and the 32-bit \<^verbatim>\<open>int\<close>.\<close>

definition size_to_int32 :: "nat \<Rightarrow> int" where
  "size_to_int32 n = (int n + 2 ^ 31) mod 2 ^ 32 - 2 ^ 31"

definition int_to_size :: "int \<Rightarrow> nat" where
  "int_to_size i = nat (i mod 2 ^ 64)"

lemma size_add_small [simp, size_simps]: "a + b < 2 ^ 64 \<Longrightarrow> size_add a b = a + b"
  by (simp add: size_add_def)

lemma size_sub_small [simp, size_simps]: "b \<le> a \<Longrightarrow> a < 2 ^ 64 \<Longrightarrow> size_sub a b = a - b"
  by (simp add: size_sub_def nat_diff_distrib)

lemma size_to_int32_small [simp, size_simps]: "n < 2 ^ 31 \<Longrightarrow> size_to_int32 n = int n"
  by (simp add: size_to_int32_def)

lemma int_to_size_of_nat [simp, size_simps]: "n < 2 ^ 64 \<Longrightarrow> int_to_size (int n) = n"
  by (simp add: int_to_size_def nat_mod_distrib)

lemma int_to_size_neg: "i < 0 \<Longrightarrow> - (2 ^ 31) \<le> i \<Longrightarrow> int_to_size i = nat (i + 2 ^ 64)"
proof -
  assume i: "i < 0" "- (2 ^ 31) \<le> i"
  have "i mod 2 ^ 64 = (i + 2 ^ 64) mod 2 ^ 64" by simp
  also have "\<dots> = i + 2 ^ 64" using i by (intro mod_pos_pos_trivial) auto
  finally show ?thesis by (simp add: int_to_size_def)
qed

text \<open>C++ division truncates towards zero; on non-negative operands it is \<open>div\<close> and \<open>mod\<close>.\<close>

lemma sdiv_nonneg: "0 \<le> a \<Longrightarrow> 0 < b \<Longrightarrow> a sdiv b = a div (b :: int)"
  by (cases "a = 0") (auto simp: signed_divide_int_def)

lemma smod_nonneg: "0 \<le> a \<Longrightarrow> 0 < b \<Longrightarrow> a smod b = a mod (b :: int)"
  by (cases "a = 0") (auto simp: signed_modulo_int_def)

section \<open>Arrays and searches\<close>

text \<open>\<^verbatim>\<open>std::copy\<close> from another object into an array at offset \<open>d\<close>.\<close>

definition copy_at :: "nat \<Rightarrow> 'a list \<Rightarrow> 'a list \<Rightarrow> 'a list" where
  "copy_at d src xs = take d xs @ src @ drop (d + length src) xs"

text \<open>
  \<^verbatim>\<open>std::copy(b + first, b + last, b + d)\<close> inside one array: the loop writes element by element
  in increasing order, so it may read elements it has already overwritten.
\<close>

function copy_within :: "nat \<Rightarrow> nat \<Rightarrow> nat \<Rightarrow> 'a list \<Rightarrow> 'a list" where
  "copy_within first fin d xs =
     (if first < fin then copy_within (Suc first) fin (Suc d) (xs[d := xs ! first]) else xs)"
  by pat_completeness auto
termination
  by (relation "measure (\<lambda>(first, fin, d, xs). fin - first)") auto

declare copy_within.simps [simp del]

text \<open>\<^verbatim>\<open>std::find\<close> and \<^verbatim>\<open>std::search\<close>: the offset of the first match, the length if none.\<close>

definition std_find :: "'a \<Rightarrow> 'a list \<Rightarrow> nat" where
  "std_find c xs = length (takeWhile (\<lambda>x. x \<noteq> c) xs)"

fun std_search :: "'a list \<Rightarrow> 'a list \<Rightarrow> nat" where
  "std_search pat [] = 0"
| "std_search pat (x # xs) =
     (if take (length pat) (x # xs) = pat then 0 else Suc (std_search pat xs))"

lemma length_copy_at [simp]: "d + length src \<le> length xs \<Longrightarrow> length (copy_at d src xs) = length xs"
  by (simp add: copy_at_def)

lemma take_copy_at [simp]: "n \<le> d \<Longrightarrow> d \<le> length xs \<Longrightarrow> take n (copy_at d src xs) = take n xs"
  by (simp add: copy_at_def min_def)

text \<open>The copy loop moves the block intact when it moves it towards the front.\<close>

lemma copy_within_forward:
  assumes "d \<le> first" and "first \<le> fin" and "fin \<le> length xs"
  shows "copy_within first fin d xs =
    take d xs @ take (fin - first) (drop first xs) @ drop (d + (fin - first)) xs"
  using assms
proof (induction first fin d xs rule: copy_within.induct)
  case (1 first fin d xs)
  show ?case
  proof (cases "first < fin")
    case False
    with "1.prems" show ?thesis by (subst copy_within.simps) simp
  next
    case True
    let ?ys = "xs[d := xs ! first]"
    have d: "d < length xs" and f: "first < length xs" using True "1.prems" by auto
    have "copy_within first fin d xs = copy_within (Suc first) fin (Suc d) ?ys"
      using True by (simp add: copy_within.simps [of first fin d xs])
    also have "\<dots> = take (Suc d) ?ys @ take (fin - Suc first) (drop (Suc first) ?ys)
        @ drop (Suc d + (fin - Suc first)) ?ys"
      using "1.IH" [OF True] True "1.prems" by simp
    also have "take (Suc d) ?ys = take d xs @ [xs ! first]"
      using d by (simp add: take_Suc_conv_app_nth)
    also have "drop (Suc first) ?ys = drop (Suc first) xs"
      using "1.prems" by (simp add: drop_update_cancel)
    also have "drop (Suc d + (fin - Suc first)) ?ys = drop (d + (fin - first)) xs"
      using True by (simp add: drop_update_cancel Suc_diff_Suc)
    also have "take (fin - first) (drop first xs) =
        xs ! first # take (fin - Suc first) (drop (Suc first) xs)"
      using True f by (simp add: Cons_nth_drop_Suc [symmetric] take_Cons' Suc_diff_Suc)
    ultimately show ?thesis by simp
  qed
qed

lemma length_copy_within [simp]: "length (copy_within first fin d xs) = length xs"
proof (induction first fin d xs rule: copy_within.induct)
  case (1 first fin d xs)
  then show ?case by (simp add: copy_within.simps [of first fin d xs])
qed

lemma std_find_le [simp]: "std_find c xs \<le> length xs"
  by (simp add: std_find_def length_takeWhile_le)

lemma std_find_less_iff: "std_find c xs < length xs \<longleftrightarrow> c \<in> set xs"
  by (induction xs) (auto simp: std_find_def)

lemma std_find_nth: "std_find c xs < length xs \<Longrightarrow> xs ! std_find c xs = c"
  using nth_length_takeWhile [of "\<lambda>x. x \<noteq> c" xs] by (simp add: std_find_def)

lemma std_find_take: "c \<notin> set (take (std_find c xs) xs)"
  by (metis std_find_def takeWhile_eq_take set_takeWhileD)

lemma std_find_append_notin [simp]: "c \<notin> set xs \<Longrightarrow> std_find c (xs @ c # ys) = length xs"
  by (induction xs) (auto simp: std_find_def)

lemma std_search_le: "std_search pat xs \<le> length xs"
  by (induction xs) auto

text \<open>The search returns the first match exactly.\<close>

lemma std_search_match:
  "pat \<noteq> [] \<Longrightarrow> std_search pat xs < length xs \<Longrightarrow>
    take (length pat) (drop (std_search pat xs) xs) = pat"
  by (induction xs) (auto split: if_splits)

lemma std_search_first:
  "i < std_search pat xs \<Longrightarrow> take (length pat) (drop i xs) \<noteq> pat"
proof (induction xs arbitrary: i)
  case Nil
  then show ?case by simp
next
  case (Cons x xs)
  then show ?case by (cases i) (auto split: if_splits)
qed

lemma std_search_none:
  "pat \<noteq> [] \<Longrightarrow> std_search pat xs = length xs \<longleftrightarrow> (\<forall>i. take (length pat) (drop i xs) \<noteq> pat)"
proof
  assume "pat \<noteq> []" "std_search pat xs = length xs"
  then show "\<forall>i. take (length pat) (drop i xs) \<noteq> pat"
    by (metis std_search_first drop_all take_Nil not_less)
next
  assume "pat \<noteq> []" "\<forall>i. take (length pat) (drop i xs) \<noteq> pat"
  then show "std_search pat xs = length xs"
    by (metis std_search_match std_search_le le_neq_implies_less)
qed

section \<open>Decimal notation\<close>

text \<open>What \<^verbatim>\<open>%d\<close> and \<^verbatim>\<open>operator<<\<close> print for an integer.\<close>

definition digit_char :: "nat \<Rightarrow> char" where
  "digit_char d = char_of (48 + d)"

fun dec_nat :: "nat \<Rightarrow> string" where
  "dec_nat n = (if n < 10 then [digit_char n] else dec_nat (n div 10) @ [digit_char (n mod 10)])"

declare dec_nat.simps [simp del]

definition dec_int :: "int \<Rightarrow> string" where
  "dec_int i = (if i < 0 then CHR 0x2D # dec_nat (nat (- i)) else dec_nat (nat i))"

text \<open>
  What \<^verbatim>\<open>snprintf\<close> leaves in a buffer of a given size, without the terminator. \<^verbatim>\<open>%4d\<close> and \<^verbatim>\<open>%02d\<close>: a width filled with blanks, and with zeros behind the sign.
\<close>

definition pad_left :: "nat \<Rightarrow> char \<Rightarrow> string \<Rightarrow> string" where
  "pad_left w c s = replicate (w - length s) c @ s"

definition dec_pad0 :: "nat \<Rightarrow> int \<Rightarrow> string" where
  "dec_pad0 w i = (if i < 0 then ''-'' @ pad_left (w - 1) (CHR ''0'') (dec_nat (nat (- i))) else pad_left w (CHR ''0'') (dec_nat (nat i)))"

definition snprintf :: "nat \<Rightarrow> string \<Rightarrow> string" where
  "snprintf sz text = take (sz - 1) text"

text \<open>Reading decimal digits back.\<close>

definition undec :: "string \<Rightarrow> nat" where
  "undec s = foldl (\<lambda>n c. 10 * n + (of_char c - 48)) 0 s"

lemma digit_chars:
  "digit_char 0 = CHR ''0''" "digit_char 1 = CHR ''1''" "digit_char (Suc 0) = CHR ''1''" "digit_char 2 = CHR ''2''"
  "digit_char 3 = CHR ''3''" "digit_char 4 = CHR ''4''" "digit_char 5 = CHR ''5''" "digit_char 6 = CHR ''6''"
  "digit_char 7 = CHR ''7''" "digit_char 8 = CHR ''8''" "digit_char 9 = CHR ''9''"
  by code_simp+

lemma of_char_digit: "d < 10 \<Longrightarrow> of_char (digit_char d) - 48 = d"
  by (simp add: digit_char_def)

lemma undec_append: "undec (s @ [c]) = 10 * undec s + (of_char c - 48)"
  by (simp add: undec_def)

lemma undec_dec_nat: "undec (dec_nat n) = n"
proof (induction n rule: dec_nat.induct)
  case (1 n)
  show ?case
  proof (cases "n < 10")
    case True
    then show ?thesis by (subst dec_nat.simps) (simp add: undec_def digit_char_def)
  next
    case False
    with 1 show ?thesis by (subst dec_nat.simps) (simp add: undec_append digit_char_def)
  qed
qed

lemma dec_nat_inj: "dec_nat m = dec_nat n \<longleftrightarrow> m = n"
  by (metis undec_dec_nat)

lemma length_dec_nat: "n < 10 ^ k \<Longrightarrow> 0 < k \<Longrightarrow> length (dec_nat n) \<le> k"
proof (induction n arbitrary: k rule: dec_nat.induct)
  case (1 n)
  show ?case
  proof (cases "n < 10")
    case True
    with 1(3) show ?thesis by (subst dec_nat.simps) simp
  next
    case False
    with 1(2,3) obtain j where k: "k = Suc j" "0 < j" by (cases k; cases "k - 1") auto
    with 1(2) have "n div 10 < 10 ^ j" by (simp add: div_less_iff_less_mult mult.commute)
    with 1(1) [OF False this k(2)] False k show ?thesis by (subst dec_nat.simps) simp
  qed
qed

end
