(* ===== verification/Muduo_Endian.thy ===== *)
theory Muduo_Endian
  imports Muduo_Prelude
begin

text \<open>
  \<^verbatim>\<open>muduo/net/Endian.h\<close>: conversion of integers between host and network byte order. The byte
  order of the host is a parameter, so every result holds on little- and big-endian machines. An
  integer is a word of its width; \<open>store\<close> and \<open>load\<close> are its object representation in memory,
  which the callers in \<^verbatim>\<open>Buffer.h\<close> and \<^verbatim>\<open>ProtobufCodecLite.cc\<close> reach with \<^verbatim>\<open>memcpy\<close>.
\<close>

section \<open>Object representation\<close>

datatype endian = Little | Big

primrec bytes_le :: "nat \<Rightarrow> nat \<Rightarrow> char list" where
  "bytes_le 0 k = []"
| "bytes_le (Suc n) k = char_of (k mod 256) # bytes_le n (k div 256)"

primrec nat_of_le :: "char list \<Rightarrow> nat" where
  "nat_of_le [] = 0"
| "nat_of_le (c # cs) = of_char c + 256 * nat_of_le cs"

definition store :: "endian \<Rightarrow> 'a::len word \<Rightarrow> char list" where
  "store e x =
     (let bs = bytes_le (LENGTH('a) div 8) (unat x)
      in case e of Little \<Rightarrow> bs | Big \<Rightarrow> rev bs)"

definition load :: "endian \<Rightarrow> char list \<Rightarrow> 'a::len word" where
  "load e bs = word_of_nat (nat_of_le (case e of Little \<Rightarrow> bs | Big \<Rightarrow> rev bs))"

text \<open>The byte swap of \<^verbatim>\<open>htobe16/32/64\<close> and \<^verbatim>\<open>be16/32/64toh\<close> on a little-endian host.\<close>

definition bswap :: "'a::len word \<Rightarrow> 'a word" where
  "bswap x = word_of_nat (nat_of_le (rev (bytes_le (LENGTH('a) div 8) (unat x))))"

definition htobe :: "endian \<Rightarrow> 'a::len word \<Rightarrow> 'a word" where
  "htobe e x = (case e of Little \<Rightarrow> bswap x | Big \<Rightarrow> x)"

definition betoh :: "endian \<Rightarrow> 'a::len word \<Rightarrow> 'a word" where
  "betoh e x = (case e of Little \<Rightarrow> bswap x | Big \<Rightarrow> x)"

section \<open>The six conversions of Endian.h\<close>

definition hostToNetwork64 :: "endian \<Rightarrow> 64 word \<Rightarrow> 64 word" where
  "hostToNetwork64 e host64 = htobe e host64"

definition hostToNetwork32 :: "endian \<Rightarrow> 32 word \<Rightarrow> 32 word" where
  "hostToNetwork32 e host32 = htobe e host32"

definition hostToNetwork16 :: "endian \<Rightarrow> 16 word \<Rightarrow> 16 word" where
  "hostToNetwork16 e host16 = htobe e host16"

definition networkToHost64 :: "endian \<Rightarrow> 64 word \<Rightarrow> 64 word" where
  "networkToHost64 e net64 = betoh e net64"

definition networkToHost32 :: "endian \<Rightarrow> 32 word \<Rightarrow> 32 word" where
  "networkToHost32 e net32 = betoh e net32"

definition networkToHost16 :: "endian \<Rightarrow> 16 word \<Rightarrow> 16 word" where
  "networkToHost16 e net16 = betoh e net16"

lemmas network_defs = hostToNetwork64_def hostToNetwork32_def hostToNetwork16_def
  networkToHost64_def networkToHost32_def networkToHost16_def

section \<open>Byte lists and numbers\<close>

lemma length_bytes_le [simp]: "length (bytes_le n k) = n"
  by (induction n arbitrary: k) auto

lemma bytes_le_numeral [simp]:
  "bytes_le (numeral n) k = char_of (k mod 256) # bytes_le (pred_numeral n) (k div 256)"
  by (simp only: numeral_eq_Suc [of n] bytes_le.simps)

lemma nat_of_le_less: "nat_of_le bs < 256 ^ length bs"
proof (induction bs)
  case Nil
  then show ?case by simp
next
  case (Cons c cs)
  have "of_char c + 256 * nat_of_le cs < 256 * Suc (nat_of_le cs)"
    by simp
  also have "\<dots> \<le> 256 * 256 ^ length cs" using Cons by (intro mult_le_mono2 Suc_leI)
  finally show ?case by simp
qed

lemma nat_of_le_bytes_le: "k < 256 ^ n \<Longrightarrow> nat_of_le (bytes_le n k) = k"
proof (induction n arbitrary: k)
  case 0
  then show ?case by simp
next
  case (Suc n)
  then have "k div 256 < 256 ^ n" by (simp add: less_mult_imp_div_less mult.commute)
  with Suc.IH show ?case by simp
qed

lemma bytes_le_nat_of_le: "bytes_le (length bs) (nat_of_le bs) = bs"
proof (induction bs)
  case Nil
  then show ?case by simp
next
  case (Cons c cs)
  have c: "of_char c < (256::nat)" by (rule nat_of_char_less_256)
  have "(of_char c + 256 * nat_of_le cs) div 256 = nat_of_le cs" using c by simp
  moreover have "(of_char c + 256 * nat_of_le cs) mod 256 = (of_char c :: nat)" using c by simp
  ultimately show ?case using Cons by simp
qed

lemma bytes_le_of_nat_of_le: "length bs = n \<Longrightarrow> bytes_le n (nat_of_le bs) = bs"
  using bytes_le_nat_of_le [of bs] by simp

lemma pow_256_bytes: "8 dvd n \<Longrightarrow> (256::nat) ^ (n div 8) = 2 ^ n"
proof -
  assume "8 dvd n"
  have "(256::nat) ^ (n div 8) = (2 ^ 8) ^ (n div 8)" by simp
  also have "\<dots> = 2 ^ (8 * (n div 8))" by (rule power_mult [symmetric])
  finally show ?thesis using \<open>8 dvd n\<close> by simp
qed

lemma unat_less_256_pow: "8 dvd LENGTH('a) \<Longrightarrow> unat (x :: 'a::len word) < 256 ^ (LENGTH('a) div 8)"
  by (simp add: pow_256_bytes)

lemma unat_load:
  assumes "8 dvd LENGTH('a)" and "length bs = LENGTH('a) div 8"
  shows "unat (word_of_nat (nat_of_le bs) :: 'a::len word) = nat_of_le bs"
proof -
  have "nat_of_le bs < 2 ^ LENGTH('a)"
    using nat_of_le_less [of bs] assms by (simp add: pow_256_bytes)
  then show ?thesis by (simp add: unat_of_nat take_bit_nat_eq_self)
qed

section \<open>Network byte order is big-endian on every host\<close>

lemma length_store [simp]: "length (store e (x :: 'a::len word)) = LENGTH('a) div 8"
  by (simp add: store_def Let_def split: endian.split)

text \<open>The bytes of \<^verbatim>\<open>htobe(x)\<close> in memory: most significant first.\<close>

lemma store_htobe:
  assumes "8 dvd LENGTH('a)"
  shows "store e (htobe e x) = rev (bytes_le (LENGTH('a) div 8) (unat (x :: 'a::len word)))"
  using assms
  by (simp add: store_def htobe_def bswap_def Let_def unat_load bytes_le_of_nat_of_le split: endian.split)

text \<open>Reading a big-endian byte sequence back through \<^verbatim>\<open>betoh\<close>.\<close>

lemma betoh_load:
  assumes "8 dvd LENGTH('a)" and "length bs = LENGTH('a) div 8"
  shows "betoh e (load e bs) = (word_of_nat (nat_of_le (rev bs)) :: 'a::len word)"
  using assms
  by (simp add: betoh_def bswap_def load_def unat_load bytes_le_of_nat_of_le split: endian.split)

lemma betoh_load_store_htobe:
  assumes "8 dvd LENGTH('a)"
  shows "betoh e' (load e' (store e (htobe e x))) = (x :: 'a::len word)"
  using assms by (simp add: store_htobe betoh_load nat_of_le_bytes_le unat_less_256_pow)

lemma bswap_bswap:
  assumes "8 dvd LENGTH('a)"
  shows "bswap (bswap x) = (x :: 'a::len word)"
  using assms
  by (simp add: bswap_def unat_load bytes_le_of_nat_of_le nat_of_le_bytes_le unat_less_256_pow)

lemma betoh_htobe: "8 dvd LENGTH('a) \<Longrightarrow> betoh e (htobe e x) = (x :: 'a::len word)"
  by (simp add: betoh_def htobe_def bswap_bswap split: endian.split)

end
