(* ===== verification/Muduo_StringPiece.thy ===== *)
theory Muduo_StringPiece
  imports Muduo_Prelude
begin

text \<open>
  \<^verbatim>\<open>muduo/base/StringPiece.h\<close>: a view of a byte sequence owned by someone else. The pointer is
  modelled by the bytes readable from it (up to the end of the object it points into), the length
  by the 32-bit \<^verbatim>\<open>int\<close> the class keeps.
\<close>

record StringPiece =
  ptr :: "char list"
  piece_len :: int

section \<open>Construction and access\<close>

definition StringPiece_default :: StringPiece where
  "StringPiece_default = \<lparr>ptr = [], piece_len = 0\<rparr>"

definition StringPiece_of_string :: "char list \<Rightarrow> StringPiece" where
  "StringPiece_of_string str = \<lparr>ptr = str, piece_len = size_to_int32 (length str)\<rparr>"

definition StringPiece_make :: "char list \<Rightarrow> int \<Rightarrow> StringPiece" where
  "StringPiece_make offset len = \<lparr>ptr = offset, piece_len = len\<rparr>"

definition StringPiece_empty :: "StringPiece \<Rightarrow> bool" where
  "StringPiece_empty s \<longleftrightarrow> piece_len s = 0"

definition StringPiece_index :: "StringPiece \<Rightarrow> int \<Rightarrow> char outcome" where
  "StringPiece_index s i =
     (if 0 \<le> i \<and> nat i < length (ptr s) then Inr (ptr s ! nat i) else Inl Out_of_bounds)"

definition StringPiece_as_string :: "StringPiece \<Rightarrow> char list outcome" where
  "StringPiece_as_string s =
     (if int_to_size (piece_len s) > length (ptr s) then Inl Out_of_bounds
      else Inr (take (int_to_size (piece_len s)) (ptr s)))"

section \<open>Modification\<close>

definition StringPiece_clear :: "StringPiece \<Rightarrow> StringPiece" where
  "StringPiece_clear s = s\<lparr>ptr := [], piece_len := 0\<rparr>"

definition StringPiece_set :: "char list \<Rightarrow> int \<Rightarrow> StringPiece \<Rightarrow> StringPiece" where
  "StringPiece_set buffer len s = s\<lparr>ptr := buffer, piece_len := len\<rparr>"

definition StringPiece_remove_prefix :: "int \<Rightarrow> StringPiece \<Rightarrow> StringPiece outcome" where
  "StringPiece_remove_prefix n s =
     (if 0 \<le> n \<and> nat n \<le> length (ptr s)
      then Inr (s\<lparr>ptr := drop (nat n) (ptr s), piece_len := piece_len s - n\<rparr>)
      else Inl Out_of_bounds)"

definition StringPiece_remove_suffix :: "int \<Rightarrow> StringPiece \<Rightarrow> StringPiece" where
  "StringPiece_remove_suffix n s = s\<lparr>piece_len := piece_len s - n\<rparr>"

section \<open>Comparison\<close>

text \<open>\<^verbatim>\<open>memcmp\<close> orders bytes as unsigned numbers; only the sign of its result is specified.\<close>

fun memcmp :: "char list \<Rightarrow> char list \<Rightarrow> nat \<Rightarrow> int" where
  "memcmp (x # xs) (y # ys) (Suc n) =
     (if x = y then memcmp xs ys n else if (of_char x :: nat) < of_char y then -1 else 1)"
| "memcmp _ _ _ = 0"

definition StringPiece_eq :: "StringPiece \<Rightarrow> StringPiece \<Rightarrow> bool" where
  "StringPiece_eq s x \<longleftrightarrow> piece_len s = piece_len x \<and> memcmp (ptr s) (ptr x) (nat (piece_len s)) = 0"

definition StringPiece_less :: "StringPiece \<Rightarrow> StringPiece \<Rightarrow> bool" where
  "StringPiece_less s x \<longleftrightarrow>
     (let r = memcmp (ptr s) (ptr x) (nat (if piece_len s < piece_len x then piece_len s else piece_len x))
      in r < 0 \<or> r = 0 \<and> piece_len s < piece_len x)"

definition StringPiece_less_eq :: "StringPiece \<Rightarrow> StringPiece \<Rightarrow> bool" where
  "StringPiece_less_eq s x \<longleftrightarrow>
     (let r = memcmp (ptr s) (ptr x) (nat (if piece_len s < piece_len x then piece_len s else piece_len x))
      in r < 0 \<or> r = 0 \<and> piece_len s \<le> piece_len x)"

definition StringPiece_compare :: "StringPiece \<Rightarrow> StringPiece \<Rightarrow> int" where
  "StringPiece_compare s x =
     (let r = memcmp (ptr s) (ptr x) (nat (if piece_len s < piece_len x then piece_len s else piece_len x))
      in if r = 0 then (if piece_len s < piece_len x then -1 else if piece_len s > piece_len x then 1 else r)
         else r)"

definition StringPiece_starts_with :: "StringPiece \<Rightarrow> StringPiece \<Rightarrow> bool" where
  "StringPiece_starts_with s x \<longleftrightarrow>
     piece_len s \<ge> piece_len x \<and> memcmp (ptr s) (ptr x) (nat (piece_len x)) = 0"

section \<open>Properties\<close>

text \<open>A view is well formed when it stays inside the object it points into.\<close>

definition piece_wf :: "StringPiece \<Rightarrow> bool" where
  "piece_wf s \<longleftrightarrow> 0 \<le> piece_len s \<and> nat (piece_len s) \<le> length (ptr s) \<and> piece_len s < 2 ^ 31"

definition chars :: "StringPiece \<Rightarrow> char list" where
  "chars s = take (nat (piece_len s)) (ptr s)"

definition byte_less :: "(char \<times> char) set" where
  "byte_less = {(x, y). (of_char x :: nat) < of_char y}"

lemma length_chars [simp]: "piece_wf s \<Longrightarrow> length (chars s) = nat (piece_len s)"
  by (simp add: piece_wf_def chars_def)

lemma piece_wf_of_string [simp]: "length str < 2 ^ 31 \<Longrightarrow> piece_wf (StringPiece_of_string str)"
  by (simp add: piece_wf_def StringPiece_of_string_def)

lemma chars_of_string [simp]: "length str < 2 ^ 31 \<Longrightarrow> chars (StringPiece_of_string str) = str"
  by (simp add: chars_def StringPiece_of_string_def)

lemma as_string_chars: "piece_wf s \<Longrightarrow> StringPiece_as_string s = Inr (chars s)"
proof -
  assume wf: "piece_wf s"
  then have "int_to_size (piece_len s) = nat (piece_len s)"
    using int_to_size_of_nat [of "nat (piece_len s)"] by (auto simp: piece_wf_def)
  with wf show ?thesis by (simp add: StringPiece_as_string_def piece_wf_def chars_def)
qed

text \<open>Removing a prefix or a suffix keeps the view well formed and drops exactly those bytes.\<close>

lemma remove_prefix_chars:
  assumes "piece_wf s" and "0 \<le> n" and "n \<le> piece_len s"
  shows "\<exists>s'. StringPiece_remove_prefix n s = Inr s' \<and> piece_wf s' \<and> chars s' = drop (nat n) (chars s)"
  using assms
  by (auto simp: StringPiece_remove_prefix_def piece_wf_def chars_def drop_take nat_diff_distrib)

lemma remove_suffix_chars:
  assumes "piece_wf s" and "0 \<le> n" and "n \<le> piece_len s"
  shows "piece_wf (StringPiece_remove_suffix n s) \<and>
    chars (StringPiece_remove_suffix n s) = take (length (chars s) - nat n) (chars s)"
  using assms
  by (auto simp: StringPiece_remove_suffix_def piece_wf_def chars_def nat_diff_distrib min_def)

lemma memcmp_take:
  "n \<le> length xs \<Longrightarrow> n \<le> length ys \<Longrightarrow> memcmp xs ys n = memcmp (take n xs) (take n ys) n"
  by (induction xs ys n rule: memcmp.induct) auto

lemma memcmp_zero_iff:
  "n \<le> length xs \<Longrightarrow> n \<le> length ys \<Longrightarrow> memcmp xs ys n = 0 \<longleftrightarrow> take n xs = take n ys"
  by (induction xs ys n rule: memcmp.induct) auto

lemma memcmp_neg_iff_lexord:
  assumes "m = min (length xs) (length ys)"
  shows "memcmp xs ys m < 0 \<or> memcmp xs ys m = 0 \<and> length xs < length ys
    \<longleftrightarrow> (xs, ys) \<in> lexord byte_less"
  using assms
proof (induction xs arbitrary: ys m)
  case Nil
  then show ?case by (cases ys) auto
next
  case (Cons x xs)
  show ?case
  proof (cases ys)
    case Nil
    with Cons show ?thesis by simp
  next
    case (Cons y ys')
    with Cons.prems Cons.IH [OF refl, of ys'] show ?thesis
      by (auto simp: byte_less_def)
  qed
qed

lemma StringPiece_eq_iff:
  "piece_wf s \<Longrightarrow> piece_wf x \<Longrightarrow> StringPiece_eq s x \<longleftrightarrow> chars s = chars x"
  unfolding StringPiece_eq_def
  by (metis (no_types, lifting) chars_def length_chars memcmp_zero_iff piece_wf_def nat_eq_iff2)

lemma StringPiece_less_iff:
  assumes "piece_wf s" and "piece_wf x"
  shows "StringPiece_less s x \<longleftrightarrow> (chars s, chars x) \<in> lexord byte_less"
proof -
  let ?m = "nat (min (piece_len s) (piece_len x))"
  have if_min: "(if a < b then a else b) = min a b" for a b :: int by (simp add: min_def)
  have m: "?m = min (length (chars s)) (length (chars x))" using assms by (simp add: nat_mono min_def)
  have "memcmp (ptr s) (ptr x) ?m = memcmp (chars s) (chars x) ?m"
    using assms memcmp_take [of ?m "ptr s" "ptr x"] memcmp_take [of ?m "chars s" "chars x"]
    by (auto simp: chars_def piece_wf_def min_def nat_mono)
  moreover have "piece_len s < piece_len x \<longleftrightarrow> length (chars s) < length (chars x)"
    using assms by (auto simp: piece_wf_def)
  ultimately show ?thesis
    using memcmp_neg_iff_lexord [OF m] unfolding StringPiece_less_def Let_def if_min by simp
qed

lemma StringPiece_starts_with_iff:
  assumes "piece_wf s" and "piece_wf x"
  shows "StringPiece_starts_with s x \<longleftrightarrow> (\<exists>r. chars s = chars x @ r)"
proof -
  have "StringPiece_starts_with s x \<longleftrightarrow>
      length (chars x) \<le> length (chars s) \<and> take (length (chars x)) (chars s) = chars x"
    using assms memcmp_zero_iff [of "nat (piece_len x)" "ptr s" "ptr x"]
    by (auto simp: StringPiece_starts_with_def piece_wf_def chars_def min_def)
  also have "\<dots> \<longleftrightarrow> (\<exists>r. chars s = chars x @ r)"
    by (metis append_take_drop_id append_eq_conv_conj length_append le_add1)
  finally show ?thesis .
qed

end
