(* ===== verification/Muduo_Buffer.thy ===== *)
theory Muduo_Buffer
  imports Muduo_Endian Muduo_StringPiece
begin

text \<open>
  \<^verbatim>\<open>muduo/net/Buffer.h\<close> and \<^verbatim>\<open>Buffer.cc\<close>: the byte buffer between the sockets and the
  application. The record keeps the vector with its two indices; a \<^verbatim>\<open>const char*\<close> into the buffer
  is an offset from \<^verbatim>\<open>begin()\<close>, and a null pointer is \<open>None\<close>. The headline result is that the
  buffer is a queue of bytes: \<open>content\<close> is its abstract value and every operation acts on it as a
  list operation, whatever reallocation or compaction happens inside.
\<close>

section \<open>State\<close>

record Buffer =
  buffer :: "char list"
  readerIndex :: nat
  writerIndex :: nat

definition kCheapPrepend :: nat where
  "kCheapPrepend = 8"

definition kInitialSize :: nat where
  "kInitialSize = 1024"

definition kCRLF :: "char list" where
  "kCRLF = [CHR 0x0D, CHR 0x0A]"

text \<open>
  The three sizes of the class diagram: the header calls \<^verbatim>\<open>prependableBytes()\<close>,
  \<^verbatim>\<open>readableBytes()\<close> and \<^verbatim>\<open>writableBytes()\<close> throughout but does not declare them, so they
  are the widths of the three regions the diagram draws, as \<^verbatim>\<open>size_t\<close> differences.
\<close>

definition readableBytes :: "Buffer \<Rightarrow> nat" where
  "readableBytes b = size_sub (writerIndex b) (readerIndex b)"

definition writableBytes :: "Buffer \<Rightarrow> nat" where
  "writableBytes b = size_sub (length (buffer b)) (writerIndex b)"

definition prependableBytes :: "Buffer \<Rightarrow> nat" where
  "prependableBytes b = readerIndex b"

definition Buffer_new :: "nat \<Rightarrow> Buffer outcome" where
  "Buffer_new initialSize =
     (let n = size_add kCheapPrepend initialSize
      in if vector_max_size < n then Inl Length_error
         else let b = \<lparr>buffer = replicate n (CHR 0x00), readerIndex = kCheapPrepend,
                       writerIndex = kCheapPrepend\<rparr>
              in assert_that (readableBytes b = 0) ''readableBytes() == 0''
                 (assert_that (writableBytes b = initialSize) ''writableBytes() == initialSize''
                 (assert_that (prependableBytes b = kCheapPrepend) ''prependableBytes() == kCheapPrepend''
                 (Inr b))))"

definition Buffer_swap :: "Buffer \<Rightarrow> Buffer \<Rightarrow> Buffer \<times> Buffer" where
  "Buffer_swap b rhs =
     (b\<lparr>buffer := buffer rhs, readerIndex := readerIndex rhs, writerIndex := writerIndex rhs\<rparr>,
      rhs\<lparr>buffer := buffer b, readerIndex := readerIndex b, writerIndex := writerIndex b\<rparr>)"

definition peek :: "Buffer \<Rightarrow> nat" where
  "peek b = readerIndex b"

definition beginWrite :: "Buffer \<Rightarrow> nat" where
  "beginWrite b = writerIndex b"

text \<open>The bytes of the buffer between two pointers.\<close>

definition bytes_between :: "Buffer \<Rightarrow> nat \<Rightarrow> nat \<Rightarrow> char list" where
  "bytes_between b p q = take (q - p) (drop p (buffer b))"

section \<open>Searching\<close>

definition findCRLF :: "Buffer \<Rightarrow> nat option" where
  "findCRLF b =
     (let crlf = peek b + std_search kCRLF (bytes_between b (peek b) (beginWrite b))
      in if crlf = beginWrite b then None else Some crlf)"

definition findCRLF_from :: "nat \<Rightarrow> Buffer \<Rightarrow> nat option outcome" where
  "findCRLF_from start b =
     assert_that (peek b \<le> start) ''peek() <= start''
     (assert_that (start \<le> beginWrite b) ''start <= beginWrite()''
      (let crlf = start + std_search kCRLF (bytes_between b start (beginWrite b))
       in Inr (if crlf = beginWrite b then None else Some crlf)))"

text \<open>\<^verbatim>\<open>memchr\<close> returns null when the byte does not occur.\<close>

definition memchr :: "nat \<Rightarrow> char \<Rightarrow> nat \<Rightarrow> char list \<Rightarrow> nat option" where
  "memchr start c n xs =
     (let bs = take n (drop start xs)
      in if c \<in> set bs then Some (start + std_find c bs) else None)"

definition findEOL :: "Buffer \<Rightarrow> nat option" where
  "findEOL b = memchr (peek b) (CHR 0x0A) (readableBytes b) (buffer b)"

definition findEOL_from :: "nat \<Rightarrow> Buffer \<Rightarrow> nat option outcome" where
  "findEOL_from start b =
     assert_that (peek b \<le> start) ''peek() <= start''
     (assert_that (start \<le> beginWrite b) ''start <= beginWrite()''
      (Inr (memchr start (CHR 0x0A) (beginWrite b - start) (buffer b))))"

section \<open>Retrieving\<close>

definition retrieveAll :: "Buffer \<Rightarrow> Buffer" where
  "retrieveAll b = b\<lparr>readerIndex := kCheapPrepend, writerIndex := kCheapPrepend\<rparr>"

definition retrieve :: "nat \<Rightarrow> Buffer \<Rightarrow> Buffer outcome" where
  "retrieve n b =
     assert_that (n \<le> readableBytes b) ''len <= readableBytes()''
     (if n < readableBytes b then Inr (b\<lparr>readerIndex := readerIndex b + n\<rparr>)
      else Inr (retrieveAll b))"

definition retrieveUntil :: "nat \<Rightarrow> Buffer \<Rightarrow> Buffer outcome" where
  "retrieveUntil end_ptr b =
     assert_that (peek b \<le> end_ptr) ''peek() <= end''
     (assert_that (end_ptr \<le> beginWrite b) ''end <= beginWrite()''
      (retrieve (end_ptr - peek b) b))"

definition retrieveInt64 :: "Buffer \<Rightarrow> Buffer outcome" where
  "retrieveInt64 b = retrieve 8 b"

definition retrieveInt32 :: "Buffer \<Rightarrow> Buffer outcome" where
  "retrieveInt32 b = retrieve 4 b"

definition retrieveInt16 :: "Buffer \<Rightarrow> Buffer outcome" where
  "retrieveInt16 b = retrieve 2 b"

definition retrieveInt8 :: "Buffer \<Rightarrow> Buffer outcome" where
  "retrieveInt8 b = retrieve 1 b"

definition retrieveAsString :: "nat \<Rightarrow> Buffer \<Rightarrow> (char list \<times> Buffer) outcome" where
  "retrieveAsString n b =
     assert_that (n \<le> readableBytes b) ''len <= readableBytes()''
     (let result = bytes_between b (peek b) (peek b + n)
      in andThen (retrieve n b) (\<lambda>b'. Inr (result, b')))"

definition retrieveAllAsString :: "Buffer \<Rightarrow> (char list \<times> Buffer) outcome" where
  "retrieveAllAsString b = retrieveAsString (readableBytes b) b"

definition toStringPiece :: "Buffer \<Rightarrow> StringPiece" where
  "toStringPiece b =
     StringPiece_make (drop (peek b) (buffer b)) (size_to_int32 (readableBytes b))"

section \<open>Writing\<close>

text \<open>\<^verbatim>\<open>std::vector::resize\<close> value-initialises the new elements.\<close>

definition vector_resize :: "nat \<Rightarrow> char list \<Rightarrow> char list outcome" where
  "vector_resize n xs =
     (if vector_max_size < n then Inl Length_error
      else Inr (take n xs @ replicate (n - length xs) (CHR 0x00)))"

definition makeSpace :: "nat \<Rightarrow> Buffer \<Rightarrow> Buffer outcome" where
  "makeSpace n b =
     (if size_add (writableBytes b) (prependableBytes b) < size_add n kCheapPrepend
      then andThen (vector_resize (size_add (writerIndex b) n) (buffer b))
             (\<lambda>v. Inr (b\<lparr>buffer := v\<rparr>))
      else assert_that (kCheapPrepend < readerIndex b) ''kCheapPrepend < readerIndex_''
        (let readable = readableBytes b;
             b' = b\<lparr>buffer := copy_within (readerIndex b) (writerIndex b) kCheapPrepend (buffer b),
                    readerIndex := kCheapPrepend,
                    writerIndex := kCheapPrepend + readable\<rparr>
         in assert_that (readable = readableBytes b') ''readable == readableBytes()'' (Inr b')))"

definition ensureWritableBytes :: "nat \<Rightarrow> Buffer \<Rightarrow> Buffer outcome" where
  "ensureWritableBytes n b =
     andThen (if writableBytes b < n then makeSpace n b else Inr b)
       (\<lambda>b'. assert_that (writableBytes b' \<ge> n) ''writableBytes() >= len'' (Inr b'))"

definition hasWritten :: "nat \<Rightarrow> Buffer \<Rightarrow> Buffer outcome" where
  "hasWritten n b =
     assert_that (n \<le> writableBytes b) ''len <= writableBytes()''
     (Inr (b\<lparr>writerIndex := writerIndex b + n\<rparr>))"

definition unwrite :: "nat \<Rightarrow> Buffer \<Rightarrow> Buffer outcome" where
  "unwrite n b =
     assert_that (n \<le> readableBytes b) ''len <= readableBytes()''
     (Inr (b\<lparr>writerIndex := writerIndex b - n\<rparr>))"

text \<open>\<open>Buffer_append data n\<close>: \<open>data\<close> are the bytes readable from the pointer argument.\<close>

definition Buffer_append :: "char list \<Rightarrow> nat \<Rightarrow> Buffer \<Rightarrow> Buffer outcome" where
  "Buffer_append data n b =
     andThen (ensureWritableBytes n b)
       (\<lambda>b'. if length data < n then Inl Out_of_bounds
             else hasWritten n (b'\<lparr>buffer := copy_at (beginWrite b') (take n data) (buffer b')\<rparr>))"

definition append_piece :: "StringPiece \<Rightarrow> Buffer \<Rightarrow> Buffer outcome" where
  "append_piece str b = Buffer_append (ptr str) (int_to_size (piece_len str)) b"

definition appendInt64 :: "endian \<Rightarrow> 64 word \<Rightarrow> Buffer \<Rightarrow> Buffer outcome" where
  "appendInt64 e x b = Buffer_append (store e (hostToNetwork64 e x)) 8 b"

definition appendInt32 :: "endian \<Rightarrow> 32 word \<Rightarrow> Buffer \<Rightarrow> Buffer outcome" where
  "appendInt32 e x b = Buffer_append (store e (hostToNetwork32 e x)) 4 b"

definition appendInt16 :: "endian \<Rightarrow> 16 word \<Rightarrow> Buffer \<Rightarrow> Buffer outcome" where
  "appendInt16 e x b = Buffer_append (store e (hostToNetwork16 e x)) 2 b"

definition appendInt8 :: "endian \<Rightarrow> 8 word \<Rightarrow> Buffer \<Rightarrow> Buffer outcome" where
  "appendInt8 e x b = Buffer_append (store e x) 1 b"

section \<open>Integers at the front\<close>

definition peekInt64 :: "endian \<Rightarrow> Buffer \<Rightarrow> 64 word outcome" where
  "peekInt64 e b =
     assert_that (readableBytes b \<ge> 8) ''readableBytes() >= sizeof(int64_t)''
     (Inr (networkToHost64 e (load e (bytes_between b (peek b) (peek b + 8)))))"

definition peekInt32 :: "endian \<Rightarrow> Buffer \<Rightarrow> 32 word outcome" where
  "peekInt32 e b =
     assert_that (readableBytes b \<ge> 4) ''readableBytes() >= sizeof(int32_t)''
     (Inr (networkToHost32 e (load e (bytes_between b (peek b) (peek b + 4)))))"

definition peekInt16 :: "endian \<Rightarrow> Buffer \<Rightarrow> 16 word outcome" where
  "peekInt16 e b =
     assert_that (readableBytes b \<ge> 2) ''readableBytes() >= sizeof(int16_t)''
     (Inr (networkToHost16 e (load e (bytes_between b (peek b) (peek b + 2)))))"

definition peekInt8 :: "endian \<Rightarrow> Buffer \<Rightarrow> 8 word outcome" where
  "peekInt8 e b =
     assert_that (readableBytes b \<ge> 1) ''readableBytes() >= sizeof(int8_t)''
     (Inr (load e (bytes_between b (peek b) (peek b + 1))))"

definition readInt64 :: "endian \<Rightarrow> Buffer \<Rightarrow> (64 word \<times> Buffer) outcome" where
  "readInt64 e b =
     andThen (peekInt64 e b) (\<lambda>result. andThen (retrieveInt64 b) (\<lambda>b'. Inr (result, b')))"

definition readInt32 :: "endian \<Rightarrow> Buffer \<Rightarrow> (32 word \<times> Buffer) outcome" where
  "readInt32 e b =
     andThen (peekInt32 e b) (\<lambda>result. andThen (retrieveInt32 b) (\<lambda>b'. Inr (result, b')))"

definition readInt16 :: "endian \<Rightarrow> Buffer \<Rightarrow> (16 word \<times> Buffer) outcome" where
  "readInt16 e b =
     andThen (peekInt16 e b) (\<lambda>result. andThen (retrieveInt16 b) (\<lambda>b'. Inr (result, b')))"

definition readInt8 :: "endian \<Rightarrow> Buffer \<Rightarrow> (8 word \<times> Buffer) outcome" where
  "readInt8 e b =
     andThen (peekInt8 e b) (\<lambda>result. andThen (retrieveInt8 b) (\<lambda>b'. Inr (result, b')))"

definition prepend :: "char list \<Rightarrow> nat \<Rightarrow> Buffer \<Rightarrow> Buffer outcome" where
  "prepend data n b =
     assert_that (n \<le> prependableBytes b) ''len <= prependableBytes()''
     (if length data < n then Inl Out_of_bounds
      else Inr (b\<lparr>readerIndex := readerIndex b - n,
                  buffer := copy_at (readerIndex b - n) (take n data) (buffer b)\<rparr>))"

definition prependInt64 :: "endian \<Rightarrow> 64 word \<Rightarrow> Buffer \<Rightarrow> Buffer outcome" where
  "prependInt64 e x b = prepend (store e (hostToNetwork64 e x)) 8 b"

definition prependInt32 :: "endian \<Rightarrow> 32 word \<Rightarrow> Buffer \<Rightarrow> Buffer outcome" where
  "prependInt32 e x b = prepend (store e (hostToNetwork32 e x)) 4 b"

definition prependInt16 :: "endian \<Rightarrow> 16 word \<Rightarrow> Buffer \<Rightarrow> Buffer outcome" where
  "prependInt16 e x b = prepend (store e (hostToNetwork16 e x)) 2 b"

definition prependInt8 :: "endian \<Rightarrow> 8 word \<Rightarrow> Buffer \<Rightarrow> Buffer outcome" where
  "prependInt8 e x b = prepend (store e x) 1 b"

definition shrink :: "nat \<Rightarrow> Buffer \<Rightarrow> Buffer outcome" where
  "shrink reserve b =
     andThen (Buffer_new kInitialSize) (\<lambda>other.
     andThen (ensureWritableBytes (size_add (readableBytes b) reserve) other) (\<lambda>other.
     andThen (append_piece (toStringPiece b) other) (\<lambda>other.
     Inr (fst (Buffer_swap b other)))))"

section \<open>Reading from a descriptor\<close>

text \<open>
  \<open>readv\<close> stands for the system call: given the lengths of the vectors it is offered, it returns an
  error number or the bytes it delivered, which fill the vectors in order. The stack buffer
  \<^verbatim>\<open>extrabuf\<close> has 65536 bytes and is offered only when the buffer itself has less room.
\<close>

type_synonym readv_call = "nat list \<Rightarrow> int + char list"

definition sizeof_extrabuf :: nat where
  "sizeof_extrabuf = 65536"

text \<open>What \<^verbatim>\<open>readv(2)\<close> documents: it never delivers more bytes than it is offered room for.\<close>

definition readv_ok :: "readv_call \<Rightarrow> bool" where
  "readv_ok rv \<longleftrightarrow> (\<forall>iov d. rv iov = Inr d \<longrightarrow> length d \<le> sum_list iov)"

definition readFd_iov :: "Buffer \<Rightarrow> nat list" where
  "readFd_iov b =
     (let writable = writableBytes b
      in if writable < sizeof_extrabuf then [writable, sizeof_extrabuf] else [writable])"

definition readFd :: "readv_call \<Rightarrow> Buffer \<Rightarrow> (int + nat) \<times> Buffer outcome" where
  "readFd rv b =
     (let writable = writableBytes b
      in case rv (readFd_iov b) of
           Inl savedErrno \<Rightarrow> (Inl savedErrno, Inr b)
         | Inr d \<Rightarrow>
             let n = length d;
                 b' = b\<lparr>buffer := copy_at (writerIndex b) (take writable d) (buffer b)\<rparr>
             in if n \<le> writable then (Inr n, Inr (b'\<lparr>writerIndex := writerIndex b + n\<rparr>))
                else (Inr n, Buffer_append (drop writable d) (n - writable)
                               (b'\<lparr>writerIndex := length (buffer b')\<rparr>)))"

section \<open>Invariant and abstract value\<close>

definition buf_inv :: "Buffer \<Rightarrow> bool" where
  "buf_inv b \<longleftrightarrow> readerIndex b \<le> writerIndex b \<and> writerIndex b \<le> length (buffer b)
     \<and> kCheapPrepend \<le> length (buffer b) \<and> length (buffer b) \<le> vector_max_size"

definition content :: "Buffer \<Rightarrow> char list" where
  "content b = bytes_between b (readerIndex b) (writerIndex b)"

text \<open>Room for \<open>n\<close> more bytes: free already, by compaction, or by a legal reallocation.\<close>

definition has_room :: "nat \<Rightarrow> Buffer \<Rightarrow> bool" where
  "has_room n b \<longleftrightarrow> n \<le> length (buffer b) - writerIndex b
     \<or> n + kCheapPrepend \<le> length (buffer b) - writerIndex b + readerIndex b
     \<or> writerIndex b + n \<le> vector_max_size"

lemmas ptr_defs = peek_def beginWrite_def bytes_between_def

lemma buf_inv_bounds:
  assumes "buf_inv b"
  shows "readerIndex b < 2 ^ 64" "writerIndex b < 2 ^ 64" "length (buffer b) < 2 ^ 64"
  using assms by (auto simp: buf_inv_def vector_max_size_def)

lemma readableBytes_inv [simp]: "buf_inv b \<Longrightarrow> readableBytes b = writerIndex b - readerIndex b"
  using buf_inv_bounds [of b] by (simp add: readableBytes_def buf_inv_def)

lemma writableBytes_inv [simp]: "buf_inv b \<Longrightarrow> writableBytes b = length (buffer b) - writerIndex b"
  using buf_inv_bounds [of b] by (simp add: writableBytes_def buf_inv_def)

lemma prependableBytes_eq [simp]: "prependableBytes b = readerIndex b"
  by (simp add: prependableBytes_def)

lemma length_content [simp]: "buf_inv b \<Longrightarrow> length (content b) = writerIndex b - readerIndex b"
  by (auto simp: content_def bytes_between_def buf_inv_def)

lemma readableBytes_content: "buf_inv b \<Longrightarrow> readableBytes b = length (content b)"
  by simp

lemma bytes_from_peek:
  "buf_inv b \<Longrightarrow> n \<le> length (content b) \<Longrightarrow> bytes_between b (peek b) (peek b + n) = take n (content b)"
  using length_content [of b] by (simp add: content_def ptr_defs min_def)

section \<open>Every operation on the abstract value\<close>

lemma Buffer_new_ok:
  assumes "n + kCheapPrepend \<le> vector_max_size"
  shows "\<exists>b. Buffer_new n = Inr b \<and> buf_inv b \<and> content b = [] \<and> writableBytes b = n
    \<and> readerIndex b = kCheapPrepend"
proof -
  let ?b = "\<lparr>buffer = replicate (kCheapPrepend + n) (CHR 0x00), readerIndex = kCheapPrepend,
             writerIndex = kCheapPrepend\<rparr>"
  have add: "size_add kCheapPrepend n = kCheapPrepend + n"
    using assms by (intro size_add_small) (simp add: vector_max_size_def)
  have inv: "buf_inv ?b" using assms by (simp add: buf_inv_def)
  have "Buffer_new n = Inr ?b"
    unfolding Buffer_new_def add using assms inv by simp
  with inv show ?thesis by (simp add: content_def ptr_defs)
qed

lemma Buffer_new_default:
  "\<exists>b. Buffer_new kInitialSize = Inr b \<and> buf_inv b \<and> content b = [] \<and> writableBytes b = kInitialSize
    \<and> readerIndex b = kCheapPrepend"
  by (rule Buffer_new_ok) (simp add: kInitialSize_def kCheapPrepend_def vector_max_size_def)

lemma retrieveAll_ok: "buf_inv b \<Longrightarrow>
    buf_inv (retrieveAll b) \<and> content (retrieveAll b) = []"
  by (simp add: retrieveAll_def buf_inv_def content_def ptr_defs)

lemma retrieve_ok:
  assumes "buf_inv b" and "n \<le> length (content b)"
  shows "\<exists>b'. retrieve n b = Inr b' \<and> buf_inv b' \<and> content b' = drop n (content b)"
proof (cases "n < length (content b)")
  case True
  let ?b = "b\<lparr>readerIndex := readerIndex b + n\<rparr>"
  have "retrieve n b = Inr ?b" using True assms by (simp add: retrieve_def)
  moreover have "buf_inv ?b" using True assms by (auto simp: buf_inv_def)
  moreover have "content ?b = drop n (content b)"
    by (simp add: content_def ptr_defs drop_take add.commute)
  ultimately show ?thesis by blast
next
  case False
  with assms have n: "n = length (content b)" by simp
  then have "retrieve n b = Inr (retrieveAll b)" using assms by (simp add: retrieve_def)
  with n retrieveAll_ok [OF assms(1)] show ?thesis by simp
qed

lemma retrieve_too_much:
  "buf_inv b \<Longrightarrow> length (content b) < n \<Longrightarrow>
    retrieve n b = Inl (Assert_failed ''len <= readableBytes()'')"
  by (simp add: retrieve_def)

lemma retrieveAsString_ok:
  assumes "buf_inv b" and "n \<le> length (content b)"
  shows "\<exists>b'. retrieveAsString n b = Inr (take n (content b), b') \<and> buf_inv b'
    \<and> content b' = drop n (content b)"
  using retrieve_ok [OF assms] assms bytes_from_peek [OF assms]
  by (auto simp: retrieveAsString_def)

lemma retrieveAllAsString_ok:
  assumes "buf_inv b"
  shows "\<exists>b'. retrieveAllAsString b = Inr (content b, b') \<and> buf_inv b' \<and> content b' = []"
  using retrieveAsString_ok [OF assms, of "length (content b)"] assms
  by (simp add: retrieveAllAsString_def)

lemma retrieveUntil_ok:
  assumes "buf_inv b" and "n \<le> length (content b)"
  shows "\<exists>b'. retrieveUntil (peek b + n) b = Inr b' \<and> buf_inv b' \<and> content b' = drop n (content b)"
  using retrieve_ok [OF assms] assms by (auto simp: retrieveUntil_def ptr_defs buf_inv_def)

lemma unwrite_ok:
  assumes "buf_inv b" and "n \<le> length (content b)"
  shows "\<exists>b'. unwrite n b = Inr b' \<and> buf_inv b' \<and> content b' = take (length (content b) - n) (content b)"
proof -
  let ?b = "b\<lparr>writerIndex := writerIndex b - n\<rparr>"
  have "unwrite n b = Inr ?b" using assms by (simp add: unwrite_def)
  moreover have "buf_inv ?b" using assms by (auto simp: buf_inv_def)
  moreover have "content ?b = take (length (content b) - n) (content b)"
    using assms length_content [of b] by (simp add: content_def ptr_defs min_def add.commute)
  ultimately show ?thesis by blast
qed

subsection \<open>Making room\<close>

lemma makeSpace_grow:
  assumes "buf_inv b" and "length (buffer b) - writerIndex b < n"
    and "length (buffer b) - writerIndex b + readerIndex b < n + kCheapPrepend"
    and "writerIndex b + n \<le> vector_max_size"
  shows "\<exists>b'. makeSpace n b = Inr b' \<and> buf_inv b' \<and> content b' = content b
    \<and> length (buffer b') - writerIndex b' = n"
proof -
  let ?v = "buffer b @ replicate (writerIndex b + n - length (buffer b)) (CHR 0x00)"
  let ?b = "b\<lparr>buffer := ?v\<rparr>"
  have small: "size_add (length (buffer b) - writerIndex b) (readerIndex b)
        = length (buffer b) - writerIndex b + readerIndex b"
    "size_add n kCheapPrepend = n + kCheapPrepend"
    "size_add (writerIndex b) n = writerIndex b + n"
    using assms by (auto intro!: size_add_small simp: buf_inv_def vector_max_size_def kCheapPrepend_def)
  have "makeSpace n b = Inr ?b"
    using assms by (simp add: makeSpace_def small vector_resize_def)
  moreover have "buf_inv ?b" using assms by (auto simp: buf_inv_def)
  moreover have "content ?b = content b"
    using assms by (auto simp: content_def ptr_defs buf_inv_def)
  ultimately show ?thesis using assms by auto
qed

lemma makeSpace_compact:
  assumes "buf_inv b" and "length (buffer b) - writerIndex b < n"
    and "n + kCheapPrepend \<le> length (buffer b) - writerIndex b + readerIndex b"
  shows "\<exists>b'. makeSpace n b = Inr b' \<and> buf_inv b' \<and> content b' = content b
    \<and> n \<le> length (buffer b') - writerIndex b'"
proof -
  let ?r = "writerIndex b - readerIndex b"
  let ?v = "copy_within (readerIndex b) (writerIndex b) kCheapPrepend (buffer b)"
  let ?b = "b\<lparr>buffer := ?v, readerIndex := kCheapPrepend, writerIndex := kCheapPrepend + ?r\<rparr>"
  have small: "size_add (length (buffer b) - writerIndex b) (readerIndex b)
        = length (buffer b) - writerIndex b + readerIndex b"
    "size_add n kCheapPrepend = n + kCheapPrepend"
    using assms by (auto intro!: size_add_small simp: buf_inv_def vector_max_size_def)
  have kr: "kCheapPrepend < readerIndex b" using assms by linarith
  have inv: "buf_inv ?b" using assms kr by (auto simp: buf_inv_def)
  have "makeSpace n b = Inr ?b"
    using assms(1,3) inv kr by (simp add: makeSpace_def small Let_def)
  moreover have "content ?b = content b"
    using assms(1) kr
    by (simp add: content_def ptr_defs copy_within_forward buf_inv_def min_def)
  moreover have "n \<le> length (buffer ?b) - writerIndex ?b" using assms kr by (auto simp: buf_inv_def)
  ultimately show ?thesis using inv by blast
qed

lemma makeSpace_no_room:
  assumes "buf_inv b" and "\<not> has_room n b" and "n \<le> vector_max_size"
  shows "makeSpace n b = Inl Length_error"
proof -
  have small: "size_add (length (buffer b) - writerIndex b) (readerIndex b)
        = length (buffer b) - writerIndex b + readerIndex b"
    "size_add n kCheapPrepend = n + kCheapPrepend"
    "size_add (writerIndex b) n = writerIndex b + n"
    using assms by (auto intro!: size_add_small simp: buf_inv_def vector_max_size_def kCheapPrepend_def)
  show ?thesis using assms by (simp add: makeSpace_def small vector_resize_def has_room_def)
qed

lemma ensureWritableBytes_ok:
  assumes "buf_inv b" and "has_room n b"
  shows "\<exists>b'. ensureWritableBytes n b = Inr b' \<and> buf_inv b' \<and> content b' = content b
    \<and> n \<le> length (buffer b') - writerIndex b'"
proof -
  consider (free) "n \<le> length (buffer b) - writerIndex b"
    | (compact) "length (buffer b) - writerIndex b < n"
        "n + kCheapPrepend \<le> length (buffer b) - writerIndex b + readerIndex b"
    | (grow) "length (buffer b) - writerIndex b < n"
        "length (buffer b) - writerIndex b + readerIndex b < n + kCheapPrepend"
        "writerIndex b + n \<le> vector_max_size"
    using assms(2) unfolding has_room_def by linarith
  then show ?thesis
  proof cases
    case free
    with assms(1) show ?thesis by (simp add: ensureWritableBytes_def)
  next
    case compact
    from makeSpace_compact [OF assms(1) this] show ?thesis
      using compact assms(1) by (auto simp: ensureWritableBytes_def)
  next
    case grow
    from makeSpace_grow [OF assms(1) this] show ?thesis
      using grow assms(1) by (auto simp: ensureWritableBytes_def)
  qed
qed

lemma ensureWritableBytes_no_room:
  assumes "buf_inv b" and "\<not> has_room n b" and "n \<le> vector_max_size"
  shows "ensureWritableBytes n b = Inl Length_error"
proof -
  have "writableBytes b < n" using assms by (simp add: has_room_def)
  then show ?thesis using makeSpace_no_room [OF assms] by (simp add: ensureWritableBytes_def)
qed

subsection \<open>Appending and prepending\<close>

lemma write_at_end:
  assumes "buf_inv b" and "length d \<le> length (buffer b) - writerIndex b"
  defines "b' \<equiv> b\<lparr>buffer := copy_at (writerIndex b) d (buffer b), writerIndex := writerIndex b + length d\<rparr>"
  shows "buf_inv b' \<and> content b' = content b @ d"
proof
  show "buf_inv b'" using assms by (auto simp: buf_inv_def)
  have r: "readerIndex b \<le> writerIndex b" "writerIndex b \<le> length (buffer b)"
    using assms by (auto simp: buf_inv_def)
  have "take (writerIndex b + length d) (copy_at (writerIndex b) d (buffer b)) = take (writerIndex b) (buffer b) @ d"
    using r by (simp add: copy_at_def)
  then have "content b' = drop (readerIndex b) (take (writerIndex b) (buffer b) @ d)"
    by (simp add: b'_def content_def ptr_defs drop_take [symmetric])
  also have "\<dots> = content b @ d" using r by (simp add: content_def ptr_defs drop_take)
  finally show "content b' = content b @ d" .
qed

lemma append_ok:
  assumes "buf_inv b" and "has_room n b" and "n \<le> length data"
  shows "\<exists>b'. Buffer_append data n b = Inr b' \<and> buf_inv b' \<and> content b' = content b @ take n data"
proof -
  from ensureWritableBytes_ok [OF assms(1,2)] obtain c where
    c: "ensureWritableBytes n b = Inr c" "buf_inv c" "content c = content b"
      "n \<le> length (buffer c) - writerIndex c" by blast
  let ?c = "c\<lparr>buffer := copy_at (writerIndex c) (take n data) (buffer c)\<rparr>"
  have len: "length (take n data) = n" using assms(3) by simp
  have "buf_inv ?c" using c(2,4) len by (auto simp: buf_inv_def)
  moreover have "length (copy_at (writerIndex c) (take n data) (buffer c)) = length (buffer c)"
    using c(2,4) len by (auto simp: buf_inv_def)
  ultimately have "Buffer_append data n b = Inr (?c\<lparr>writerIndex := writerIndex c + n\<rparr>)"
    using c assms(3) by (simp add: Buffer_append_def hasWritten_def beginWrite_def)
  moreover have "buf_inv (?c\<lparr>writerIndex := writerIndex c + n\<rparr>)
      \<and> content (?c\<lparr>writerIndex := writerIndex c + n\<rparr>) = content b @ take n data"
    using write_at_end [OF c(2), of "take n data"] c(3,4) len by simp
  ultimately show ?thesis by blast
qed

lemma append_no_room:
  "buf_inv b \<Longrightarrow> \<not> has_room n b \<Longrightarrow> n \<le> vector_max_size \<Longrightarrow> Buffer_append data n b = Inl Length_error"
  by (simp add: Buffer_append_def ensureWritableBytes_no_room)

lemma append_piece_ok:
  assumes "buf_inv b" and "piece_wf p" and "has_room (length (chars p)) b"
  shows "\<exists>b'. append_piece p b = Inr b' \<and> buf_inv b' \<and> content b' = content b @ chars p"
proof -
  have n: "int_to_size (piece_len p) = length (chars p)"
    using assms(2) int_to_size_of_nat [of "nat (piece_len p)"] by (auto simp: piece_wf_def)
  have "length (chars p) \<le> length (ptr p)" using assms(2) by (simp add: piece_wf_def)
  moreover have "take (length (chars p)) (ptr p) = chars p"
    using length_chars [OF assms(2)] by (simp add: chars_def)
  ultimately show ?thesis
    using append_ok [OF assms(1,3), of "ptr p"] by (simp add: append_piece_def n)
qed

lemma prepend_ok:
  assumes "buf_inv b" and "n \<le> readerIndex b" and "n \<le> length data"
  shows "\<exists>b'. prepend data n b = Inr b' \<and> buf_inv b' \<and> content b' = take n data @ content b"
proof -
  let ?b = "b\<lparr>readerIndex := readerIndex b - n,
              buffer := copy_at (readerIndex b - n) (take n data) (buffer b)\<rparr>"
  have "prepend data n b = Inr ?b" using assms by (simp add: prepend_def)
  moreover have "buf_inv ?b" using assms by (auto simp: buf_inv_def)
  moreover have "content ?b = take n data @ content b"
  proof -
    have r: "n \<le> readerIndex b" "readerIndex b \<le> writerIndex b" "readerIndex b \<le> length (buffer b)"
      using assms by (auto simp: buf_inv_def)
    then have "min (length (buffer b)) (readerIndex b - n) = readerIndex b - n" by simp
    with r assms(3) show ?thesis by (simp add: content_def ptr_defs copy_at_def)
  qed
  ultimately show ?thesis by blast
qed

lemma prepend_no_room:
  "readerIndex b < n \<Longrightarrow> prepend data n b = Inl (Assert_failed ''len <= prependableBytes()'')"
  by (simp add: prepend_def)

subsection \<open>Integers in network byte order\<close>

text \<open>The big-endian bytes of a word: what every host puts on the wire for it.\<close>

definition be_bytes :: "'a::len word \<Rightarrow> char list" where
  "be_bytes x = rev (bytes_le (LENGTH('a) div 8) (unat x))"

lemma length_be_bytes [simp]: "length (be_bytes (x :: 'a::len word)) = LENGTH('a) div 8"
  by (simp add: be_bytes_def)

lemma store_network [simp]:
  "store e (hostToNetwork64 e x64) = be_bytes x64"
  "store e (hostToNetwork32 e x32) = be_bytes x32"
  "store e (hostToNetwork16 e x16) = be_bytes x16"
  "store e (x8 :: 8 word) = be_bytes x8"
  by (simp_all add: network_defs store_htobe be_bytes_def)
    (simp add: store_def Let_def split: endian.split)

lemma betoh_load_be_bytes:
  "8 dvd LENGTH('a) \<Longrightarrow> betoh e (load e (be_bytes x)) = (x :: 'a::len word)"
  by (simp add: be_bytes_def betoh_load nat_of_le_bytes_le unat_less_256_pow)

lemma load_be_bytes8: "load e (be_bytes x) = (x :: 8 word)"
proof -
  have "unat x mod 256 = unat x" using unsigned_less [of x, where 'a = nat] by simp
  then show ?thesis by (simp add: load_def be_bytes_def split: endian.split)
qed

lemma networkToHost_load [simp]:
  "networkToHost64 e (load e (be_bytes x64)) = x64"
  "networkToHost32 e (load e (be_bytes x32)) = x32"
  "networkToHost16 e (load e (be_bytes x16)) = x16"
  "load e (be_bytes x8) = (x8 :: 8 word)"
  by (simp_all add: network_defs betoh_load_be_bytes load_be_bytes8)

lemmas append_int_defs = appendInt64_def appendInt32_def appendInt16_def appendInt8_def
lemmas peek_int_defs = peekInt64_def peekInt32_def peekInt16_def peekInt8_def
lemmas prepend_int_defs = prependInt64_def prependInt32_def prependInt16_def prependInt8_def
lemmas read_int_defs = readInt64_def readInt32_def readInt16_def readInt8_def
  retrieveInt64_def retrieveInt32_def retrieveInt16_def retrieveInt8_def

lemma appendInt_ok:
  assumes "buf_inv b"
  shows "has_room 8 b \<Longrightarrow> \<exists>b'. appendInt64 e x64 b = Inr b' \<and> buf_inv b' \<and> content b' = content b @ be_bytes x64"
    and "has_room 4 b \<Longrightarrow> \<exists>b'. appendInt32 e x32 b = Inr b' \<and> buf_inv b' \<and> content b' = content b @ be_bytes x32"
    and "has_room 2 b \<Longrightarrow> \<exists>b'. appendInt16 e x16 b = Inr b' \<and> buf_inv b' \<and> content b' = content b @ be_bytes x16"
    and "has_room 1 b \<Longrightarrow> \<exists>b'. appendInt8 e x8 b = Inr b' \<and> buf_inv b' \<and> content b' = content b @ be_bytes x8"
  using append_ok [OF assms, of 8 "be_bytes x64"] append_ok [OF assms, of 4 "be_bytes x32"]
    append_ok [OF assms, of 2 "be_bytes x16"] append_ok [OF assms, of 1 "be_bytes x8"]
  by (simp_all add: append_int_defs)

lemma prependInt_ok:
  assumes "buf_inv b"
  shows "8 \<le> readerIndex b \<Longrightarrow> \<exists>b'. prependInt64 e x64 b = Inr b' \<and> buf_inv b' \<and> content b' = be_bytes x64 @ content b"
    and "4 \<le> readerIndex b \<Longrightarrow> \<exists>b'. prependInt32 e x32 b = Inr b' \<and> buf_inv b' \<and> content b' = be_bytes x32 @ content b"
    and "2 \<le> readerIndex b \<Longrightarrow> \<exists>b'. prependInt16 e x16 b = Inr b' \<and> buf_inv b' \<and> content b' = be_bytes x16 @ content b"
    and "1 \<le> readerIndex b \<Longrightarrow> \<exists>b'. prependInt8 e x8 b = Inr b' \<and> buf_inv b' \<and> content b' = be_bytes x8 @ content b"
  using prepend_ok [OF assms, of 8 "be_bytes x64"] prepend_ok [OF assms, of 4 "be_bytes x32"]
    prepend_ok [OF assms, of 2 "be_bytes x16"] prepend_ok [OF assms, of 1 "be_bytes x8"]
  by (simp_all add: prepend_int_defs)

lemma peekInt_ok:
  assumes "buf_inv b"
  shows "content b = be_bytes x64 @ r \<Longrightarrow> peekInt64 e b = Inr x64"
    and "content b = be_bytes x32 @ r \<Longrightarrow> peekInt32 e b = Inr x32"
    and "content b = be_bytes x16 @ r \<Longrightarrow> peekInt16 e b = Inr x16"
    and "content b = be_bytes x8 @ r \<Longrightarrow> peekInt8 e b = Inr x8"
  using bytes_from_peek [OF assms, of 8] bytes_from_peek [OF assms, of 4] bytes_from_peek [OF assms, of 2]
    bytes_from_peek [OF assms, of 1] readableBytes_content [OF assms]
  by (simp_all add: peek_int_defs del: readableBytes_inv length_content)

lemma readInt_ok:
  assumes "buf_inv b"
  shows "content b = be_bytes x64 @ r \<Longrightarrow> \<exists>b'. readInt64 e b = Inr (x64, b') \<and> buf_inv b' \<and> content b' = r"
    and "content b = be_bytes x32 @ r \<Longrightarrow> \<exists>b'. readInt32 e b = Inr (x32, b') \<and> buf_inv b' \<and> content b' = r"
    and "content b = be_bytes x16 @ r \<Longrightarrow> \<exists>b'. readInt16 e b = Inr (x16, b') \<and> buf_inv b' \<and> content b' = r"
    and "content b = be_bytes x8 @ r \<Longrightarrow> \<exists>b'. readInt8 e b = Inr (x8, b') \<and> buf_inv b' \<and> content b' = r"
  using retrieve_ok [OF assms, of 8] retrieve_ok [OF assms, of 4] retrieve_ok [OF assms, of 2]
    retrieve_ok [OF assms, of 1] peekInt_ok [OF assms]
  by (auto simp: read_int_defs)

subsection \<open>Searching\<close>

lemma bytes_peek_beginWrite [simp]: "bytes_between b (peek b) (beginWrite b) = content b"
  by (simp add: content_def ptr_defs)

lemma findCRLF_content:
  assumes "buf_inv b"
  shows "findCRLF b =
    (let k = std_search kCRLF (content b) in if k = length (content b) then None else Some (peek b + k))"
proof -
  have "peek b + k = beginWrite b \<longleftrightarrow> k = length (content b)" for k
    using assms by (auto simp: ptr_defs buf_inv_def)
  then show ?thesis by (simp add: findCRLF_def Let_def)
qed

lemma kCRLF_neq_Nil [simp]: "kCRLF \<noteq> []" and length_kCRLF [simp]: "length kCRLF = 2"
  by (simp_all add: kCRLF_def)

lemma findCRLF_SomeD:
  assumes "buf_inv b" and "findCRLF b = Some p"
  shows "\<exists>k. p = peek b + k \<and> k + 2 \<le> length (content b) \<and> take 2 (drop k (content b)) = kCRLF
    \<and> (\<forall>i < k. take 2 (drop i (content b)) \<noteq> kCRLF)"
proof -
  let ?k = "std_search kCRLF (content b)"
  have k: "?k < length (content b)" "p = peek b + ?k"
    using assms std_search_le [of kCRLF "content b"] findCRLF_content [OF assms(1)]
    by (auto simp: Let_def split: if_splits)
  have m: "take 2 (drop ?k (content b)) = kCRLF"
    using std_search_match [of kCRLF "content b"] k by simp
  then have "2 \<le> length (drop ?k (content b))"
    by (metis length_kCRLF length_take min.bounded_iff order_refl)
  moreover have "\<forall>i < ?k. take 2 (drop i (content b)) \<noteq> kCRLF"
    using std_search_first [of _ kCRLF "content b"] by simp
  ultimately show ?thesis using k m by auto
qed

lemma findCRLF_NoneD:
  assumes "buf_inv b" and "findCRLF b = None"
  shows "take 2 (drop i (content b)) \<noteq> kCRLF"
  using assms std_search_none [of kCRLF "content b"] findCRLF_content [OF assms(1)]
  by (auto simp: Let_def split: if_splits)

subsection \<open>Shrinking\<close>

lemma append_in_place:
  assumes "buf_inv b" and "n \<le> length (buffer b) - writerIndex b" and "n \<le> length data"
  shows "Buffer_append data n b =
    Inr (b\<lparr>buffer := copy_at (writerIndex b) (take n data) (buffer b), writerIndex := writerIndex b + n\<rparr>)"
proof -
  let ?b = "b\<lparr>buffer := copy_at (writerIndex b) (take n data) (buffer b)\<rparr>"
  have "ensureWritableBytes n b = Inr b" using assms by (simp add: ensureWritableBytes_def)
  moreover have len: "length (buffer ?b) = length (buffer b)" using assms by (auto simp: buf_inv_def)
  then have "buf_inv ?b" using assms(1) by (simp add: buf_inv_def)
  ultimately show ?thesis
    using assms(2,3) len by (simp add: Buffer_append_def hasWritten_def beginWrite_def)
qed

lemma toStringPiece_chars:
  assumes "buf_inv b" and "length (content b) < 2 ^ 31"
  shows "piece_wf (toStringPiece b) \<and> chars (toStringPiece b) = content b
    \<and> int_to_size (piece_len (toStringPiece b)) = length (content b)
    \<and> take (length (content b)) (ptr (toStringPiece b)) = content b
    \<and> length (content b) \<le> length (ptr (toStringPiece b))"
proof -
  let ?n = "writerIndex b - readerIndex b"
  have n: "?n < 2 ^ 31" "readableBytes b = ?n" using assms by simp_all
  then have len: "piece_len (toStringPiece b) = int ?n"
    by (simp add: toStringPiece_def StringPiece_make_def)
  have "?n \<le> length (drop (readerIndex b) (buffer b))" using assms(1) by (auto simp: buf_inv_def)
  then show ?thesis using n len assms(1)
    by (simp add: piece_wf_def chars_def toStringPiece_def StringPiece_make_def content_def ptr_defs)
qed

lemma shrink_ok:
  assumes "buf_inv b" and "length (content b) < 2 ^ 31"
    and "length (content b) + reserve + kCheapPrepend \<le> vector_max_size"
  shows "\<exists>b'. shrink reserve b = Inr b' \<and> buf_inv b' \<and> content b' = content b
    \<and> reserve \<le> writableBytes b'"
proof -
  let ?n = "length (content b)"
  from Buffer_new_default obtain c where c: "Buffer_new kInitialSize = Inr c" "buf_inv c"
    "content c = []" "readerIndex c = kCheapPrepend" "writableBytes c = kInitialSize" by blast
  have add: "size_add (readableBytes b) reserve = ?n + reserve"
    using assms by (auto intro!: size_add_small simp: vector_max_size_def)
  have "writerIndex c = kCheapPrepend"
    using c(2,3,4) length_content [of c] by (auto simp: buf_inv_def)
  then have "has_room (?n + reserve) c" using assms(3) by (simp add: has_room_def)
  from ensureWritableBytes_ok [OF c(2) this] obtain d where
    d: "ensureWritableBytes (?n + reserve) c = Inr d" "buf_inv d" "content d = []"
      "?n + reserve \<le> length (buffer d) - writerIndex d" using c(3) by auto
  let ?p = "toStringPiece b"
  note p = toStringPiece_chars [OF assms(1,2)]
  let ?d = "d\<lparr>buffer := copy_at (writerIndex d) (content b) (buffer d), writerIndex := writerIndex d + ?n\<rparr>"
  have "append_piece ?p d = Inr ?d"
    using append_in_place [OF d(2), of ?n "ptr ?p"] d(4) p by (simp add: append_piece_def)
  then have "shrink reserve b = Inr (fst (Buffer_swap b ?d))"
    using c d add by (simp add: shrink_def)
  moreover have w: "buf_inv ?d" "content ?d = content b"
    using write_at_end [OF d(2), of "content b"] d(3,4) by auto
  moreover have "reserve \<le> writableBytes ?d" using w(1) d(2,4) by (auto simp: buf_inv_def)
  moreover have "fst (Buffer_swap b ?d) = ?d\<lparr>Buffer.more := Buffer.more b\<rparr>"
    by (simp add: Buffer_swap_def)
  ultimately show ?thesis by (auto simp: buf_inv_def content_def ptr_defs writableBytes_def)
qed

subsection \<open>Reading from a descriptor\<close>

lemma readFd_error: "rv (readFd_iov b) = Inl err \<Longrightarrow> readFd rv b = (Inl err, Inr b)"
  by (simp add: readFd_def)

lemma sum_readFd_iov:
  "sum_list (readFd_iov b) = writableBytes b + (if writableBytes b < sizeof_extrabuf then sizeof_extrabuf else 0)"
  by (simp add: readFd_iov_def Let_def)

lemma readFd_data:
  assumes "buf_inv b" and "readv_ok rv" and "rv (readFd_iov b) = Inr d"
    and "length (buffer b) + sizeof_extrabuf \<le> vector_max_size"
  shows "\<exists>b'. readFd rv b = (Inr (length d), Inr b') \<and> buf_inv b' \<and> content b' = content b @ d"
proof (cases "length d \<le> length (buffer b) - writerIndex b")
  case True
  with write_at_end [OF assms(1) True] assms(1,3) show ?thesis by (simp add: readFd_def Let_def)
next
  case False
  let ?w = "length (buffer b) - writerIndex b"
  let ?b = "b\<lparr>buffer := copy_at (writerIndex b) (take ?w d) (buffer b), writerIndex := length (buffer b)\<rparr>"
  have tw: "length (take ?w d) = ?w" "writerIndex b \<le> length (buffer b)"
    using False assms(1) by (auto simp: buf_inv_def)
  then have len: "length (copy_at (writerIndex b) (take ?w d) (buffer b)) = length (buffer b)" by simp
  have w: "buf_inv ?b" "content ?b = content b @ take ?w d"
    using write_at_end [OF assms(1), of "take ?w d"] tw by auto
  have "length d \<le> sum_list (readFd_iov b)" using assms(2,3) by (simp add: readv_ok_def)
  then have "length d - ?w \<le> sizeof_extrabuf"
    using assms(1) sum_readFd_iov [of b] by (simp split: if_splits)
  then have "has_room (length d - ?w) ?b" using assms(4) by (simp add: has_room_def)
  from append_ok [OF w(1) this, of "drop ?w d"] obtain b' where
    "Buffer_append (drop ?w d) (length d - ?w) ?b = Inr b'" "buf_inv b'"
    "content b' = content b @ take ?w d @ drop ?w d" using w(2) by auto
  then show ?thesis using False assms(1,3) len by (auto simp: readFd_def Let_def)
qed

section \<open>The contract of a byte queue\<close>

text \<open>
  What the users of a buffer rely on, stated for any representation: putting bytes appends them
  and cannot fail while the queue stays below its capacity; getting \<open>n\<close> bytes returns the oldest
  \<open>n\<close> or fails when there are fewer. A run of puts and gets then agrees with the run on lists.
\<close>

datatype queue_op = Put "char list" | Get nat

fun run_queue :: "(char list \<Rightarrow> 'b \<Rightarrow> 'b outcome) \<Rightarrow> (nat \<Rightarrow> 'b \<Rightarrow> (char list \<times> 'b) outcome)
    \<Rightarrow> queue_op list \<Rightarrow> 'b \<Rightarrow> (char list \<times> 'b) outcome" where
  "run_queue put get [] b = Inr ([], b)"
| "run_queue put get (Put d # ops) b = andThen (put d b) (run_queue put get ops)"
| "run_queue put get (Get n # ops) b =
     andThen (get n b) (\<lambda>(r, b'). andThen (run_queue put get ops b') (\<lambda>(out, b''). Inr (r @ out, b'')))"

fun list_queue :: "queue_op list \<Rightarrow> char list \<Rightarrow> (char list \<times> char list) option" where
  "list_queue [] q = Some ([], q)"
| "list_queue (Put d # ops) q = list_queue ops (q @ d)"
| "list_queue (Get n # ops) q =
     (if n \<le> length q then map_option (\<lambda>(out, q'). (take n q @ out, q')) (list_queue ops (drop n q))
      else None)"

fun puts :: "queue_op list \<Rightarrow> char list" where
  "puts [] = []"
| "puts (Put d # ops) = d @ puts ops"
| "puts (Get n # ops) = puts ops"

lemma list_queue_fifo: "list_queue ops q = Some (out, q') \<Longrightarrow> out @ q' = q @ puts ops"
proof (induction ops q arbitrary: out q' rule: list_queue.induct)
  case (3 n ops q)
  then obtain out' where n: "n \<le> length q" "list_queue ops (drop n q) = Some (out', q')" "out = take n q @ out'"
    by (auto split: if_splits)
  from "3.IH" [OF n(1,2)] have "take n q @ out' @ q' = take n q @ drop n q @ puts ops" by simp
  then have "take n q @ out' @ q' = q @ puts ops" by (metis append_assoc append_take_drop_id)
  then show ?case by (simp add: n(3))
qed auto

locale byte_queue =
  fixes inv :: "'b \<Rightarrow> bool"
    and bytes :: "'b \<Rightarrow> char list"
    and cap :: nat
    and put :: "char list \<Rightarrow> 'b \<Rightarrow> 'b outcome"
    and get :: "nat \<Rightarrow> 'b \<Rightarrow> (char list \<times> 'b) outcome"
  assumes put_ok: "inv b \<Longrightarrow> length (bytes b) + 2 * length d \<le> cap \<Longrightarrow>
      \<exists>b'. put d b = Inr b' \<and> inv b' \<and> bytes b' = bytes b @ d"
    and get_ok: "inv b \<Longrightarrow> n \<le> length (bytes b) \<Longrightarrow>
      \<exists>b'. get n b = Inr (take n (bytes b), b') \<and> inv b' \<and> bytes b' = drop n (bytes b)"
    and get_short: "inv b \<Longrightarrow> length (bytes b) < n \<Longrightarrow> \<exists>e. get n b = Inl e"
begin

lemma run_refines:
  assumes "inv b" and "length (bytes b) + 2 * length (puts ops) \<le> cap"
  shows "case list_queue ops (bytes b) of
      Some (out, q) \<Rightarrow> \<exists>b'. run_queue put get ops b = Inr (out, b') \<and> inv b' \<and> bytes b' = q
    | None \<Rightarrow> \<exists>e. run_queue put get ops b = Inl e"
  using assms
proof (induction ops arbitrary: b)
  case Nil
  then show ?case by simp
next
  case (Cons op ops)
  show ?case
  proof (cases op)
    case (Put d)
    with Cons.prems put_ok [of b d] obtain b' where
      b': "put d b = Inr b'" "inv b'" "bytes b' = bytes b @ d" by auto
    have "length (bytes b') + 2 * length (puts ops) \<le> cap" using Cons.prems Put b' by simp
    with Cons.IH [OF b'(2) this] Put b' show ?thesis by (auto split: option.splits)
  next
    case (Get n)
    show ?thesis
    proof (cases "n \<le> length (bytes b)")
      case True
      from get_ok [OF Cons.prems(1) True] obtain b' where
        b': "get n b = Inr (take n (bytes b), b')" "inv b'" "bytes b' = drop n (bytes b)" by blast
      have "length (bytes b') + 2 * length (puts ops) \<le> cap" using Cons.prems Get b' by simp
      with Cons.IH [OF b'(2) this] Get b' True show ?thesis
        by (auto split: option.splits)
    next
      case False
      with get_short [OF Cons.prems(1), of n] Get show ?thesis by auto
    qed
  qed
qed

end

lemma has_room_if_small:
  assumes "buf_inv b" and "length (content b) + 2 * n + kCheapPrepend \<le> vector_max_size"
  shows "has_room n b"
proof (cases "n + kCheapPrepend \<le> length (buffer b) - writerIndex b + readerIndex b")
  case False
  then have "writerIndex b + n \<le> length (content b) + 2 * n + kCheapPrepend"
    using assms(1) length_content [OF assms(1)] by (auto simp: buf_inv_def)
  with assms(2) show ?thesis by (simp add: has_room_def)
qed (simp add: has_room_def)

interpretation buffer_queue: byte_queue buf_inv content "vector_max_size - kCheapPrepend"
  "\<lambda>d. Buffer_append d (length d)" retrieveAsString
proof unfold_locales
  fix b and d :: "char list"
  assume b: "buf_inv b" "length (content b) + 2 * length d \<le> vector_max_size - kCheapPrepend"
  have "kCheapPrepend \<le> vector_max_size" by (simp add: kCheapPrepend_def vector_max_size_def)
  then have "has_room (length d) b" using b by (intro has_room_if_small) auto
  from append_ok [OF b(1) this, of d]
  show "\<exists>b'. Buffer_append d (length d) b = Inr b' \<and> buf_inv b' \<and> content b' = content b @ d" by simp
next
  fix b n assume "buf_inv b" "n \<le> length (content b)"
  then show "\<exists>b'. retrieveAsString n b = Inr (take n (content b), b') \<and> buf_inv b' \<and> content b' = drop n (content b)"
    by (rule retrieveAsString_ok)
next
  fix b n assume "buf_inv b" "length (content b) < n"
  then show "\<exists>e. retrieveAsString n b = Inl e" by (simp add: retrieveAsString_def)
qed

section \<open>Reachable buffers\<close>

text \<open>
  The public operations that change a buffer, as one step each. Byte counts passed in are sizes of
  objects, so at most \<open>vector_max_size\<close>.
\<close>

inductive buffer_step :: "Buffer \<Rightarrow> Buffer \<Rightarrow> bool" where
  step_retrieve: "retrieve n b = Inr b' \<Longrightarrow> buffer_step b b'"
| step_retrieveUntil: "retrieveUntil p b = Inr b' \<Longrightarrow> buffer_step b b'"
| step_retrieveAll: "buffer_step b (retrieveAll b)"
| step_retrieveAsString: "retrieveAsString n b = Inr (r, b') \<Longrightarrow> buffer_step b b'"
| step_append: "n \<le> vector_max_size \<Longrightarrow> Buffer_append data n b = Inr b' \<Longrightarrow> buffer_step b b'"
| step_ensureWritableBytes:
    "n \<le> vector_max_size \<Longrightarrow> ensureWritableBytes n b = Inr b' \<Longrightarrow> buffer_step b b'"
| step_hasWritten: "hasWritten n b = Inr b' \<Longrightarrow> buffer_step b b'"
| step_unwrite: "unwrite n b = Inr b' \<Longrightarrow> buffer_step b b'"
| step_prepend: "prepend data n b = Inr b' \<Longrightarrow> buffer_step b b'"
| step_shrink: "length (content b) < 2 ^ 31 \<Longrightarrow>
    length (content b) + reserve + kCheapPrepend \<le> vector_max_size \<Longrightarrow>
    shrink reserve b = Inr b' \<Longrightarrow> buffer_step b b'"
| step_readFd: "readv_ok rv \<Longrightarrow> length (buffer b) + sizeof_extrabuf \<le> vector_max_size \<Longrightarrow>
    readFd rv b = (r, Inr b') \<Longrightarrow> buffer_step b b'"

inductive buffer_reachable :: "Buffer \<Rightarrow> bool" where
  created: "n + kCheapPrepend \<le> vector_max_size \<Longrightarrow> Buffer_new n = Inr b \<Longrightarrow> buffer_reachable b"
| stepped: "buffer_reachable b \<Longrightarrow> buffer_step b b' \<Longrightarrow> buffer_reachable b'"

lemma retrieve_inv: "buf_inv b \<Longrightarrow> retrieve n b = Inr b' \<Longrightarrow> buf_inv b'"
  using retrieve_ok [of b n] retrieve_too_much [of b n]
  by (cases "n \<le> length (content b)") auto

lemma hasWritten_inv: "buf_inv b \<Longrightarrow> hasWritten n b = Inr b' \<Longrightarrow> buf_inv b'"
  by (auto simp: hasWritten_def assert_that_eq_Inr buf_inv_def)

lemma readFd_inv:
  assumes "buf_inv b" and "readv_ok rv" and "length (buffer b) + sizeof_extrabuf \<le> vector_max_size"
    and "readFd rv b = (r, Inr b')"
  shows "buf_inv b'"
proof (cases "rv (readFd_iov b)")
  case (Inl err)
  with assms show ?thesis by (simp add: readFd_error)
next
  case (Inr d)
  from readFd_data [OF assms(1,2) Inr assms(3)] assms(4) show ?thesis by auto
qed

lemma buffer_step_inv: "buffer_step b b' \<Longrightarrow> buf_inv b \<Longrightarrow> buf_inv b'"
proof (induction rule: buffer_step.induct)
  case (step_append n data b b')
  then have room: "has_room n b" using append_no_room [of b n data] by auto
  moreover have "n \<le> length data"
    using step_append ensureWritableBytes_ok [OF _ room]
    by (auto simp: Buffer_append_def split: if_splits)
  ultimately show ?case using step_append append_ok [of b n data] by auto
next
  case (step_ensureWritableBytes n b b')
  then show ?case using ensureWritableBytes_ok [of b n] ensureWritableBytes_no_room [of b n] by auto
next
  case (step_unwrite n b b')
  then show ?case using unwrite_ok [of b n] by (auto simp: unwrite_def assert_that_eq_Inr)
next
  case (step_prepend data n b b')
  then show ?case
    using prepend_ok [of b n data] by (auto simp: prepend_def assert_that_eq_Inr split: if_splits)
next
  case (step_shrink b reserve b')
  then show ?case using shrink_ok [of b reserve] by auto
next
  case (step_readFd rv b r b')
  then show ?case using readFd_inv by blast
qed (auto simp: retrieveAll_ok retrieveUntil_def retrieveAsString_def assert_that_eq_Inr andThen_eq_Inr
       dest: retrieve_inv hasWritten_inv)

lemma buffer_reachable_inv: "buffer_reachable b \<Longrightarrow> buf_inv b"
proof (induction rule: buffer_reachable.induct)
  case (created n b)
  then show ?case using Buffer_new_ok [of n] by auto
next
  case (stepped b b')
  then show ?case by (blast intro: buffer_step_inv)
qed

text \<open>A concrete buffer for the witnesses: ten bytes of text in a vector of 32.\<close>

definition sample_buffer :: Buffer where
  "sample_buffer = \<lparr>buffer = replicate 8 (CHR 0x00) @ ''ab'' @ kCRLF @ ''cd'' @ replicate 18 (CHR 0x00),
     readerIndex = 8, writerIndex = 14\<rparr>"

lemma sample_buffer_inv: "buf_inv sample_buffer"
  by (simp add: buf_inv_def sample_buffer_def kCheapPrepend_def vector_max_size_def)

lemma sample_buffer_content: "content sample_buffer = ''ab'' @ kCRLF @ ''cd''"
  by (simp add: content_def ptr_defs sample_buffer_def kCRLF_def)

section \<open>Properties\<close>



text \<open>
  C2. A buffer refines a queue of bytes: any sequence of \<^verbatim>\<open>append\<close> and \<^verbatim>\<open>retrieveAsString\<close>
  calls returns exactly what the same sequence returns on a list, and fails exactly where a
  retrieve asks for more bytes than are queued, as long as the total stays within what a vector
  can hold. Reallocation and compaction are invisible.
\<close>

theorem buffer_refines_queue:
  assumes "buf_inv b"
    and "length (content b) + 2 * length (puts ops) \<le> vector_max_size - kCheapPrepend"
  shows "case list_queue ops (content b) of
      Some (out, q) \<Rightarrow> \<exists>b'. run_queue (\<lambda>d. Buffer_append d (length d)) retrieveAsString ops b = Inr (out, b')
        \<and> buf_inv b' \<and> content b' = q \<and> out @ content b' = content b @ puts ops
    | None \<Rightarrow> \<exists>e. run_queue (\<lambda>d. Buffer_append d (length d)) retrieveAsString ops b = Inl e"
  using buffer_queue.run_refines [OF assms] list_queue_fifo [of ops "content b"]
  by (auto split: option.splits)

theorem buffer_refines_queue_witness:
  "\<exists>b'. run_queue (\<lambda>d. Buffer_append d (length d)) retrieveAsString [Put ''xyz'', Get 4, Get 5]
      sample_buffer = Inr (''ab'' @ kCRLF @ ''cdxyz'', b')"
  using buffer_refines_queue [OF sample_buffer_inv, of "[Put ''xyz'', Get 4, Get 5]"]
  by (auto simp: sample_buffer_content kCRLF_def vector_max_size_def kCheapPrepend_def)

text \<open>
  C29. What \<^verbatim>\<open>append(data, len)\<close> does on every buffer and every length: with room it succeeds,
  keeps the invariant and appends exactly the first \<open>len\<close> bytes; without room (the vector would
  pass \<^verbatim>\<open>max_size()\<close>) it throws \<^verbatim>\<open>std::length_error\<close>. No assertion inside \<^verbatim>\<open>makeSpace\<close>,
  \<^verbatim>\<open>ensureWritableBytes\<close> or \<^verbatim>\<open>hasWritten\<close> can fail.
\<close>

theorem append_total:
  assumes "buf_inv b" and "n \<le> length data" and "n \<le> vector_max_size"
  shows "if has_room n b
    then \<exists>b'. Buffer_append data n b = Inr b' \<and> buf_inv b' \<and> content b' = content b @ take n data
    else Buffer_append data n b = Inl Length_error"
  using append_ok [OF assms(1) _ assms(2)] append_no_room [OF assms(1) _ assms(3)] by simp

theorem append_total_witness:
  "has_room 25 sample_buffer \<and> writableBytes sample_buffer < 25 \<and>
   (\<exists>b'. Buffer_append (replicate 25 CHR ''z'') 25 sample_buffer = Inr b'
      \<and> content b' = ''ab'' @ kCRLF @ ''cd'' @ replicate 25 CHR ''z'')"
proof -
  have room: "has_room 25 sample_buffer"
    by (simp add: has_room_def sample_buffer_def kCRLF_def vector_max_size_def)
  have "writableBytes sample_buffer < 25"
    using sample_buffer_inv by (simp add: sample_buffer_def kCRLF_def)
  then show ?thesis
    using room append_total [OF sample_buffer_inv, of 25 "replicate 25 CHR ''z''"]
    by (auto simp: sample_buffer_content vector_max_size_def)
qed

definition int_survives ::
  "('w \<Rightarrow> Buffer \<Rightarrow> Buffer outcome) \<Rightarrow> ('w \<Rightarrow> Buffer \<Rightarrow> Buffer outcome)
    \<Rightarrow> (Buffer \<Rightarrow> ('w \<times> Buffer) outcome) \<Rightarrow> char list \<Rightarrow> 'w \<Rightarrow> Buffer \<Rightarrow> bool" where
  "int_survives app pre rd bytes x b \<longleftrightarrow>
     (\<exists>b1 b2 b3. app x b = Inr b1 \<and> content b1 = content b @ bytes
        \<and> retrieve (length (content b)) b1 = Inr b2 \<and> rd b2 = Inr (x, b3) \<and> content b3 = [])
     \<and> (\<exists>b1 b2. pre x b = Inr b1 \<and> content b1 = bytes @ content b
        \<and> rd b1 = Inr (x, b2) \<and> content b2 = content b)"

lemma int_survivesI:
  assumes "\<exists>b1. app x b = Inr b1 \<and> buf_inv b1 \<and> content b1 = content b @ bytes"
    and "\<exists>b1. pre x b = Inr b1 \<and> buf_inv b1 \<and> content b1 = bytes @ content b"
    and "\<And>b r. buf_inv b \<Longrightarrow> content b = bytes @ r \<Longrightarrow> \<exists>b'. rd b = Inr (x, b') \<and> buf_inv b' \<and> content b' = r"
  shows "int_survives app pre rd bytes x b"
proof -
  from assms(1) obtain b1 where b1: "app x b = Inr b1" "buf_inv b1" "content b1 = content b @ bytes" by blast
  then have "length (content b) \<le> length (content b1)" by (simp only: length_append)
  from retrieve_ok [OF b1(2) this] obtain b2
    where b2: "retrieve (length (content b)) b1 = Inr b2" "buf_inv b2" "content b2 = bytes @ []"
    using b1(3) by auto
  from assms(3) [OF b2(2,3)] obtain b3 where "rd b2 = Inr (x, b3)" "content b3 = []" by blast
  with b1 b2 have 1: "\<exists>b1 b2 b3. app x b = Inr b1 \<and> content b1 = content b @ bytes
        \<and> retrieve (length (content b)) b1 = Inr b2 \<and> rd b2 = Inr (x, b3) \<and> content b3 = []" by blast
  from assms(2) obtain c1 where c1: "pre x b = Inr c1" "buf_inv c1" "content c1 = bytes @ content b" by blast
  from assms(3) [OF c1(2,3)] c1 1 show ?thesis unfolding int_survives_def by blast
qed

text \<open>
  C30. Integers survive the wire: on a host of either byte order, an integer of each width that is
  appended is in the buffer as its big-endian bytes after the old content, and reading it once the
  old content is consumed returns it and leaves the buffer empty; one that is prepended is in front
  of the content, and reading it returns it and leaves the content it was put in front of.
\<close>

theorem int_round_trip:
  assumes "buf_inv b" and "8 \<le> readerIndex b" and "has_room 8 b"
  shows "int_survives (appendInt64 e) (prependInt64 e) (readInt64 e) (be_bytes l) l b
    \<and> int_survives (appendInt32 e) (prependInt32 e) (readInt32 e) (be_bytes i) i b
    \<and> int_survives (appendInt16 e) (prependInt16 e) (readInt16 e) (be_bytes s) s b
    \<and> int_survives (appendInt8 e) (prependInt8 e) (readInt8 e) (be_bytes c) c b"
proof (intro conjI)
  have room: "has_room 4 b" "has_room 2 b" "has_room 1 b"
    using assms(3) by (auto simp: has_room_def)
  have pre: "4 \<le> readerIndex b" "2 \<le> readerIndex b" "1 \<le> readerIndex b" using assms(2) by simp_all
  show "int_survives (appendInt64 e) (prependInt64 e) (readInt64 e) (be_bytes l) l b"
    by (rule int_survivesI, rule appendInt_ok(1) [OF assms(1,3)], rule prependInt_ok(1) [OF assms(1,2)], rule readInt_ok(1))
  show "int_survives (appendInt32 e) (prependInt32 e) (readInt32 e) (be_bytes i) i b"
    by (rule int_survivesI, rule appendInt_ok(2) [OF assms(1) room(1)], rule prependInt_ok(2) [OF assms(1) pre(1)], rule readInt_ok(2))
  show "int_survives (appendInt16 e) (prependInt16 e) (readInt16 e) (be_bytes s) s b"
    by (rule int_survivesI, rule appendInt_ok(3) [OF assms(1) room(2)], rule prependInt_ok(3) [OF assms(1) pre(2)], rule readInt_ok(3))
  show "int_survives (appendInt8 e) (prependInt8 e) (readInt8 e) (be_bytes c) c b"
    by (rule int_survivesI, rule appendInt_ok(4) [OF assms(1) room(3)], rule prependInt_ok(4) [OF assms(1) pre(3)], rule readInt_ok(4))
qed

lemma sample_bytes:
  "rev (map char_of [4 :: nat, 3, 2, 1]) = [CHR 0x01, CHR 0x02, CHR 0x03, CHR 0x04]"
  by code_simp

theorem int_round_trip_witness:
  "buf_inv sample_buffer \<and> 8 \<le> readerIndex sample_buffer \<and> has_room 8 sample_buffer
   \<and> int_survives (appendInt32 Little) (prependInt32 Little) (readInt32 Little)
      [CHR 0x01, CHR 0x02, CHR 0x03, CHR 0x04] 0x01020304 sample_buffer"
proof -
  have r: "8 \<le> readerIndex sample_buffer" and room: "has_room 8 sample_buffer"
    by (simp_all add: sample_buffer_def has_room_def kCRLF_def)
  have be: "be_bytes (0x01020304 :: 32 word) = [CHR 0x01, CHR 0x02, CHR 0x03, CHR 0x04]"
    using sample_bytes by (simp add: be_bytes_def)
  from int_round_trip [OF sample_buffer_inv r room, of Little 0 "0x01020304" 0 0] show ?thesis
    using sample_buffer_inv r room unfolding be by blast
qed

text \<open>
  \<^verbatim>\<open>readFd\<close> appends exactly the bytes the kernel delivered, whether they fit in the buffer or
  spill over into the 64 KiB stack buffer, leaves the buffer alone and reports the error number
  when \<^verbatim>\<open>readv\<close> fails, and reads at most 128 KiB - 1 bytes when the stack buffer is used.
\<close>

theorem readFd_appends_delivered:
  assumes "buf_inv b" and "readv_ok rv" and "length (buffer b) + sizeof_extrabuf \<le> vector_max_size"
  shows "case rv (readFd_iov b) of
      Inl err \<Rightarrow> readFd rv b = (Inl err, Inr b)
    | Inr d \<Rightarrow> (\<exists>b'. readFd rv b = (Inr (length d), Inr b') \<and> buf_inv b' \<and> content b' = content b @ d)
        \<and> (length (readFd_iov b) = 2 \<longrightarrow> length d \<le> 128 * 1024 - 1)"
proof (cases "rv (readFd_iov b)")
  case (Inl err)
  then show ?thesis by (simp add: readFd_error)
next
  case (Inr d)
  have "length d \<le> sum_list (readFd_iov b)" using assms(2) Inr by (simp add: readv_ok_def)
  then have "length (readFd_iov b) = 2 \<longrightarrow> length d \<le> 128 * 1024 - 1"
    by (auto simp: readFd_iov_def Let_def sizeof_extrabuf_def split: if_splits)
  with readFd_data [OF assms(1,2) Inr assms(3)] Inr show ?thesis by simp
qed

theorem readFd_appends_delivered_witness:
  "\<exists>b'. readFd (\<lambda>iov. Inr (replicate (min 30 (sum_list iov)) CHR ''k'')) sample_buffer = (Inr 30, Inr b')
     \<and> content b' = content sample_buffer @ replicate 30 CHR ''k''"
proof -
  let ?rv = "\<lambda>iov. Inr (replicate (min 30 (sum_list iov)) CHR ''k'') :: int + char list"
  have rv: "readv_ok ?rv" by (auto simp: readv_ok_def)
  have room: "length (buffer sample_buffer) + sizeof_extrabuf \<le> vector_max_size"
    by (simp add: sample_buffer_def kCRLF_def sizeof_extrabuf_def vector_max_size_def)
  have "writableBytes sample_buffer = 18"
    using sample_buffer_inv by (simp add: sample_buffer_def kCRLF_def)
  then have "sum_list (readFd_iov sample_buffer) = 18 + 65536"
    by (simp add: sum_readFd_iov sizeof_extrabuf_def)
  with readFd_appends_delivered [OF sample_buffer_inv rv room] show ?thesis by auto
qed

text \<open>
  \<^verbatim>\<open>findCRLF\<close> returns a pointer exactly when the readable bytes contain a CR LF pair, the
  pointer is inside the readable region with room for the pair, and it is the first one.
\<close>

theorem findCRLF_first:
  assumes "buf_inv b"
  shows "case findCRLF b of
      None \<Rightarrow> (\<forall>i. take 2 (drop i (content b)) \<noteq> kCRLF)
    | Some p \<Rightarrow> peek b \<le> p \<and> p + 2 \<le> beginWrite b \<and> take 2 (drop (p - peek b) (content b)) = kCRLF
        \<and> (\<forall>i < p - peek b. take 2 (drop i (content b)) \<noteq> kCRLF)"
proof (cases "findCRLF b")
  case None
  then show ?thesis using findCRLF_NoneD [OF assms] by simp
next
  case (Some p)
  from findCRLF_SomeD [OF assms this] Some show ?thesis
    using assms by (auto simp: peek_def beginWrite_def buf_inv_def)
qed

theorem findCRLF_first_witness: "findCRLF sample_buffer = Some 10 \<and> 10 + 2 \<le> beginWrite sample_buffer"
proof -
  have "findCRLF sample_buffer = Some 10"
    by (simp add: findCRLF_def ptr_defs sample_buffer_def kCRLF_def)
  then show ?thesis using findCRLF_first [OF sample_buffer_inv] by simp
qed

end
