(* ===== verification/Muduo_Channel.thy ===== *)
theory Muduo_Channel
  imports Muduo_Prelude
begin

text \<open>
  Channels (\<^verbatim>\<open>net/Channel.h\<close>, \<^verbatim>\<open>net/Channel.cc\<close>): the registration record of one file
  descriptor. A channel is an object in a heap \<open>chans\<close> of channels by address, because the
  poller, the owner and the event loop all hold pointers to it and the pollers write its index and
  its returned events. The loop's \<^verbatim>\<open>updateChannel\<close> and \<^verbatim>\<open>removeChannel\<close> and the user's callbacks
  are arguments of the operations that call them. Log lines are not modelled.
\<close>

unbundle bit_operations_syntax

section \<open>Event masks\<close>

type_synonym addr = nat
type_synonym event_bits = "32 word"

definition POLLIN :: event_bits where "POLLIN = 0x001"
definition POLLPRI :: event_bits where "POLLPRI = 0x002"
definition POLLOUT :: event_bits where "POLLOUT = 0x004"
definition POLLERR :: event_bits where "POLLERR = 0x008"
definition POLLHUP :: event_bits where "POLLHUP = 0x010"
definition POLLNVAL :: event_bits where "POLLNVAL = 0x020"
definition POLLRDHUP :: event_bits where "POLLRDHUP = 0x2000"

lemmas poll_bits = POLLIN_def POLLPRI_def POLLOUT_def POLLERR_def POLLHUP_def POLLNVAL_def POLLRDHUP_def

definition kNoneEvent :: event_bits where "kNoneEvent = 0"

definition kReadEvent :: event_bits where "kReadEvent = POLLIN OR POLLPRI"

definition kWriteEvent :: event_bits where "kWriteEvent = POLLOUT"

section \<open>State and accessors\<close>

text \<open>
  The four callbacks are \<^verbatim>\<open>std::function\<close> members; the record keeps whether each is set, and what
  a set callback does is an argument of \<^verbatim>\<open>handleEvent\<close>. \<open>ch_tie\<close> is the object the weak pointer
  \<^verbatim>\<open>tie_\<close> refers to and \<open>ch_loop\<close> the owner loop.
\<close>

record Channel =
  ch_loop :: addr
  ch_fd :: int
  ch_events :: event_bits
  ch_revents :: event_bits
  ch_index :: int
  ch_logHup :: bool
  ch_tie :: addr
  ch_tied :: bool
  ch_eventHandling :: bool
  ch_addedToLoop :: bool
  ch_readCallback :: bool
  ch_writeCallback :: bool
  ch_closeCallback :: bool
  ch_errorCallback :: bool

type_synonym chans = "addr \<Rightarrow> Channel option"

definition Channel_new :: "addr \<Rightarrow> int \<Rightarrow> Channel" where
  "Channel_new loop fd = \<lparr>ch_loop = loop, ch_fd = fd, ch_events = 0, ch_revents = 0, ch_index = -1,
     ch_logHup = True, ch_tie = 0, ch_tied = False, ch_eventHandling = False, ch_addedToLoop = False,
     ch_readCallback = False, ch_writeCallback = False, ch_closeCallback = False,
     ch_errorCallback = False\<rparr>"

definition isNoneEvent :: "Channel \<Rightarrow> bool" where
  "isNoneEvent c \<longleftrightarrow> ch_events c = kNoneEvent"

definition isWriting :: "Channel \<Rightarrow> bool" where
  "isWriting c \<longleftrightarrow> ch_events c AND kWriteEvent \<noteq> 0"

definition isReading :: "Channel \<Rightarrow> bool" where
  "isReading c \<longleftrightarrow> ch_events c AND kReadEvent \<noteq> 0"

definition Channel_tie :: "addr \<Rightarrow> Channel \<Rightarrow> Channel" where
  "Channel_tie obj c = c\<lparr>ch_tie := obj, ch_tied := True\<rparr>"

definition set_index :: "int \<Rightarrow> Channel \<Rightarrow> Channel" where
  "set_index i c = c\<lparr>ch_index := i\<rparr>"

definition set_revents :: "event_bits \<Rightarrow> Channel \<Rightarrow> Channel" where
  "set_revents r c = c\<lparr>ch_revents := r\<rparr>"

definition setReadCallback :: "Channel \<Rightarrow> Channel" where
  "setReadCallback c = c\<lparr>ch_readCallback := True\<rparr>"

definition setWriteCallback :: "Channel \<Rightarrow> Channel" where
  "setWriteCallback c = c\<lparr>ch_writeCallback := True\<rparr>"

definition setCloseCallback :: "Channel \<Rightarrow> Channel" where
  "setCloseCallback c = c\<lparr>ch_closeCallback := True\<rparr>"

definition setErrorCallback :: "Channel \<Rightarrow> Channel" where
  "setErrorCallback c = c\<lparr>ch_errorCallback := True\<rparr>"

definition doNotLogHup :: "Channel \<Rightarrow> Channel" where
  "doNotLogHup c = c\<lparr>ch_logHup := False\<rparr>"

text \<open>Dereferencing a channel pointer: an address with no object is a dangling pointer.\<close>

definition with_channel :: "addr \<Rightarrow> chans \<Rightarrow> (Channel \<Rightarrow> 'a outcome) \<Rightarrow> 'a outcome" where
  "with_channel a h k = (case h a of None \<Rightarrow> Inl Bad_pointer | Some c \<Rightarrow> k c)"

lemma with_channel_simps [simp, outcome_simps]:
  "h a = Some c \<Longrightarrow> with_channel a h k = k c"
  "h a = None \<Longrightarrow> with_channel a h k = Inl Bad_pointer"
  by (simp_all add: with_channel_def)

lemma with_channel_eq_Inr [outcome_simps]:
  "with_channel a h k = Inr r \<longleftrightarrow> (\<exists>c. h a = Some c \<and> k c = Inr r)"
  by (simp add: with_channel_def split: option.splits)

section \<open>Registration with the loop\<close>

text \<open>
  \<open>'l\<close> is the state of the loop (of which the poller is a part); \<open>upd\<close> and \<open>rem\<close> are the loop's
  \<^verbatim>\<open>updateChannel\<close> and \<^verbatim>\<open>removeChannel\<close>.
\<close>

type_synonym 'l chan_call = "addr \<Rightarrow> 'l \<times> chans \<Rightarrow> ('l \<times> chans) outcome"

definition Channel_update :: "'l chan_call \<Rightarrow> 'l chan_call" where
  "Channel_update upd a s = (case s of (l, h) \<Rightarrow>
     with_channel a h (\<lambda>c. upd a (l, h(a \<mapsto> c\<lparr>ch_addedToLoop := True\<rparr>))))"

definition with_events :: "(event_bits \<Rightarrow> event_bits) \<Rightarrow> 'l chan_call \<Rightarrow> 'l chan_call" where
  "with_events f upd a s = (case s of (l, h) \<Rightarrow>
     with_channel a h (\<lambda>c. Channel_update upd a (l, h(a \<mapsto> c\<lparr>ch_events := f (ch_events c)\<rparr>))))"

definition enableReading :: "'l chan_call \<Rightarrow> 'l chan_call" where
  "enableReading = with_events (\<lambda>e. e OR kReadEvent)"

definition disableReading :: "'l chan_call \<Rightarrow> 'l chan_call" where
  "disableReading = with_events (\<lambda>e. e AND NOT kReadEvent)"

definition enableWriting :: "'l chan_call \<Rightarrow> 'l chan_call" where
  "enableWriting = with_events (\<lambda>e. e OR kWriteEvent)"

definition disableWriting :: "'l chan_call \<Rightarrow> 'l chan_call" where
  "disableWriting = with_events (\<lambda>e. e AND NOT kWriteEvent)"

definition disableAll :: "'l chan_call \<Rightarrow> 'l chan_call" where
  "disableAll = with_events (\<lambda>e. kNoneEvent)"

definition Channel_remove :: "'l chan_call \<Rightarrow> 'l chan_call" where
  "Channel_remove rem a s = (case s of (l, h) \<Rightarrow>
     with_channel a h (\<lambda>c. assert_that (isNoneEvent c) ''isNoneEvent()''
       (rem a (l, h(a \<mapsto> c\<lparr>ch_addedToLoop := False\<rparr>)))))"

text \<open>
  The destructor: \<open>inLoop\<close> is \<^verbatim>\<open>loop_->isInLoopThread()\<close> and \<open>has\<close> is \<^verbatim>\<open>loop_->hasChannel\<close>.
\<close>

definition Channel_delete :: "bool \<Rightarrow> ('l \<Rightarrow> addr \<Rightarrow> bool) \<Rightarrow> 'l chan_call" where
  "Channel_delete inLoop has a s = (case s of (l, h) \<Rightarrow>
     with_channel a h (\<lambda>c.
       assert_that (\<not> ch_eventHandling c) ''!eventHandling_''
        (assert_that (\<not> ch_addedToLoop c) ''!addedToLoop_''
          (assert_that (inLoop \<longrightarrow> \<not> has l a) ''!loop_->hasChannel(this)''
            (Inr (l, h(a := None)))))))"

section \<open>Dispatching events\<close>

datatype callback = CloseCallback | ErrorCallback | ReadCallback int | WriteCallback

fun callback_set :: "callback \<Rightarrow> Channel \<Rightarrow> bool" where
  "callback_set CloseCallback c = ch_closeCallback c"
| "callback_set ErrorCallback c = ch_errorCallback c"
| "callback_set (ReadCallback t) c = ch_readCallback c"
| "callback_set WriteCallback c = ch_writeCallback c"

text \<open>
  When each branch of \<^verbatim>\<open>handleEventWithGuard\<close> is taken, on the returned events.
\<close>

fun callback_due :: "callback \<Rightarrow> event_bits \<Rightarrow> bool" where
  "callback_due CloseCallback r \<longleftrightarrow> r AND POLLHUP \<noteq> 0 \<and> r AND POLLIN = 0"
| "callback_due ErrorCallback r \<longleftrightarrow> r AND (POLLERR OR POLLNVAL) \<noteq> 0"
| "callback_due (ReadCallback t) r \<longleftrightarrow> r AND (POLLIN OR POLLPRI OR POLLRDHUP) \<noteq> 0"
| "callback_due WriteCallback r \<longleftrightarrow> r AND POLLOUT \<noteq> 0"

text \<open>
  One branch: the channel is read again before each, since the callback before it may have changed
  or destroyed it. \<open>run a cb\<close> is what the callback \<open>cb\<close> of the channel at \<open>a\<close> does.
\<close>

definition dispatch ::
  "(addr \<Rightarrow> callback \<Rightarrow> 'l \<times> chans \<Rightarrow> ('l \<times> chans) outcome) \<Rightarrow> addr \<Rightarrow> callback
    \<Rightarrow> 'l \<times> chans \<Rightarrow> ('l \<times> chans) outcome" where
  "dispatch run a cb s = with_channel a (snd s)
     (\<lambda>c. if callback_due cb (ch_revents c) \<and> callback_set cb c then run a cb s else Inr s)"

definition set_eventHandling :: "bool \<Rightarrow> 'l chan_call" where
  "set_eventHandling v a s = (case s of (l, h) \<Rightarrow>
     with_channel a h (\<lambda>c. Inr (l, h(a \<mapsto> c\<lparr>ch_eventHandling := v\<rparr>))))"

definition handleEventWithGuard ::
  "(addr \<Rightarrow> callback \<Rightarrow> 'l \<times> chans \<Rightarrow> ('l \<times> chans) outcome) \<Rightarrow> int \<Rightarrow> 'l chan_call" where
  "handleEventWithGuard run receiveTime a s =
     andThen (set_eventHandling True a s)
       (\<lambda>s. andThen (for_each (dispatch run a)
              [CloseCallback, ErrorCallback, ReadCallback receiveTime, WriteCallback] s)
         (set_eventHandling False a))"

text \<open>\<open>lock\<close> tells whether the object the channel is tied to is still alive.\<close>

definition handleEvent ::
  "(addr \<Rightarrow> bool) \<Rightarrow> (addr \<Rightarrow> callback \<Rightarrow> 'l \<times> chans \<Rightarrow> ('l \<times> chans) outcome) \<Rightarrow> int \<Rightarrow> 'l chan_call" where
  "handleEvent lock run receiveTime a s =
     with_channel a (snd s) (\<lambda>c.
       if ch_tied c
       then (if lock (ch_tie c) then handleEventWithGuard run receiveTime a s else Inr s)
       else handleEventWithGuard run receiveTime a s)"

section \<open>Event names\<close>

definition eventsToString :: "(int \<Rightarrow> string) \<Rightarrow> int \<Rightarrow> event_bits \<Rightarrow> string" where
  "eventsToString show_int fd ev = show_int fd @ '': ''
     @ (if ev AND POLLIN \<noteq> 0 then ''IN '' else [])
     @ (if ev AND POLLPRI \<noteq> 0 then ''PRI '' else [])
     @ (if ev AND POLLOUT \<noteq> 0 then ''OUT '' else [])
     @ (if ev AND POLLHUP \<noteq> 0 then ''HUP '' else [])
     @ (if ev AND POLLRDHUP \<noteq> 0 then ''RDHUP '' else [])
     @ (if ev AND POLLERR \<noteq> 0 then ''ERR '' else [])
     @ (if ev AND POLLNVAL \<noteq> 0 then ''NVAL '' else [])"

definition reventsToString :: "(int \<Rightarrow> string) \<Rightarrow> Channel \<Rightarrow> string" where
  "reventsToString show_int c = eventsToString show_int (ch_fd c) (ch_revents c)"

section \<open>The masks a channel can have\<close>

text \<open>
  Events change only through the five \<^verbatim>\<open>enable\<close> and \<^verbatim>\<open>disable\<close> members, so they are always one
  of four masks.
\<close>

definition event_mask :: "event_bits \<Rightarrow> bool" where
  "event_mask e \<longleftrightarrow> e \<in> {0, kReadEvent, kWriteEvent, kReadEvent OR kWriteEvent}"

lemmas event_masks = kNoneEvent_def kReadEvent_def kWriteEvent_def POLLIN_def POLLPRI_def POLLOUT_def

lemma event_mask_iff: "event_mask e \<longleftrightarrow> e = 0 \<or> e = 3 \<or> e = 4 \<or> e = 7"
  by (simp add: event_mask_def event_masks)

lemma event_mask_closed:
  assumes "event_mask e"
  shows "event_mask (e OR kReadEvent)" "event_mask (e AND NOT kReadEvent)"
    "event_mask (e OR kWriteEvent)" "event_mask (e AND NOT kWriteEvent)" "event_mask kNoneEvent"
  using assms unfolding event_mask_iff by (auto simp: event_masks)

lemma enable_not_none:
  assumes "event_mask e"
  shows "e OR kReadEvent \<noteq> 0" "e OR kWriteEvent \<noteq> 0"
  using assms unfolding event_mask_iff by (auto simp: event_masks)

lemma isReading_mask: "isReading c \<Longrightarrow> ch_events c \<noteq> 0"
  and isWriting_mask: "isWriting c \<Longrightarrow> ch_events c \<noteq> 0"
  by (auto simp: isReading_def isWriting_def)

text \<open>The poller of \<^verbatim>\<open>poll(2)\<close> keeps the mask in 16 bits, which loses nothing.\<close>

lemma event_mask_short:
  assumes "event_mask e"
  shows "(ucast e :: 16 word) = 0 \<longleftrightarrow> e = 0" "ucast (ucast e :: 16 word) = e"
  using assms unfolding event_mask_iff by auto

section \<open>Dispatch on every channel\<close>

definition due_callbacks :: "int \<Rightarrow> Channel \<Rightarrow> callback list" where
  "due_callbacks t c = filter (\<lambda>cb. callback_due cb (ch_revents c) \<and> callback_set cb c)
     [CloseCallback, ErrorCallback, ReadCallback t, WriteCallback]"

text \<open>
  What the loop guarantees of callbacks while it dispatches a channel: they return, and they neither
  destroy the channel nor change its returned events or its callbacks.
\<close>

definition same_dispatch :: "Channel \<Rightarrow> Channel \<Rightarrow> bool" where
  "same_dispatch c c' \<longleftrightarrow> ch_revents c' = ch_revents c \<and> ch_readCallback c' = ch_readCallback c
     \<and> ch_writeCallback c' = ch_writeCallback c \<and> ch_closeCallback c' = ch_closeCallback c
     \<and> ch_errorCallback c' = ch_errorCallback c"

definition callbacks_keep_channel ::
  "(addr \<Rightarrow> callback \<Rightarrow> 'l \<times> chans \<Rightarrow> ('l \<times> chans) outcome) \<Rightarrow> addr \<Rightarrow> bool" where
  "callbacks_keep_channel run a \<longleftrightarrow> (\<forall>cb s c. snd s a = Some c \<longrightarrow>
     (\<exists>s' c'. run a cb s = Inr s' \<and> snd s' a = Some c' \<and> same_dispatch c c'))"

lemma callbacks_keep_channelE:
  assumes "callbacks_keep_channel run a" and "snd s a = Some c"
  obtains s' c' where "run a cb s = Inr s'" "snd s' a = Some c'" "same_dispatch c c'"
  using assms unfolding callbacks_keep_channel_def by blast

lemma same_dispatch_trans: "same_dispatch c d \<Longrightarrow> same_dispatch d e \<Longrightarrow> same_dispatch c e"
  by (simp add: same_dispatch_def)

lemma callback_set_same: "same_dispatch c d \<Longrightarrow> callback_set cb d = callback_set cb c"
  by (cases cb) (simp_all add: same_dispatch_def)

lemma for_each_dispatch:
  assumes "callbacks_keep_channel run a" and "snd s a = Some d" and "same_dispatch c d"
  shows "\<exists>s' d'. for_each (dispatch run a) cbs s = Inr s'
      \<and> for_each (run a) (filter (\<lambda>cb. callback_due cb (ch_revents c) \<and> callback_set cb c) cbs) s = Inr s'
      \<and> snd s' a = Some d' \<and> same_dispatch c d'"
  using assms(2,3)
proof (induction cbs arbitrary: s d)
  case Nil
  then show ?case by simp
next
  case (Cons cb cbs)
  show ?case
  proof (cases "callback_due cb (ch_revents c) \<and> callback_set cb c")
    case True
    from callbacks_keep_channelE [OF assms(1) Cons.prems(1)] obtain t e
      where t: "run a cb s = Inr t" "snd t a = Some e" "same_dispatch d e" by blast
    have "dispatch run a cb s = Inr t"
      using True Cons.prems t(1) callback_set_same [OF Cons.prems(2)]
      by (simp add: dispatch_def same_dispatch_def)
    with Cons.IH [OF t(2) same_dispatch_trans [OF Cons.prems(2) t(3)]] t(1) True show ?thesis by simp
  next
    case False
    then have "dispatch run a cb s = Inr s"
      using Cons.prems callback_set_same [OF Cons.prems(2)] by (auto simp: dispatch_def same_dispatch_def)
    with Cons.IH [OF Cons.prems] False show ?thesis by auto
  qed
qed

lemma handleEventWithGuard_runs:
  assumes "callbacks_keep_channel run a" and "h a = Some c"
  shows "\<exists>l' h' c'. for_each (run a) (due_callbacks t c) (l, h(a \<mapsto> c\<lparr>ch_eventHandling := True\<rparr>)) = Inr (l', h')
      \<and> h' a = Some c'
      \<and> handleEventWithGuard run t a (l, h) = Inr (l', h'(a \<mapsto> c'\<lparr>ch_eventHandling := False\<rparr>))"
proof -
  let ?c = "c\<lparr>ch_eventHandling := True\<rparr>" and ?s = "(l, h(a \<mapsto> c\<lparr>ch_eventHandling := True\<rparr>))"
  have "snd ?s a = Some ?c" "same_dispatch c ?c" by (simp_all add: same_dispatch_def)
  from for_each_dispatch [OF assms(1) this] obtain s' d' where
    "for_each (dispatch run a) [CloseCallback, ErrorCallback, ReadCallback t, WriteCallback] ?s = Inr s'"
    "for_each (run a) (due_callbacks t c) ?s = Inr s'" "snd s' a = Some d'"
    unfolding due_callbacks_def by blast
  moreover obtain l' h' where "s' = (l', h')" by (cases s')
  ultimately show ?thesis
    using assms(2) by (simp add: handleEventWithGuard_def set_eventHandling_def)
qed

section \<open>Properties\<close>


text \<open>A channel whose returned events are hang-up, error and writable, with callbacks that log.\<close>

definition sample_channel :: Channel where
  "sample_channel = (setCloseCallback (setErrorCallback (setReadCallback (setWriteCallback (Channel_new 1 5)))))
     \<lparr>ch_revents := POLLHUP OR POLLERR OR POLLOUT\<rparr>"

definition log_callback :: "addr \<Rightarrow> callback \<Rightarrow> callback list \<times> chans \<Rightarrow> (callback list \<times> chans) outcome" where
  "log_callback a cb s = (case s of (l, h) \<Rightarrow> Inr (l @ [cb], h))"

lemma log_callback_keeps: "callbacks_keep_channel log_callback a"
  by (auto simp: callbacks_keep_channel_def log_callback_def same_dispatch_def)

lemmas set_callback_defs = setReadCallback_def setWriteCallback_def setCloseCallback_def setErrorCallback_def


end
