(* ===== verification/Muduo_Poller.thy ===== *)
theory Muduo_Poller
  imports Muduo_Channel
begin

text \<open>
  Pollers (\<^verbatim>\<open>net/Poller.h\<close>, \<^verbatim>\<open>net/Poller.cc\<close>, \<^verbatim>\<open>net/poller/PollPoller.cc\<close>): the interface
  between the channels of a loop and the kernel's readiness notification, and its implementation
  over \<^verbatim>\<open>poll(2)\<close>. The contract of the virtual class is the locale \<open>poller\<close>; what a disciplined
  client gets from any poller is proved there, against a small specification of the life of a
  channel. \<^verbatim>\<open>PollPoller\<close> keeps one \<^verbatim>\<open>pollfd\<close> per registered channel in a vector, parks a channel
  with no events by storing \<open>- fd - 1\<close>, and removes by swapping with the last entry.
\<close>

section \<open>The base class\<close>

text \<open>\<^verbatim>\<open>EventLoop::assertInLoopThread\<close>, with whether the caller runs in the loop's thread.\<close>

definition assertInLoopThread :: "bool \<Rightarrow> 'a outcome \<Rightarrow> 'a outcome" where
  "assertInLoopThread inLoop k =
     (if inLoop then k else Inl (Log_fatal ''EventLoop::abortNotInLoopThread''))"

lemma assertInLoopThread_simps [simp, outcome_simps]:
  "assertInLoopThread True k = k"
  "assertInLoopThread False k = Inl (Log_fatal ''EventLoop::abortNotInLoopThread'')"
  by (simp_all add: assertInLoopThread_def)

definition Poller_hasChannel :: "bool \<Rightarrow> (int \<Rightarrow> addr option) \<Rightarrow> addr \<Rightarrow> chans \<Rightarrow> bool outcome" where
  "Poller_hasChannel inLoop channels a h = assertInLoopThread inLoop
     (with_channel a h (\<lambda>c. Inr (channels (ch_fd c) = Some a)))"

section \<open>PollPoller\<close>

record pollfd =
  pfd_fd :: int
  pfd_events :: "16 word"
  pfd_revents :: "16 word"

record PollPoller =
  pollfds :: "pollfd list"
  pp_channels :: "int \<Rightarrow> addr option"

definition PollPoller_new :: PollPoller where
  "PollPoller_new = \<lparr>pollfds = [], pp_channels = Map.empty\<rparr>"

fun PollPoller_fillActiveChannels ::
  "int \<Rightarrow> pollfd list \<Rightarrow> (int \<Rightarrow> addr option) \<Rightarrow> addr list \<times> chans \<Rightarrow> (addr list \<times> chans) outcome" where
  "PollPoller_fillActiveChannels numEvents [] channels s = Inr s"
| "PollPoller_fillActiveChannels numEvents (pfd # pfds) channels (activeChannels, h) =
     (if numEvents > 0 then
        (if 0 < sint (pfd_revents pfd) then
           (case channels (pfd_fd pfd) of
              None \<Rightarrow> Inl (Assert_failed ''ch != channels_.end()'')
            | Some a \<Rightarrow> with_channel a h (\<lambda>c.
                assert_that (ch_fd c = pfd_fd pfd) ''channel->fd() == pfd->fd''
                  (PollPoller_fillActiveChannels (numEvents - 1) pfds channels
                    (activeChannels @ [a], h(a \<mapsto> set_revents (scast (pfd_revents pfd)) c)))))
         else PollPoller_fillActiveChannels numEvents pfds channels (activeChannels, h))
      else Inr (activeChannels, h))"

text \<open>
  The system call: given the array and the timeout it returns the number of entries with events, or
  a negative number, and the array with \<^verbatim>\<open>revents\<close> filled in.
\<close>

type_synonym poll_call = "pollfd list \<Rightarrow> int \<Rightarrow> int \<times> pollfd list"

definition PollPoller_poll ::
  "poll_call \<Rightarrow> int \<Rightarrow> int \<Rightarrow> addr list \<Rightarrow> PollPoller \<times> chans
     \<Rightarrow> (int \<times> addr list \<times> PollPoller \<times> chans) outcome" where
  "PollPoller_poll poll_call now timeoutMs activeChannels s = (case s of (p, h) \<Rightarrow>
     (case poll_call (pollfds p) timeoutMs of (numEvents, fds) \<Rightarrow>
       let p' = p\<lparr>pollfds := fds\<rparr>
       in if numEvents > 0
          then andThen (PollPoller_fillActiveChannels numEvents fds (pp_channels p) (activeChannels, h))
                 (\<lambda>(act, h'). Inr (now, act, p', h'))
          else Inr (now, activeChannels, p', h)))"

definition PollPoller_updateChannel :: "bool \<Rightarrow> PollPoller chan_call" where
  "PollPoller_updateChannel inLoop a s = (case s of (p, h) \<Rightarrow>
     assertInLoopThread inLoop (with_channel a h (\<lambda>c.
       if ch_index c < 0 then
         assert_that (pp_channels p (ch_fd c) = None) ''channels_.find(channel->fd()) == channels_.end()''
          (let pfd = \<lparr>pfd_fd = ch_fd c, pfd_events = ucast (ch_events c), pfd_revents = 0\<rparr>;
               fds = pollfds p @ [pfd];
               idx = int (length fds) - 1
           in Inr (p\<lparr>pollfds := fds, pp_channels := (pp_channels p)(pfd_fd pfd \<mapsto> a)\<rparr>,
                   h(a \<mapsto> set_index idx c)))
       else
         assert_that (pp_channels p (ch_fd c) \<noteq> None) ''channels_.find(channel->fd()) != channels_.end()''
          (assert_that (pp_channels p (ch_fd c) = Some a) ''channels_[channel->fd()] == channel''
            (let idx = ch_index c in
             assert_that (0 \<le> idx \<and> idx < int (length (pollfds p))) ''0 <= idx && idx < pollfds_.size()''
              (let pfd = pollfds p ! nat idx in
               assert_that (pfd_fd pfd = ch_fd c \<or> pfd_fd pfd = - ch_fd c - 1)
                 ''pfd.fd == channel->fd() || pfd.fd == -channel->fd()-1''
                (let pfd' = \<lparr>pfd_fd = (if isNoneEvent c then - ch_fd c - 1 else ch_fd c),
                       pfd_events = ucast (ch_events c), pfd_revents = 0\<rparr>
                 in Inr (p\<lparr>pollfds := (pollfds p)[nat idx := pfd']\<rparr>, h))))))))"

definition PollPoller_removeChannel :: "bool \<Rightarrow> PollPoller chan_call" where
  "PollPoller_removeChannel inLoop a s = (case s of (p, h) \<Rightarrow>
     assertInLoopThread inLoop (with_channel a h (\<lambda>c.
       assert_that (pp_channels p (ch_fd c) \<noteq> None) ''channels_.find(channel->fd()) != channels_.end()''
        (assert_that (pp_channels p (ch_fd c) = Some a) ''channels_[channel->fd()] == channel''
          (assert_that (isNoneEvent c) ''channel->isNoneEvent()''
            (let idx = ch_index c in
             assert_that (0 \<le> idx \<and> idx < int (length (pollfds p))) ''0 <= idx && idx < pollfds_.size()''
              (let pfd = pollfds p ! nat idx in
               assert_that (pfd_fd pfd = - ch_fd c - 1 \<and> pfd_events pfd = ucast (ch_events c))
                 ''pfd.fd == -channel->fd()-1 && pfd.events == channel->events()''
                (let channels = (pp_channels p)(ch_fd c := None) in
                 if nat idx = length (pollfds p) - 1
                 then Inr (p\<lparr>pollfds := butlast (pollfds p), pp_channels := channels\<rparr>, h)
                 else
                   (let channelAtEnd = pfd_fd (last (pollfds p));
                        swapped = (pollfds p)[nat idx := last (pollfds p), length (pollfds p) - 1 := pfd];
                        channelAtEnd = (if channelAtEnd < 0 then - channelAtEnd - 1 else channelAtEnd)
                    in case channels channelAtEnd of
                         None \<Rightarrow> Inl Bad_pointer
                       | Some b \<Rightarrow> with_channel b h (\<lambda>d.
                           Inr (p\<lparr>pollfds := butlast swapped, pp_channels := channels\<rparr>,
                                h(b \<mapsto> set_index idx d))))))))))))"

section \<open>The contract of a poller\<close>

text \<open>
  An operation on one channel may change the positions (\<^verbatim>\<open>index_\<close>) of the channels in \<open>A\<close> and
  nothing else of any channel.
\<close>

definition reindexed :: "addr set \<Rightarrow> chans \<Rightarrow> chans \<Rightarrow> bool" where
  "reindexed A h h' \<longleftrightarrow> (\<forall>b. b \<notin> A \<longrightarrow> h' b = h b)
     \<and> (\<forall>b c. h b = Some c \<longrightarrow> (\<exists>i. h' b = Some (c\<lparr>ch_index := i\<rparr>)))"

lemma reindexed_other: "reindexed A h h' \<Longrightarrow> b \<notin> A \<Longrightarrow> h' b = h b"
  by (simp add: reindexed_def)

lemma reindexed_Some: "reindexed A h h' \<Longrightarrow> h b = Some c \<Longrightarrow> \<exists>i. h' b = Some (c\<lparr>ch_index := i\<rparr>)"
  by (simp add: reindexed_def)

lemma reindexed_refl: "reindexed A h h"
proof -
  have "\<exists>i. c = c\<lparr>ch_index := i\<rparr>" for c :: Channel by (rule exI [of _ "ch_index c"]) simp
  then show ?thesis by (auto simp: reindexed_def)
qed

lemma reindexed_update: "b \<in> A \<Longrightarrow> h b = Some d \<Longrightarrow> reindexed A h (h(b \<mapsto> set_index i d))"
  using reindexed_refl [of A h] by (auto simp: reindexed_def set_index_def)

subsection \<open>The life of a channel\<close>

text \<open>
  What the pollers promise a disciplined client, as a machine over the life of each channel: a fresh
  channel becomes live at the first \<^verbatim>\<open>enable\<close> or \<^verbatim>\<open>disable\<close>, its mask then follows the calls, and
  it can be removed, once, when a live channel was disabled. Two live channels never share a
  descriptor. \<open>fdm\<close> gives the descriptor of each channel.
\<close>

datatype chan_phase = Fresh | Live event_bits bool | Gone

datatype chan_op = Enable_reading | Disable_reading | Enable_writing | Disable_writing | Disable_all | Remove

fun events_op :: "chan_op \<Rightarrow> event_bits \<Rightarrow> event_bits" where
  "events_op Enable_reading e = e OR kReadEvent"
| "events_op Disable_reading e = e AND NOT kReadEvent"
| "events_op Enable_writing e = e OR kWriteEvent"
| "events_op Disable_writing e = e AND NOT kWriteEvent"
| "events_op Disable_all e = kNoneEvent"
| "events_op Remove e = e"

definition live_on :: "(addr \<Rightarrow> int) \<Rightarrow> (addr \<Rightarrow> chan_phase option) \<Rightarrow> int \<Rightarrow> bool" where
  "live_on fdm \<sigma> fd \<longleftrightarrow> (\<exists>b e r. \<sigma> b = Some (Live e r) \<and> fdm b = fd)"

definition spec_op :: "(addr \<Rightarrow> int) \<Rightarrow> chan_op \<times> addr \<Rightarrow> (addr \<Rightarrow> chan_phase option)
    \<Rightarrow> (addr \<Rightarrow> chan_phase option) option" where
  "spec_op fdm oa \<sigma> = (case oa of (op, a) \<Rightarrow>
     (case \<sigma> a of
        Some Fresh \<Rightarrow> if op \<noteq> Remove \<and> \<not> live_on fdm \<sigma> (fdm a)
          then Some (\<sigma>(a \<mapsto> Live (events_op op 0) False)) else None
      | Some (Live e r) \<Rightarrow>
          if op = Remove then (if e = 0 \<and> r then Some (\<sigma>(a \<mapsto> Gone)) else None)
          else Some (\<sigma>(a \<mapsto> Live (events_op op e) (events_op op e = 0)))
      | _ \<Rightarrow> None))"

fun spec_run :: "(addr \<Rightarrow> int) \<Rightarrow> (chan_op \<times> addr) list \<Rightarrow> (addr \<Rightarrow> chan_phase option)
    \<Rightarrow> (addr \<Rightarrow> chan_phase option) option" where
  "spec_run fdm [] \<sigma> = Some \<sigma>"
| "spec_run fdm (x # xs) \<sigma> = (case spec_op fdm x \<sigma> of None \<Rightarrow> None | Some \<sigma>' \<Rightarrow> spec_run fdm xs \<sigma>')"

text \<open>The calls themselves, on a poller with the operations \<open>upd\<close> and \<open>rem\<close>.\<close>

definition chan_op_call :: "'p chan_call \<Rightarrow> 'p chan_call \<Rightarrow> chan_op \<times> addr \<Rightarrow> 'p \<times> chans \<Rightarrow> ('p \<times> chans) outcome" where
  "chan_op_call upd rem oa s = (case oa of (op, a) \<Rightarrow>
     (case op of
        Enable_reading \<Rightarrow> enableReading upd a s
      | Disable_reading \<Rightarrow> disableReading upd a s
      | Enable_writing \<Rightarrow> enableWriting upd a s
      | Disable_writing \<Rightarrow> disableWriting upd a s
      | Disable_all \<Rightarrow> disableAll upd a s
      | Remove \<Rightarrow> Channel_remove rem a s))"

lemmas chan_calls = enableReading_def disableReading_def enableWriting_def disableWriting_def disableAll_def

lemma chan_op_call_events:
  assumes "op \<noteq> Remove" and "h a = Some c"
  shows "chan_op_call upd rem (op, a) (p, h) =
    upd a (p, h(a \<mapsto> c\<lparr>ch_events := events_op op (ch_events c), ch_addedToLoop := True\<rparr>))"
  using assms
  by (cases op) (simp_all add: chan_op_call_def chan_calls with_events_def Channel_update_def)

lemma chan_op_call_Remove:
  assumes "h a = Some c" and "ch_events c = 0"
  shows "chan_op_call upd rem (Remove, a) (p, h) = rem a (p, h(a \<mapsto> c\<lparr>ch_addedToLoop := False\<rparr>))"
  using assms by (simp add: chan_op_call_def Channel_remove_def isNoneEvent_def kNoneEvent_def)

lemma event_mask_events_op: "event_mask e \<Longrightarrow> event_mask (events_op op e)"
  by (cases op) (simp_all add: event_mask_closed)

lemma event_mask_0 [simp]: "event_mask 0"
  by (simp add: event_mask_def)

text \<open>Channels just constructed, on valid descriptors.\<close>

definition fresh_channels :: "chans \<Rightarrow> bool" where
  "fresh_channels h \<longleftrightarrow> (\<forall>a c. h a = Some c \<longrightarrow> 0 \<le> ch_fd c \<and> ch_index c = -1 \<and> ch_events c = 0)"

definition fd_of :: "chans \<Rightarrow> addr \<Rightarrow> int" where
  "fd_of h a = (case h a of None \<Rightarrow> -1 | Some c \<Rightarrow> ch_fd c)"

definition all_fresh :: "chans \<Rightarrow> addr \<Rightarrow> chan_phase option" where
  "all_fresh h a = map_option (\<lambda>_. Fresh) (h a)"

subsection \<open>The interface\<close>

text \<open>
  What a poller reads of a channel. The other fields of a channel belong to its owner and to the loop,
  which change them without telling the poller.
\<close>

definition registration :: "Channel \<Rightarrow> int \<times> event_bits \<times> int" where
  "registration c = (ch_fd c, ch_events c, ch_index c)"

lemma same_registration:
  "map_option registration (h' a) = map_option registration (h a) \<Longrightarrow> h a = Some c
     \<Longrightarrow> \<exists>c'. h' a = Some c' \<and> ch_fd c' = ch_fd c \<and> ch_events c' = ch_events c \<and> ch_index c' = ch_index c"
  by (auto simp: registration_def)

text \<open>
  The client of a poller is the \<^verbatim>\<open>Channel\<close> class: it changes the events of a channel and calls
  \<open>upd\<close>, or calls \<open>rem\<close> on a channel with no events. \<open>monitored\<close> is what the kernel is asked to
  watch, by descriptor; \<open>removable\<close> holds of a channel that was registered and then disabled.
\<close>

locale poller =
  fixes inv :: "'p \<Rightarrow> chans \<Rightarrow> bool"
    and channels :: "'p \<Rightarrow> int \<Rightarrow> addr option"
    and monitored :: "'p \<Rightarrow> int \<Rightarrow> (addr \<times> event_bits) option"
    and removable :: "'p \<Rightarrow> chans \<Rightarrow> addr \<Rightarrow> bool"
    and upd rem :: "'p chan_call"
  assumes inv_channels: "inv p h \<Longrightarrow> channels p fd = Some a \<Longrightarrow> \<exists>c. h a = Some c \<and> ch_fd c = fd"
    and inv_monitored: "inv p h \<Longrightarrow> monitored p fd = (case channels p fd of None \<Rightarrow> None
          | Some a \<Rightarrow> (case h a of None \<Rightarrow> None
              | Some c \<Rightarrow> if ch_events c = 0 then None else Some (a, ch_events c)))"
    and inv_cong: "inv p h
          \<Longrightarrow> (\<And>fd a. channels p fd = Some a \<Longrightarrow> map_option registration (h' a) = map_option registration (h a)) \<Longrightarrow> inv p h'"
    and removable_cong: "removable p h a \<Longrightarrow> map_option registration (h' a) = map_option registration (h a)
          \<Longrightarrow> removable p h' a"
    and update_new: "inv p h \<Longrightarrow> h a = Some c \<Longrightarrow> ch_index c = -1 \<Longrightarrow> channels p (ch_fd c) = None
          \<Longrightarrow> 0 \<le> ch_fd c \<Longrightarrow> event_mask ev \<Longrightarrow> h1 = h(a \<mapsto> c\<lparr>ch_events := ev, ch_addedToLoop := x\<rparr>)
          \<Longrightarrow> \<exists>p' h'. upd a (p, h1) = Inr (p', h') \<and> inv p' h'
             \<and> channels p' = (channels p)(ch_fd c \<mapsto> a) \<and> reindexed {a} h1 h'
             \<and> (\<forall>b. b \<noteq> a \<longrightarrow> removable p h b \<longrightarrow> removable p' h' b)"
    and update_existing: "inv p h \<Longrightarrow> h a = Some c \<Longrightarrow> channels p (ch_fd c) = Some a
          \<Longrightarrow> event_mask ev \<Longrightarrow> h1 = h(a \<mapsto> c\<lparr>ch_events := ev, ch_addedToLoop := x\<rparr>)
          \<Longrightarrow> \<exists>p' h'. upd a (p, h1) = Inr (p', h') \<and> inv p' h'
             \<and> channels p' = channels p \<and> reindexed {a} h1 h'
             \<and> (\<forall>b. b \<noteq> a \<longrightarrow> removable p h b \<longrightarrow> removable p' h' b)
             \<and> (ev = 0 \<longrightarrow> removable p' h' a)"
    and remove_removable: "inv p h \<Longrightarrow> h a = Some c \<Longrightarrow> channels p (ch_fd c) = Some a
          \<Longrightarrow> ch_events c = 0 \<Longrightarrow> removable p h a \<Longrightarrow> h1 = h(a \<mapsto> c\<lparr>ch_addedToLoop := x\<rparr>)
          \<Longrightarrow> \<exists>p' h'. rem a (p, h1) = Inr (p', h') \<and> inv p' h'
             \<and> channels p' = (channels p)(ch_fd c := None)
             \<and> reindexed (insert a (ran (channels p'))) h1 h'
             \<and> (\<forall>b. b \<noteq> a \<longrightarrow> removable p h b \<longrightarrow> removable p' h' b)"
begin

text \<open>How the state of the specification describes a poller and the heap of channels.\<close>

definition phase_rel :: "(addr \<Rightarrow> int) \<Rightarrow> 'p \<Rightarrow> chans \<Rightarrow> addr \<Rightarrow> chan_phase \<Rightarrow> bool" where
  "phase_rel fdm p h a ph \<longleftrightarrow> (case ph of
       Fresh \<Rightarrow> 0 \<le> fdm a \<and> (\<exists>c. h a = Some c \<and> ch_fd c = fdm a \<and> ch_index c = -1 \<and> ch_events c = 0)
     | Live e r \<Rightarrow> event_mask e \<and> channels p (fdm a) = Some a
         \<and> (\<exists>c. h a = Some c \<and> ch_fd c = fdm a \<and> ch_events c = e) \<and> (r \<longrightarrow> removable p h a)
     | Gone \<Rightarrow> True)"

definition rel :: "(addr \<Rightarrow> int) \<Rightarrow> (addr \<Rightarrow> chan_phase option) \<Rightarrow> 'p \<Rightarrow> chans \<Rightarrow> bool" where
  "rel fdm \<sigma> p h \<longleftrightarrow> inv p h \<and> (\<forall>a ph. \<sigma> a = Some ph \<longrightarrow> phase_rel fdm p h a ph)
     \<and> (\<forall>fd a. channels p fd = Some a \<longrightarrow> fdm a = fd \<and> (\<exists>e r. \<sigma> a = Some (Live e r)))"

lemma relI:
  assumes "inv p h" and "\<And>a ph. \<sigma> a = Some ph \<Longrightarrow> phase_rel fdm p h a ph"
    and "\<And>fd a. channels p fd = Some a \<Longrightarrow> fdm a = fd \<and> (\<exists>e r. \<sigma> a = Some (Live e r))"
  shows "rel fdm \<sigma> p h"
  using assms by (simp add: rel_def)

lemma rel_phase: "rel fdm \<sigma> p h \<Longrightarrow> \<sigma> a = Some ph \<Longrightarrow> phase_rel fdm p h a ph"
  by (simp add: rel_def)

lemma rel_channels: "rel fdm \<sigma> p h \<Longrightarrow> channels p fd = Some a \<Longrightarrow> fdm a = fd \<and> (\<exists>e r. \<sigma> a = Some (Live e r))"
  by (simp add: rel_def)

text \<open>The other channels do not notice an operation on \<open>a\<close>.\<close>

lemma phase_rel_frame:
  assumes "phase_rel fdm p h b ph" and "b \<noteq> a"
    and "reindexed A (h(a \<mapsto> c)) h'" and "b \<in> A \<longrightarrow> ph \<noteq> Fresh"
    and "channels p (fdm b) = Some b \<longrightarrow> channels p' (fdm b) = Some b"
    and "removable p h b \<longrightarrow> removable p' h' b"
  shows "phase_rel fdm p' h' b ph"
proof (cases ph)
  case Fresh
  then have "b \<notin> A" using assms(4) by blast
  then have "h' b = h b" using reindexed_other [OF assms(3)] assms(2) by simp
  with Fresh assms(1) show ?thesis by (simp add: phase_rel_def)
next
  case (Live e r)
  with assms(1) obtain d where d: "h b = Some d" "ch_fd d = fdm b" "ch_events d = e" by (auto simp: phase_rel_def)
  obtain i where "h' b = Some (d\<lparr>ch_index := i\<rparr>)" using reindexed_Some [OF assms(3), of b d] d assms(2) by auto
  with Live assms(1,5,6) d show ?thesis by (auto simp: phase_rel_def)
qed (simp add: phase_rel_def)

lemma rel_monitored:
  assumes "rel fdm \<sigma> p h"
  shows "monitored p fd = Some (a, e) \<longleftrightarrow> fdm a = fd \<and> (\<exists>r. \<sigma> a = Some (Live e r)) \<and> e \<noteq> 0"
proof
  have inv: "inv p h" using assms by (simp add: rel_def)
  assume "monitored p fd = Some (a, e)"
  then obtain c where c: "channels p fd = Some a" "h a = Some c" "ch_events c = e" "e \<noteq> 0"
    using inv_monitored [OF inv, of fd] by (auto split: option.splits if_splits)
  from rel_channels [OF assms c(1)] obtain e' r where l: "fdm a = fd" "\<sigma> a = Some (Live e' r)" by blast
  from rel_phase [OF assms l(2)] c have "e' = e" by (auto simp: phase_rel_def)
  with c l show "fdm a = fd \<and> (\<exists>r. \<sigma> a = Some (Live e r)) \<and> e \<noteq> 0" by blast
next
  have inv: "inv p h" using assms by (simp add: rel_def)
  assume "fdm a = fd \<and> (\<exists>r. \<sigma> a = Some (Live e r)) \<and> e \<noteq> 0"
  then obtain r where l: "fdm a = fd" "\<sigma> a = Some (Live e r)" "e \<noteq> 0" by blast
  from rel_phase [OF assms l(2)] l inv_monitored [OF inv, of fd] show "monitored p fd = Some (a, e)"
    by (auto simp: phase_rel_def)
qed

lemma step_fresh:
  assumes R: "rel fdm \<sigma> p h" and a: "\<sigma> a = Some Fresh" and "op \<noteq> Remove" and free: "\<not> live_on fdm \<sigma> (fdm a)"
  shows "\<exists>p' h'. chan_op_call upd rem (op, a) (p, h) = Inr (p', h')
    \<and> rel fdm (\<sigma>(a \<mapsto> Live (events_op op 0) False)) p' h'"
proof -
  from rel_phase [OF R a] obtain c where c: "0 \<le> fdm a" "h a = Some c" "ch_fd c = fdm a" "ch_index c = -1" "ch_events c = 0"
    by (auto simp: phase_rel_def)
  have inv: "inv p h" using R by (simp add: rel_def)
  have none: "channels p (fdm a) = None"
    using rel_channels [OF R, of "fdm a"] free by (cases "channels p (fdm a)") (auto simp: live_on_def)
  let ?ev = "events_op op 0"
  let ?c = "c\<lparr>ch_events := ?ev, ch_addedToLoop := True\<rparr>"
  have ev: "event_mask ?ev" by (simp add: event_mask_events_op)
  from update_new [OF inv c(2) c(4) _ _ ev refl, of True] none c(1,3) obtain p' h'
    where u: "upd a (p, h(a \<mapsto> ?c)) = Inr (p', h')" "inv p' h'" "channels p' = (channels p)(fdm a \<mapsto> a)"
      "reindexed {a} (h(a \<mapsto> ?c)) h'" "\<forall>b. b \<noteq> a \<longrightarrow> removable p h b \<longrightarrow> removable p' h' b" by auto
  have "rel fdm (\<sigma>(a \<mapsto> Live ?ev False)) p' h'"
  proof (rule relI [OF u(2)])
    fix b ph assume b: "(\<sigma>(a \<mapsto> Live ?ev False)) b = Some ph"
    show "phase_rel fdm p' h' b ph"
    proof (cases "b = a")
      case True
      from reindexed_Some [OF u(4), of a ?c] obtain i where "h' a = Some (?c\<lparr>ch_index := i\<rparr>)" by auto
      with True b u(3) c ev show ?thesis by (auto simp: phase_rel_def)
    next
      case False
      with b have ph: "phase_rel fdm p h b ph" using rel_phase [OF R] by simp
      from False u(5) none show ?thesis by (intro phase_rel_frame [OF ph False u(4)]) (auto simp: u(3))
    qed
  next
    fix fd b assume "channels p' fd = Some b"
    then show "fdm b = fd \<and> (\<exists>e r. (\<sigma>(a \<mapsto> Live ?ev False)) b = Some (Live e r))"
      using rel_channels [OF R, of fd b] by (auto simp: u(3) split: if_splits)
  qed
  with u(1) chan_op_call_events [of op h a c upd rem p, OF assms(3) c(2)] c(5) show ?thesis by auto
qed

lemma step_live:
  assumes R: "rel fdm \<sigma> p h" and a: "\<sigma> a = Some (Live e r)" and "op \<noteq> Remove"
  shows "\<exists>p' h'. chan_op_call upd rem (op, a) (p, h) = Inr (p', h')
    \<and> rel fdm (\<sigma>(a \<mapsto> Live (events_op op e) (events_op op e = 0))) p' h'"
proof -
  from rel_phase [OF R a] obtain c where c: "event_mask e" "channels p (ch_fd c) = Some a" "h a = Some c"
    "ch_fd c = fdm a" "ch_events c = e" by (auto simp: phase_rel_def)
  have inv: "inv p h" using R by (simp add: rel_def)
  let ?ev = "events_op op e"
  let ?c = "c\<lparr>ch_events := ?ev, ch_addedToLoop := True\<rparr>"
  have ev: "event_mask ?ev" using c(1) by (simp add: event_mask_events_op)
  from update_existing [OF inv c(3) c(2) ev refl, of True] obtain p' h'
    where u: "upd a (p, h(a \<mapsto> ?c)) = Inr (p', h')" "inv p' h'" "channels p' = channels p"
      "reindexed {a} (h(a \<mapsto> ?c)) h'" "\<forall>b. b \<noteq> a \<longrightarrow> removable p h b \<longrightarrow> removable p' h' b"
      "?ev = 0 \<longrightarrow> removable p' h' a" by blast
  have "rel fdm (\<sigma>(a \<mapsto> Live ?ev (?ev = 0))) p' h'"
  proof (rule relI [OF u(2)])
    fix b ph assume b: "(\<sigma>(a \<mapsto> Live ?ev (?ev = 0))) b = Some ph"
    show "phase_rel fdm p' h' b ph"
    proof (cases "b = a")
      case True
      from reindexed_Some [OF u(4), of a ?c] obtain i where "h' a = Some (?c\<lparr>ch_index := i\<rparr>)" by auto
      with True b u(3,6) c ev show ?thesis by (auto simp: phase_rel_def)
    next
      case False
      with b have ph: "phase_rel fdm p h b ph" using rel_phase [OF R] by simp
      from False u(5) show ?thesis by (intro phase_rel_frame [OF ph False u(4)]) (auto simp: u(3))
    qed
  next
    fix fd b assume "channels p' fd = Some b"
    then show "fdm b = fd \<and> (\<exists>e' r. (\<sigma>(a \<mapsto> Live ?ev (?ev = 0))) b = Some (Live e' r))"
      using rel_channels [OF R, of fd b] by (auto simp: u(3))
  qed
  with u(1) chan_op_call_events [of op h a c upd rem p, OF assms(3) c(3)] c(5) show ?thesis by auto
qed

lemma step_remove:
  assumes R: "rel fdm \<sigma> p h" and a: "\<sigma> a = Some (Live 0 True)"
  shows "\<exists>p' h'. chan_op_call upd rem (Remove, a) (p, h) = Inr (p', h') \<and> rel fdm (\<sigma>(a \<mapsto> Gone)) p' h'"
proof -
  from rel_phase [OF R a] obtain c where c: "channels p (ch_fd c) = Some a" "h a = Some c"
    "ch_fd c = fdm a" "ch_events c = 0" "removable p h a" by (auto simp: phase_rel_def)
  have inv: "inv p h" using R by (simp add: rel_def)
  let ?c = "c\<lparr>ch_addedToLoop := False\<rparr>"
  from remove_removable [OF inv c(2) c(1) c(4) c(5) refl, of False] obtain p' h'
    where u: "rem a (p, h(a \<mapsto> ?c)) = Inr (p', h')" "inv p' h'" "channels p' = (channels p)(fdm a := None)"
      "reindexed (insert a (ran (channels p'))) (h(a \<mapsto> ?c)) h'"
      "\<forall>b. b \<noteq> a \<longrightarrow> removable p h b \<longrightarrow> removable p' h' b" by (auto simp: c(3))
  have "rel fdm (\<sigma>(a \<mapsto> Gone)) p' h'"
  proof (rule relI [OF u(2)])
    fix b ph assume b: "(\<sigma>(a \<mapsto> Gone)) b = Some ph"
    show "phase_rel fdm p' h' b ph"
    proof (cases "b = a")
      case True
      with b show ?thesis by (auto simp: phase_rel_def)
    next
      case False
      with b have ph: "phase_rel fdm p h b ph" and \<sigma>b: "\<sigma> b = Some ph" using rel_phase [OF R] by simp_all
      have "b \<in> insert a (ran (channels p')) \<longrightarrow> ph \<noteq> Fresh"
        using False rel_channels [OF R, of _ b] \<sigma>b by (auto simp: u(3) ran_def split: if_splits)
      with False u(5) c(1,3) show ?thesis by (intro phase_rel_frame [OF ph False u(4)]) (auto simp: u(3))
    qed
  next
    fix fd b assume "channels p' fd = Some b"
    then show "fdm b = fd \<and> (\<exists>e r. (\<sigma>(a \<mapsto> Gone)) b = Some (Live e r))"
      using rel_channels [OF R, of fd b] by (auto simp: u(3) split: if_splits)
  qed
  with u(1) chan_op_call_Remove [of h a c upd rem p, OF c(2) c(4)] show ?thesis by auto
qed

lemma step_refines:
  assumes "rel fdm \<sigma> p h" and "spec_op fdm oa \<sigma> = Some \<sigma>'"
  shows "\<exists>p' h'. chan_op_call upd rem oa (p, h) = Inr (p', h') \<and> rel fdm \<sigma>' p' h'"
  using assms step_fresh [OF assms(1)] step_live [OF assms(1)] step_remove [OF assms(1)]
  by (cases oa) (auto simp: spec_op_def split: option.splits chan_phase.splits if_splits)

theorem run_refines:
  assumes "rel fdm \<sigma> p h" and "spec_run fdm ops \<sigma> = Some \<sigma>'"
  shows "\<exists>p' h'. for_each (chan_op_call upd rem) ops (p, h) = Inr (p', h') \<and> rel fdm \<sigma>' p' h'"
  using assms
proof (induction ops arbitrary: \<sigma> p h)
  case Nil
  then show ?case by simp
next
  case (Cons x xs)
  from Cons.prems(2) obtain \<tau> where "spec_op fdm x \<sigma> = Some \<tau>" "spec_run fdm xs \<tau> = Some \<sigma>'"
    by (auto split: option.splits)
  with step_refines [OF Cons.prems(1)] Cons.IH show ?case by fastforce
qed

theorem fresh_run:
  assumes "inv p h" and "channels p = Map.empty" and "fresh_channels h"
    and "spec_run (fd_of h) ops (all_fresh h) = Some \<sigma>"
  shows "\<exists>p' h'. for_each (chan_op_call upd rem) ops (p, h) = Inr (p', h') \<and> inv p' h'
    \<and> (\<forall>fd a e. monitored p' fd = Some (a, e) \<longleftrightarrow> fd_of h a = fd \<and> (\<exists>r. \<sigma> a = Some (Live e r)) \<and> e \<noteq> 0)"
proof -
  have "rel (fd_of h) (all_fresh h) p h"
    using assms(1-3)
    by (intro relI) (auto simp: all_fresh_def phase_rel_def fresh_channels_def fd_of_def)
  from run_refines [OF this assms(4)] obtain p' h'
    where r: "for_each (chan_op_call upd rem) ops (p, h) = Inr (p', h')" "rel (fd_of h) \<sigma> p' h'" by blast
  with rel_monitored [OF r(2)] show ?thesis by (auto simp: rel_def)
qed

end

section \<open>PollPoller keeps the contract\<close>

text \<open>The entry of the array that stands for channel \<open>c\<close>.\<close>

definition pfd_for :: "Channel \<Rightarrow> pollfd \<Rightarrow> bool" where
  "pfd_for c q \<longleftrightarrow> (pfd_fd q = ch_fd c \<or> pfd_fd q = - ch_fd c - 1 \<and> ch_events c = 0)
     \<and> pfd_events q = ucast (ch_events c)"

definition slot :: "PollPoller \<Rightarrow> Channel \<Rightarrow> nat \<Rightarrow> bool" where
  "slot p c i \<longleftrightarrow> ch_index c = int i \<and> i < length (pollfds p) \<and> pfd_for c (pollfds p ! i)"

definition pp_inv :: "PollPoller \<Rightarrow> chans \<Rightarrow> bool" where
  "pp_inv p h \<longleftrightarrow>
     (\<forall>fd a. pp_channels p fd = Some a \<longrightarrow>
        0 \<le> fd \<and> (\<exists>c i. h a = Some c \<and> ch_fd c = fd \<and> event_mask (ch_events c) \<and> slot p c i))
   \<and> (\<forall>i < length (pollfds p). \<exists>fd a c. pp_channels p fd = Some a \<and> h a = Some c \<and> ch_index c = int i)"

definition pp_monitored :: "PollPoller \<Rightarrow> int \<Rightarrow> (addr \<times> event_bits) option" where
  "pp_monitored p fd = (case pp_channels p fd of None \<Rightarrow> None | Some a \<Rightarrow>
     (case find (\<lambda>q. pfd_fd q = fd \<and> pfd_events q \<noteq> 0) (pollfds p) of
        None \<Rightarrow> None | Some q \<Rightarrow> Some (a, ucast (pfd_events q))))"

definition pp_removable :: "PollPoller \<Rightarrow> chans \<Rightarrow> addr \<Rightarrow> bool" where
  "pp_removable p h a \<longleftrightarrow> (\<exists>c i. h a = Some c \<and> pp_channels p (ch_fd c) = Some a \<and> slot p c i
     \<and> pfd_fd (pollfds p ! i) = - ch_fd c - 1)"

lemma pp_invE:
  assumes "pp_inv p h" and "pp_channels p fd = Some a"
  obtains c i where "0 \<le> fd" "h a = Some c" "ch_fd c = fd" "event_mask (ch_events c)" "slot p c i"
  using assms unfolding pp_inv_def by blast

lemma pp_inv_slotE:
  assumes "pp_inv p h" and "i < length (pollfds p)"
  obtains fd a c where "pp_channels p fd = Some a" "h a = Some c" "ch_fd c = fd" "0 \<le> fd"
    "event_mask (ch_events c)" "slot p c i"
proof -
  from assms obtain fd a c where a: "pp_channels p fd = Some a" "h a = Some c" "ch_index c = int i"
    unfolding pp_inv_def by blast
  from pp_invE [OF assms(1) a(1)] obtain c' i' where "0 \<le> fd" "h a = Some c'" "ch_fd c' = fd"
    "event_mask (ch_events c')" "slot p c' i'" .
  with a that show thesis by (auto simp: slot_def)
qed

text \<open>An entry stands for one channel only.\<close>

lemma pfd_for_fd: "pfd_for c q \<Longrightarrow> pfd_for d q \<Longrightarrow> 0 \<le> ch_fd c \<Longrightarrow> 0 \<le> ch_fd d \<Longrightarrow> ch_fd c = ch_fd d"
  by (auto simp: pfd_for_def)

lemma slot_distinct:
  assumes "pp_inv p h" and "pp_channels p fd = Some a" and "pp_channels p fd' = Some b" and "a \<noteq> b"
    and "h a = Some c" and "h b = Some d"
  shows "ch_index c \<noteq> ch_index d"
proof
  assume eq: "ch_index c = ch_index d"
  from pp_invE [OF assms(1,2)] assms(5) obtain i where 1: "0 \<le> fd" "ch_fd c = fd" "slot p c i" by auto
  from pp_invE [OF assms(1,3)] assms(6) obtain j where 2: "0 \<le> fd'" "ch_fd d = fd'" "slot p d j" by auto
  from 1 2 eq have "fd = fd'" using pfd_for_fd [of c "pollfds p ! i" d] by (auto simp: slot_def)
  with assms show False by simp
qed

lemma pp_monitored_inv:
  assumes "pp_inv p h"
  shows "pp_monitored p fd = (case pp_channels p fd of None \<Rightarrow> None
    | Some a \<Rightarrow> (case h a of None \<Rightarrow> None
        | Some c \<Rightarrow> if ch_events c = 0 then None else Some (a, ch_events c)))"
proof (cases "pp_channels p fd")
  case None
  then show ?thesis by (simp add: pp_monitored_def)
next
  case (Some a)
  from pp_invE [OF assms Some] obtain c i
    where c: "0 \<le> fd" "h a = Some c" "ch_fd c = fd" "event_mask (ch_events c)" "slot p c i" .
  let ?P = "\<lambda>q. pfd_fd q = fd \<and> pfd_events q \<noteq> 0"
  have entry: "pfd_events q = ucast (ch_events c)" if q: "q \<in> set (pollfds p)" and "pfd_fd q = fd" for q
  proof -
    from q obtain j where j: "j < length (pollfds p)" "pollfds p ! j = q" by (auto simp: in_set_conv_nth)
    from pp_inv_slotE [OF assms j(1)] obtain fd' b d where b: "pp_channels p fd' = Some b" "h b = Some d"
      "ch_fd d = fd'" "0 \<le> fd'" "slot p d j" by blast
    with that(2) j c(1) have "fd' = fd" by (auto simp: slot_def pfd_for_def)
    with b j c Some show ?thesis by (auto simp: slot_def pfd_for_def)
  qed
  have "find ?P (pollfds p) = None \<longleftrightarrow> ch_events c = 0"
  proof
    assume none: "find ?P (pollfds p) = None"
    from c(5) have "pollfds p ! i \<in> set (pollfds p)" by (simp add: slot_def)
    with none have "\<not> ?P (pollfds p ! i)" by (simp add: find_None_iff)
    with c(3,4,5) show "ch_events c = 0" by (auto simp: slot_def pfd_for_def event_mask_short)
  next
    assume "ch_events c = 0"
    then show "find ?P (pollfds p) = None" using entry by (auto simp: find_None_iff)
  qed
  moreover have "ucast (pfd_events q) = ch_events c" if "find ?P (pollfds p) = Some q" for q
    using that entry [of q] event_mask_short(2) [OF c(4)] by (auto simp: find_Some_iff)
  ultimately show ?thesis using Some c(2) by (auto simp: pp_monitored_def split: option.splits)
qed

lemma pp_invI:
  assumes "\<And>fd a. pp_channels p fd = Some a \<Longrightarrow>
      0 \<le> fd \<and> (\<exists>c i. h a = Some c \<and> ch_fd c = fd \<and> event_mask (ch_events c) \<and> slot p c i)"
    and "\<And>i. i < length (pollfds p) \<Longrightarrow> \<exists>fd a c. pp_channels p fd = Some a \<and> h a = Some c \<and> ch_index c = int i"
  shows "pp_inv p h"
  using assms by (simp add: pp_inv_def)

text \<open>The new and the updated entry stand for their channel.\<close>

definition new_pfd :: "Channel \<Rightarrow> pollfd" where
  "new_pfd c = \<lparr>pfd_fd = ch_fd c, pfd_events = ucast (ch_events c), pfd_revents = 0\<rparr>"

definition updated_pfd :: "Channel \<Rightarrow> pollfd" where
  "updated_pfd c = \<lparr>pfd_fd = (if isNoneEvent c then - ch_fd c - 1 else ch_fd c),
     pfd_events = ucast (ch_events c), pfd_revents = 0\<rparr>"

lemma pfd_for_new [simp]: "ch_fd c = ch_fd d \<Longrightarrow> ch_events c = ch_events d \<Longrightarrow> pfd_for c (new_pfd d)"
  by (simp add: pfd_for_def new_pfd_def)

lemma pfd_for_updated [simp]: "pfd_for c (updated_pfd c)"
  by (simp add: pfd_for_def updated_pfd_def isNoneEvent_def kNoneEvent_def)

lemma pp_update_new:
  assumes inv: "pp_inv p h" and a: "h a = Some c" "ch_index c = -1" "pp_channels p (ch_fd c) = None" "0 \<le> ch_fd c"
    and ev: "event_mask ev" and h1: "h1 = h(a \<mapsto> c\<lparr>ch_events := ev, ch_addedToLoop := x\<rparr>)"
  shows "\<exists>p' h'. PollPoller_updateChannel True a (p, h1) = Inr (p', h') \<and> pp_inv p' h'
    \<and> pp_channels p' = (pp_channels p)(ch_fd c \<mapsto> a) \<and> reindexed {a} h1 h'
    \<and> (\<forall>b. b \<noteq> a \<longrightarrow> pp_removable p h b \<longrightarrow> pp_removable p' h' b)"
proof -
  let ?c = "c\<lparr>ch_events := ev, ch_addedToLoop := x\<rparr>"
  let ?n = "length (pollfds p)"
  let ?p = "p\<lparr>pollfds := pollfds p @ [new_pfd ?c], pp_channels := (pp_channels p)(ch_fd c \<mapsto> a)\<rparr>"
  let ?h = "h1(a \<mapsto> set_index (int ?n) ?c)"
  have step: "PollPoller_updateChannel True a (p, h1) = Inr (?p, ?h)"
    using a by (simp add: PollPoller_updateChannel_def h1 new_pfd_def)
  have unreg: "pp_channels p fd \<noteq> Some a" for fd
    using pp_invE [OF inv, of fd a] a by fastforce
  have slots: "slot ?p d i" if "slot p d i" for d i
    using that by (auto simp: slot_def nth_append)
  have "pp_inv ?p ?h"
  proof (rule pp_invI)
    fix fd b assume b: "pp_channels ?p fd = Some b"
    show "0 \<le> fd \<and> (\<exists>d i. ?h b = Some d \<and> ch_fd d = fd \<and> event_mask (ch_events d) \<and> slot ?p d i)"
    proof (cases "fd = ch_fd c")
      case True
      then have "b = a" using b by simp
      moreover have "slot ?p (set_index (int ?n) ?c) ?n" by (simp add: slot_def set_index_def)
      ultimately show ?thesis using True a ev by (auto simp: set_index_def)
    next
      case False
      with b have b': "pp_channels p fd = Some b" by simp
      with unreg have "b \<noteq> a" by blast
      from pp_invE [OF inv b'] obtain d i where "0 \<le> fd" "h b = Some d" "ch_fd d = fd"
        "event_mask (ch_events d)" "slot p d i" .
      with \<open>b \<noteq> a\<close> slots [of d i] show ?thesis by (auto simp: h1)
    qed
  next
    fix i assume i: "i < length (pollfds ?p)"
    show "\<exists>fd b d. pp_channels ?p fd = Some b \<and> ?h b = Some d \<and> ch_index d = int i"
    proof (cases "i = ?n")
      case True
      then show ?thesis by (intro exI [of _ "ch_fd c"] exI [of _ a]) (simp add: set_index_def)
    next
      case False
      with i have "i < ?n" by simp
      from pp_inv_slotE [OF inv this] obtain fd b d where b: "pp_channels p fd = Some b" "h b = Some d" "slot p d i" .
      then have "b \<noteq> a" "fd \<noteq> ch_fd c" using unreg a by auto
      with b show ?thesis by (intro exI [of _ fd] exI [of _ b] exI [of _ d]) (simp add: h1 slot_def)
    qed
  qed
  moreover have "pp_removable ?p ?h b" if "b \<noteq> a" "pp_removable p h b" for b
  proof -
    from that(2) obtain d i where d: "h b = Some d" "pp_channels p (ch_fd d) = Some b" "slot p d i"
      "pfd_fd (pollfds p ! i) = - ch_fd d - 1" by (auto simp: pp_removable_def)
    then have "ch_fd d \<noteq> ch_fd c" using a(3) by auto
    with d that(1) slots [OF d(3)] show ?thesis
      by (auto simp: pp_removable_def h1 slot_def nth_append intro!: exI [of _ i])
  qed
  moreover have "reindexed {a} h1 ?h" by (rule reindexed_update) (simp_all add: h1)
  ultimately show ?thesis using step by auto
qed

lemma pp_update_existing:
  assumes inv: "pp_inv p h" and a: "h a = Some c" "pp_channels p (ch_fd c) = Some a"
    and ev: "event_mask ev" and h1: "h1 = h(a \<mapsto> c\<lparr>ch_events := ev, ch_addedToLoop := x\<rparr>)"
  shows "\<exists>p' h'. PollPoller_updateChannel True a (p, h1) = Inr (p', h') \<and> pp_inv p' h'
    \<and> pp_channels p' = pp_channels p \<and> reindexed {a} h1 h'
    \<and> (\<forall>b. b \<noteq> a \<longrightarrow> pp_removable p h b \<longrightarrow> pp_removable p' h' b)
    \<and> (ev = 0 \<longrightarrow> pp_removable p' h' a)"
proof -
  let ?c = "c\<lparr>ch_events := ev, ch_addedToLoop := x\<rparr>"
  from pp_invE [OF inv a(2)] a(1) obtain k where k: "0 \<le> ch_fd c" "slot p c k" by auto
  let ?p = "p\<lparr>pollfds := (pollfds p)[k := updated_pfd ?c]\<rparr>"
  have step: "PollPoller_updateChannel True a (p, h1) = Inr (?p, h1)"
    using a k by (auto simp: PollPoller_updateChannel_def h1 updated_pfd_def slot_def pfd_for_def isNoneEvent_def)
  have slot_a: "slot ?p ?c k" using k by (simp add: slot_def)
  have slot_other: "slot ?p d i" if "slot p d i" "i \<noteq> k" for d i
    using that by (simp add: slot_def)
  have "pp_inv ?p h1"
  proof (rule pp_invI)
    fix fd b assume "pp_channels ?p fd = Some b"
    then have b: "pp_channels p fd = Some b" by simp
    from pp_invE [OF inv b] obtain d i where d: "0 \<le> fd" "h b = Some d" "ch_fd d = fd" "event_mask (ch_events d)" "slot p d i" .
    show "0 \<le> fd \<and> (\<exists>d i. h1 b = Some d \<and> ch_fd d = fd \<and> event_mask (ch_events d) \<and> slot ?p d i)"
    proof (cases "b = a")
      case True
      with d a ev slot_a show ?thesis by (auto simp: h1)
    next
      case False
      then have "i \<noteq> k" using slot_distinct [OF inv a(2) b _ a(1) d(2)] d(5) k(2) by (auto simp: slot_def)
      with False d slot_other show ?thesis by (auto simp: h1)
    qed
  next
    fix i assume "i < length (pollfds ?p)"
    then have "i < length (pollfds p)" by simp
    from pp_inv_slotE [OF inv this] obtain fd b d where b: "pp_channels p fd = Some b" "h b = Some d" "slot p d i" .
    then show "\<exists>fd b d. pp_channels ?p fd = Some b \<and> h1 b = Some d \<and> ch_index d = int i"
      using a by (intro exI [of _ fd] exI [of _ b]) (auto simp: h1 slot_def)
  qed
  moreover have "pp_removable ?p h1 b" if b: "b \<noteq> a" "pp_removable p h b" for b
  proof -
    from b obtain d i where d: "h b = Some d" "pp_channels p (ch_fd d) = Some b" "slot p d i"
        "pfd_fd (pollfds p ! i) = - ch_fd d - 1" by (auto simp: pp_removable_def)
    have "i \<noteq> k" using slot_distinct [OF inv a(2) d(2) _ a(1) d(1)] b(1) d(3) k(2) by (auto simp: slot_def)
    with b(1) d slot_other [of d i] show ?thesis
      by (auto simp: pp_removable_def h1 slot_def intro!: exI [of _ i])
  qed
  moreover have "ev = 0 \<longrightarrow> pp_removable ?p h1 a"
    using k a slot_a by (auto simp: pp_removable_def h1 slot_def updated_pfd_def isNoneEvent_def kNoneEvent_def
        intro!: exI [of _ k])
  ultimately show ?thesis using step reindexed_refl by auto
qed

text \<open>Removing the last entry, and removing one before it.\<close>

lemma butlast_swap:
  "k < length xs - 1 \<Longrightarrow> butlast (xs[k := last xs, length xs - 1 := y]) = (butlast xs)[k := last xs]"
  by (simp add: list_eq_iff_nth_eq nth_butlast nth_list_update)

lemma pp_remove_last_step:
  assumes "h1 a = Some c" "pp_channels p (ch_fd c) = Some a" "ch_events c = 0" "slot p c k"
    "pfd_fd (pollfds p ! k) = - ch_fd c - 1" "k = length (pollfds p) - 1"
  shows "PollPoller_removeChannel True a (p, h1) =
    Inr (p\<lparr>pollfds := butlast (pollfds p), pp_channels := (pp_channels p)(ch_fd c := None)\<rparr>, h1)"
proof -
  have k: "ch_index c = int k" "k < length (pollfds p)" "pfd_events (pollfds p ! k) = 0"
    "length (pollfds p) - 1 = k"
    using assms by (simp_all add: slot_def pfd_for_def)
  with assms(1-3,5) show ?thesis
    by (simp add: PollPoller_removeChannel_def isNoneEvent_def kNoneEvent_def Let_def)
qed

lemma pp_remove_swap_step:
  assumes "h1 a = Some c" "pp_channels p (ch_fd c) = Some a" "ch_events c = 0" "slot p c k"
    "pfd_fd (pollfds p ! k) = - ch_fd c - 1" "k < length (pollfds p) - 1"
    "slot p d (length (pollfds p) - 1)" "0 \<le> ch_fd d" "ch_fd d \<noteq> ch_fd c"
    "pp_channels p (ch_fd d) = Some b" "h1 b = Some d'"
  shows "PollPoller_removeChannel True a (p, h1) =
    Inr (p\<lparr>pollfds := (butlast (pollfds p))[k := last (pollfds p)], pp_channels := (pp_channels p)(ch_fd c := None)\<rparr>,
      h1(b \<mapsto> set_index (int k) d'))"
proof -
  have "pollfds p \<noteq> []" using assms(6) by auto
  then have "pfd_for d (last (pollfds p))" using assms(7) by (simp add: slot_def last_conv_nth)
  then have fd: "(let x = pfd_fd (last (pollfds p)) in if x < 0 then - x - 1 else x) = ch_fd d"
    using assms(8) by (auto simp: pfd_for_def Let_def)
  show ?thesis
    using assms fd butlast_swap [OF assms(6)]
    by (auto simp: PollPoller_removeChannel_def isNoneEvent_def kNoneEvent_def slot_def pfd_for_def Let_def
        split: if_splits)
qed

text \<open>Removing \<open>a\<close> leaves every other channel, and its entry is not that of \<open>a\<close>.\<close>

lemma pp_other:
  assumes "pp_inv p h" "h a = Some c" "pp_channels p (ch_fd c) = Some a" "slot p c k"
    and "pp_channels p (ch_fd d) = Some b" "h b = Some d" "slot p d i" "ch_fd d \<noteq> ch_fd c"
  shows "b \<noteq> a \<and> i \<noteq> k"
proof -
  have ba: "b \<noteq> a" using assms by auto
  with slot_distinct [OF assms(1,3,5) _ assms(2,6)] assms(4,7) show ?thesis by (auto simp: slot_def)
qed

lemma pp_removableE:
  assumes "pp_removable p h b"
  obtains d i where "h b = Some d" "pp_channels p (ch_fd d) = Some b" "slot p d i"
    "pfd_fd (pollfds p ! i) = - ch_fd d - 1"
  using assms by (auto simp: pp_removable_def)

lemma pp_removableI:
  assumes "h b = Some d" "pp_channels p (ch_fd d) = Some b" "slot p d i"
    "pfd_fd (pollfds p ! i) = - ch_fd d - 1"
  shows "pp_removable p h b"
  using assms unfolding pp_removable_def by blast

lemma pp_remove_last:
  assumes inv: "pp_inv p h" and a: "h a = Some c" "pp_channels p (ch_fd c) = Some a" and k: "slot p c k"
    and kn: "k = length (pollfds p) - 1" and h1: "h1 = h(a \<mapsto> c')"
    and p': "p' = p\<lparr>pollfds := butlast (pollfds p), pp_channels := (pp_channels p)(ch_fd c := None)\<rparr>"
  shows "pp_inv p' h1 \<and> (\<forall>b. b \<noteq> a \<longrightarrow> pp_removable p h b \<longrightarrow> pp_removable p' h1 b)"
proof (intro conjI allI impI)
  note other = pp_other [OF inv a k]
  have slots: "slot p' d i" "pollfds p' ! i = pollfds p ! i" if "slot p d i" "i \<noteq> k" for d i
    using that kn by (auto simp: p' slot_def nth_butlast)
  show "pp_inv p' h1"
  proof (rule pp_invI)
    fix fd b assume "pp_channels p' fd = Some b"
    then have b: "pp_channels p fd = Some b" "fd \<noteq> ch_fd c" by (auto simp: p' split: if_splits)
    from pp_invE [OF inv b(1)] obtain d i where d: "0 \<le> fd" "h b = Some d" "ch_fd d = fd"
      "event_mask (ch_events d)" "slot p d i" .
    with other [of d b i] slots(1) [of d i] b
    show "0 \<le> fd \<and> (\<exists>d i. h1 b = Some d \<and> ch_fd d = fd \<and> event_mask (ch_events d) \<and> slot p' d i)"
      by (auto simp: h1)
  next
    fix i assume "i < length (pollfds p')"
    then have i: "i < length (pollfds p)" "i \<noteq> k" using kn by (auto simp: p')
    from pp_inv_slotE [OF inv i(1)] obtain fd b d where b: "pp_channels p fd = Some b" "h b = Some d"
      "ch_fd d = fd" "slot p d i" .
    have "fd \<noteq> ch_fd c" using b a i k by (auto simp: slot_def)
    with b other [of d b i] show "\<exists>fd b d. pp_channels p' fd = Some b \<and> h1 b = Some d \<and> ch_index d = int i"
      by (intro exI [of _ fd] exI [of _ b] exI [of _ d]) (auto simp: slot_def p' h1)
  qed
  fix b assume b: "b \<noteq> a" "pp_removable p h b"
  from b(2) obtain d i where d: "h b = Some d" "pp_channels p (ch_fd d) = Some b" "slot p d i"
    "pfd_fd (pollfds p ! i) = - ch_fd d - 1" by (rule pp_removableE)
  have fd: "ch_fd d \<noteq> ch_fd c" using d(2) a(2) b(1) by auto
  with other [of d b i] d slots [of d i] show "pp_removable p' h1 b"
    by (intro pp_removableI [of _ _ d _ i]) (auto simp: h1 p')
qed

lemma pp_remove_swap:
  assumes inv: "pp_inv p h" and a: "h a = Some c" "pp_channels p (ch_fd c) = Some a" and k: "slot p c k"
    and b: "h b = Some d" "pp_channels p (ch_fd d) = Some b" "event_mask (ch_events d)"
      "slot p d (length (pollfds p) - 1)" "ch_fd d \<noteq> ch_fd c"
    and kn: "k < length (pollfds p) - 1" and h1: "h1 = h(a \<mapsto> c', b \<mapsto> set_index (int k) d)"
    and p': "p' = p\<lparr>pollfds := (butlast (pollfds p))[k := last (pollfds p)],
               pp_channels := (pp_channels p)(ch_fd c := None)\<rparr>"
  shows "pp_inv p' h1 \<and> (\<forall>f. f \<noteq> a \<longrightarrow> pp_removable p h f \<longrightarrow> pp_removable p' h1 f)"
proof (intro conjI allI impI)
  let ?n = "length (pollfds p) - 1"
  note other = pp_other [OF inv a k] and notlast = pp_other [OF inv b(1,2,4)]
  have "pollfds p \<noteq> []" using kn by auto
  then have lst: "last (pollfds p) = pollfds p ! ?n" by (rule last_conv_nth)
  have slot_b: "slot p' (set_index (int k) d) k" "pollfds p' ! k = pollfds p ! ?n"
    using b(4) kn by (auto simp: p' slot_def set_index_def pfd_for_def lst)
  have slots: "slot p' g i" "pollfds p' ! i = pollfds p ! i" if "slot p g i" "i \<noteq> k" "i \<noteq> ?n" for g i
    using that by (auto simp: p' slot_def nth_butlast)
  show "pp_inv p' h1"
  proof (rule pp_invI)
    fix fd f assume "pp_channels p' fd = Some f"
    then have f: "pp_channels p fd = Some f" "fd \<noteq> ch_fd c" by (auto simp: p' split: if_splits)
    from pp_invE [OF inv f(1)] obtain g i where g: "0 \<le> fd" "h f = Some g" "ch_fd g = fd"
      "event_mask (ch_events g)" "slot p g i" .
    show "0 \<le> fd \<and> (\<exists>g i. h1 f = Some g \<and> ch_fd g = fd \<and> event_mask (ch_events g) \<and> slot p' g i)"
    proof (cases "f = b")
      case True
      with g b slot_b show ?thesis by (auto simp: set_index_def h1)
    next
      case False
      then have "fd \<noteq> ch_fd d" using f b by auto
      with False g f other [of g f i] notlast [of g f i] slots [of g i] show ?thesis by (auto simp: h1)
    qed
  next
    fix i assume i: "i < length (pollfds p')"
    show "\<exists>fd f g. pp_channels p' fd = Some f \<and> h1 f = Some g \<and> ch_index g = int i"
    proof (cases "i = k")
      case True
      with b show ?thesis by (intro exI [of _ "ch_fd d"] exI [of _ b]) (simp add: set_index_def h1 p')
    next
      case False
      have i': "i < length (pollfds p)" "i \<noteq> ?n" using i by (auto simp: p')
      from pp_inv_slotE [OF inv i'(1)] obtain fd f g where f: "pp_channels p fd = Some f" "h f = Some g"
        "ch_fd g = fd" "slot p g i" .
      have "fd \<noteq> ch_fd c" "f \<noteq> b" using f a b k False i' by (auto simp: slot_def)
      with f other [of g f i] show ?thesis
        by (intro exI [of _ fd] exI [of _ f] exI [of _ g]) (auto simp: slot_def h1 p')
    qed
  qed
  fix f assume f: "f \<noteq> a" "pp_removable p h f"
  from f(2) obtain g i where g: "h f = Some g" "pp_channels p (ch_fd g) = Some f" "slot p g i"
    "pfd_fd (pollfds p ! i) = - ch_fd g - 1" by (rule pp_removableE)
  have gc: "ch_fd g \<noteq> ch_fd c" using g(2) a(2) f(1) by auto
  show "pp_removable p' h1 f"
  proof (cases "f = b")
    case True
    with g b have "i = ?n" by (auto simp: slot_def)
    with True g b gc slot_b show ?thesis
      by (intro pp_removableI [of _ _ "set_index (int k) d" _ k]) (auto simp: set_index_def h1 p')
  next
    case False
    then have "ch_fd g \<noteq> ch_fd d" using g b by auto
    with False g gc other [of g f i] notlast [of g f i] slots [of g i] show ?thesis
      by (intro pp_removableI [of _ _ g _ i]) (auto simp: h1 p')
  qed
qed

lemma pp_remove:
  assumes inv: "pp_inv p h" and a: "h a = Some c" "pp_channels p (ch_fd c) = Some a" "ch_events c = 0"
    and rm: "pp_removable p h a" and h1: "h1 = h(a \<mapsto> c\<lparr>ch_addedToLoop := x\<rparr>)"
  shows "\<exists>p' h'. PollPoller_removeChannel True a (p, h1) = Inr (p', h') \<and> pp_inv p' h'
    \<and> pp_channels p' = (pp_channels p)(ch_fd c := None)
    \<and> reindexed (insert a (ran (pp_channels p'))) h1 h'
    \<and> (\<forall>b. b \<noteq> a \<longrightarrow> pp_removable p h b \<longrightarrow> pp_removable p' h' b)"
proof -
  let ?c = "c\<lparr>ch_addedToLoop := x\<rparr>" and ?n = "length (pollfds p) - 1"
  from rm a(1) obtain k where k: "slot p c k" "pfd_fd (pollfds p ! k) = - ch_fd c - 1"
    by (auto simp: pp_removable_def)
  have c1: "h1 a = Some ?c" "slot p ?c k" using a k by (simp_all add: h1 slot_def pfd_for_def)
  show ?thesis
  proof (cases "k = ?n")
    case True
    from pp_remove_last_step [of h1 a ?c p k] pp_remove_last [OF inv a(1,2) k(1) True h1 refl] c1 a k True
    show ?thesis using reindexed_refl by auto
  next
    case False
    then have kn: "k < ?n" using k unfolding slot_def by linarith
    then have "?n < length (pollfds p)" by linarith
    from pp_inv_slotE [OF inv this] obtain b d where b: "pp_channels p (ch_fd d) = Some b" "h b = Some d"
      "0 \<le> ch_fd d" "event_mask (ch_events d)" "slot p d ?n" by metis
    have fd: "ch_fd d \<noteq> ch_fd c" using b a kn k by (auto simp: slot_def)
    have ba: "h1 b = Some d" using pp_other [OF inv a(1,2) k(1) b(1,2,5) fd] b(2) by (simp add: h1)
    have "reindexed (insert a (ran ((pp_channels p)(ch_fd c := None)))) h1 (h1(b \<mapsto> set_index (int k) d))"
      using b(1) fd ba by (intro reindexed_update) (auto simp: ran_def)
    with pp_remove_swap_step [of h1 a ?c p k d b d]
      pp_remove_swap [OF inv a(1,2) k(1) b(2,1,4,5) fd kn _ refl, of "h1(b \<mapsto> set_index (int k) d)" ?c] c1 a k kn b fd ba
    show ?thesis by (auto simp: h1)
  qed
qed

lemma slot_cong: "ch_fd c' = ch_fd c \<Longrightarrow> ch_events c' = ch_events c \<Longrightarrow> ch_index c' = ch_index c \<Longrightarrow> slot p c' i = slot p c i"
  by (simp add: slot_def pfd_for_def)

lemma pp_inv_cong:
  assumes "pp_inv p h"
    and "\<And>fd a. pp_channels p fd = Some a \<Longrightarrow> map_option registration (h' a) = map_option registration (h a)"
  shows "pp_inv p h'"
proof (unfold pp_inv_def, intro conjI allI impI)
  fix fd a assume a: "pp_channels p fd = Some a"
  from pp_invE [OF assms(1) a] obtain c i where c: "0 \<le> fd" "h a = Some c" "ch_fd c = fd" "event_mask (ch_events c)" "slot p c i" .
  from same_registration [of h' a h, OF assms(2) [OF a] c(2)] obtain c' where
    c': "h' a = Some c'" "ch_fd c' = ch_fd c" "ch_events c' = ch_events c" "ch_index c' = ch_index c" by blast
  with c slot_cong [OF c'(2-4), of p i] show "0 \<le> fd" "\<exists>c i. h' a = Some c \<and> ch_fd c = fd \<and> event_mask (ch_events c) \<and> slot p c i"
    by auto
next
  fix i assume "i < length (pollfds p)"
  with assms(1) obtain fd a c where a: "pp_channels p fd = Some a" "h a = Some c" "ch_index c = int i"
    unfolding pp_inv_def by blast
  from same_registration [of h' a h, OF assms(2) [OF a(1)] a(2)] a show "\<exists>fd a c. pp_channels p fd = Some a \<and> h' a = Some c \<and> ch_index c = int i"
    by auto
qed

lemma pp_removable_cong:
  assumes "pp_removable p h a" and "map_option registration (h' a) = map_option registration (h a)"
  shows "pp_removable p h' a"
proof -
  from assms(1) obtain c i where c: "h a = Some c" "pp_channels p (ch_fd c) = Some a" "slot p c i"
    "pfd_fd (pollfds p ! i) = - ch_fd c - 1" by (auto simp: pp_removable_def)
  from same_registration [of h' a h, OF assms(2) c(1)] obtain c' where
    c': "h' a = Some c'" "ch_fd c' = ch_fd c" "ch_events c' = ch_events c" "ch_index c' = ch_index c" by blast
  with c slot_cong [OF c'(2-4), of p i] show ?thesis by (auto simp: pp_removable_def)
qed

interpretation poll_poller: poller pp_inv pp_channels pp_monitored pp_removable
  "PollPoller_updateChannel True" "PollPoller_removeChannel True"
proof unfold_locales
  show "pp_inv p h \<Longrightarrow> pp_channels p fd = Some a \<Longrightarrow> \<exists>c. h a = Some c \<and> ch_fd c = fd" for p h fd a
    by (erule (1) pp_invE) blast
  show "pp_inv p h'" if "pp_inv p h"
    and "\<And>fd a. pp_channels p fd = Some a \<Longrightarrow> map_option registration (h' a) = map_option registration (h a)" for p h h'
    using that by (rule pp_inv_cong)
qed (rule pp_monitored_inv pp_removable_cong pp_update_new pp_update_existing pp_remove; assumption)+

section \<open>Polling\<close>

text \<open>
  What \<^verbatim>\<open>poll(2)\<close> documents: it changes only \<^verbatim>\<open>revents\<close>, ignores entries with a negative
  descriptor, and a positive result is the number of entries whose \<^verbatim>\<open>revents\<close> is not zero. No
  event flag is the sign bit of a \<^verbatim>\<open>short\<close>.
\<close>

definition ready :: "pollfd \<Rightarrow> bool" where
  "ready q \<longleftrightarrow> 0 < sint (pfd_revents q)"

definition poll_ok :: "poll_call \<Rightarrow> bool" where
  "poll_ok call \<longleftrightarrow> (\<forall>fds t. case call fds t of (n, fds') \<Rightarrow>
     map pfd_fd fds' = map pfd_fd fds \<and> map pfd_events fds' = map pfd_events fds
     \<and> (0 < n \<longrightarrow> n = int (length (filter ready fds')) \<and> (\<forall>q \<in> set fds'. ready q \<longrightarrow> 0 \<le> pfd_fd q)))"

definition mark :: "(int \<Rightarrow> addr option) \<Rightarrow> pollfd \<Rightarrow> chans \<Rightarrow> chans" where
  "mark channels q h = (let a = the (channels (pfd_fd q)) in
     h(a \<mapsto> set_revents (scast (pfd_revents q)) (the (h a))))"

lemma fillActiveChannels_marks:
  assumes "n = int (length (filter ready fds))"
    and "\<And>q. q \<in> set fds \<Longrightarrow> ready q \<Longrightarrow> \<exists>a c. channels (pfd_fd q) = Some a \<and> h a = Some c \<and> ch_fd c = pfd_fd q"
  shows "PollPoller_fillActiveChannels n fds channels (act, h) =
    Inr (act @ map (\<lambda>q. the (channels (pfd_fd q))) (filter ready fds), fold (mark channels) (filter ready fds) h)"
  using assms
proof (induction fds arbitrary: n act h)
  case Nil
  then show ?case by simp
next
  case (Cons q fds)
  show ?case
  proof (cases "ready q")
    case True
    from Cons.prems(2) [OF _ True] obtain a c where a: "channels (pfd_fd q) = Some a" "h a = Some c"
      "ch_fd c = pfd_fd q" by auto
    have "\<exists>b d. channels (pfd_fd r) = Some b \<and> mark channels q h b = Some d \<and> ch_fd d = pfd_fd r"
      if "r \<in> set fds" "ready r" for r
    proof -
      from Cons.prems(2) [of r] that obtain b d where "channels (pfd_fd r) = Some b" "h b = Some d"
        "ch_fd d = pfd_fd r" by auto
      with a show ?thesis by (cases "b = a") (auto simp: mark_def set_revents_def)
    qed
    moreover have "n - 1 = int (length (filter ready fds))" using Cons.prems(1) True by simp
    ultimately have "PollPoller_fillActiveChannels (n - 1) fds channels (act @ [a], mark channels q h) =
      Inr ((act @ [a]) @ map (\<lambda>q. the (channels (pfd_fd q))) (filter ready fds),
        fold (mark channels) (filter ready fds) (mark channels q h))" by (intro Cons.IH) auto
    moreover have "mark channels q h = h(a \<mapsto> set_revents (scast (pfd_revents q)) c)" using a by (simp add: mark_def)
    moreover have "0 < n" "0 < sint (pfd_revents q)" using Cons.prems(1) True by (simp_all add: ready_def)
    ultimately show ?thesis using a True by simp
  next
    case False
    then have "\<not> 0 < sint (pfd_revents q)" by (simp add: ready_def)
    with False Cons.IH [of n h act] Cons.prems show ?thesis
      by (cases "0 < n") auto
  qed
qed

lemma mark_other: "a \<noteq> the (channels (pfd_fd q)) \<Longrightarrow> mark channels q h a = h a"
  by (simp add: mark_def Let_def)

lemma mark_same: "h (the (channels (pfd_fd q))) \<noteq> None \<Longrightarrow> mark channels q h (the (channels (pfd_fd q)))
    = map_option (set_revents (scast (pfd_revents q))) (h (the (channels (pfd_fd q))))"
  by (auto simp: mark_def Let_def)

lemma fold_mark_other:
  "a \<notin> (\<lambda>q. the (channels (pfd_fd q))) ` set qs \<Longrightarrow> fold (mark channels) qs h a = h a"
  by (induction qs arbitrary: h) (simp_all add: mark_other)

lemma fold_mark_same:
  assumes "distinct (map (\<lambda>q. the (channels (pfd_fd q))) qs)" and "q \<in> set qs"
    and "h (the (channels (pfd_fd q))) \<noteq> None"
  shows "fold (mark channels) qs h (the (channels (pfd_fd q)))
      = map_option (set_revents (scast (pfd_revents q))) (h (the (channels (pfd_fd q))))"
  using assms
proof (induction qs arbitrary: h)
  case (Cons r qs)
  let ?a = "\<lambda>q. the (channels (pfd_fd q))"
  show ?case
  proof (cases "q = r")
    case True
    with Cons.prems have "?a q \<notin> ?a ` set qs" by simp
    from fold_mark_other [OF this] True Cons.prems(3) show ?thesis by (simp add: mark_same)
  next
    case False
    with Cons.prems have q: "q \<in> set qs" "?a q \<noteq> ?a r" by (auto simp: image_iff)
    from mark_other [of "?a q" channels r h, OF q(2)] Cons.IH [OF _ q(1), of "mark channels r h"] Cons.prems(1,3) show ?thesis by simp
  qed
qed simp

text \<open>The array after a call stands for the same channels.\<close>

lemma pfd_for_cong: "pfd_fd q' = pfd_fd q \<Longrightarrow> pfd_events q' = pfd_events q \<Longrightarrow> pfd_for c q' = pfd_for c q"
  by (simp add: pfd_for_def)

lemma pp_inv_revents:
  assumes "pp_inv p h" and "map pfd_fd fds = map pfd_fd (pollfds p)" and "map pfd_events fds = map pfd_events (pollfds p)"
    and "\<And>a c. h a = Some c \<Longrightarrow> \<exists>r. h' a = Some (c\<lparr>ch_revents := r\<rparr>)"
  shows "pp_inv (p\<lparr>pollfds := fds\<rparr>) h'"
proof -
  have len: "length fds = length (pollfds p)" using assms(2) by (rule map_eq_imp_length_eq)
  have q: "pfd_for c (fds ! i) = pfd_for c (pollfds p ! i)" if "i < length fds" for i c
    using that len assms(2,3) by (intro pfd_for_cong) (metis nth_map)+
  have slot: "slot (p\<lparr>pollfds := fds\<rparr>) (c\<lparr>ch_revents := r\<rparr>) i" if "slot p c i" for c i r
    using that q [of i c] len by (simp add: slot_def pfd_for_def)
  show ?thesis
  proof (rule pp_invI)
    fix fd a assume "pp_channels (p\<lparr>pollfds := fds\<rparr>) fd = Some a"
    then have a: "pp_channels p fd = Some a" by simp
    from pp_invE [OF assms(1) a] obtain c i where c: "0 \<le> fd" "h a = Some c" "ch_fd c = fd"
      "event_mask (ch_events c)" "slot p c i" .
    from assms(4) [OF c(2)] obtain r where "h' a = Some (c\<lparr>ch_revents := r\<rparr>)" by blast
    with c slot [of c i r] show "0 \<le> fd \<and> (\<exists>c i. h' a = Some c \<and> ch_fd c = fd \<and> event_mask (ch_events c)
        \<and> slot (p\<lparr>pollfds := fds\<rparr>) c i)" by auto
  next
    fix i assume "i < length (pollfds (p\<lparr>pollfds := fds\<rparr>))"
    then have "i < length (pollfds p)" using len by simp
    from pp_inv_slotE [OF assms(1) this] obtain fd a c where a: "pp_channels p fd = Some a" "h a = Some c" "slot p c i" .
    from assms(4) [OF a(2)] a show
      "\<exists>fd a c. pp_channels (p\<lparr>pollfds := fds\<rparr>) fd = Some a \<and> h' a = Some c \<and> ch_index c = int i"
      by (intro exI [of _ fd] exI [of _ a]) (auto simp: slot_def)
  qed
qed

lemma poll_entry:
  assumes "pp_inv p h" and "map pfd_fd fds = map pfd_fd (pollfds p)" and "i < length fds" and "0 \<le> pfd_fd (fds ! i)"
  shows "\<exists>a c. pp_channels p (pfd_fd (fds ! i)) = Some a \<and> h a = Some c \<and> ch_fd c = pfd_fd (fds ! i) \<and> ch_index c = int i"
proof -
  have i: "i < length (pollfds p)" using assms(3) map_eq_imp_length_eq [OF assms(2)] by simp
  then have fd: "pfd_fd (fds ! i) = pfd_fd (pollfds p ! i)" using assms(2,3) by (metis nth_map)
  from pp_inv_slotE [OF assms(1) i] obtain fd a c where "pp_channels p fd = Some a" "h a = Some c" "ch_fd c = fd"
    "0 \<le> fd" "slot p c i" .
  with fd assms(4) show ?thesis by (auto simp: slot_def pfd_for_def)
qed

lemma PollPoller_poll_ready:
  assumes inv: "pp_inv p h" and maps: "map pfd_fd fds = map pfd_fd (pollfds p)" "map pfd_events fds = map pfd_events (pollfds p)"
    and n: "n = int (length (filter ready fds))" and pos: "\<forall>q \<in> set fds. ready q \<longrightarrow> 0 \<le> pfd_fd q"
    and act: "act = map (\<lambda>q. the (pp_channels p (pfd_fd q))) (filter ready fds)"
  shows "\<exists>h'. PollPoller_fillActiveChannels n fds (pp_channels p) (act0, h) = Inr (act0 @ act, h')
     \<and> distinct act \<and> pp_inv (p\<lparr>pollfds := fds\<rparr>) h'
     \<and> (\<forall>a. a \<in> set act \<longleftrightarrow> (\<exists>fd c. pp_channels p fd = Some a \<and> h a = Some c \<and> ready (fds ! nat (ch_index c))))
     \<and> (\<forall>a c. h a = Some c \<longrightarrow>
          h' a = Some (if a \<in> set act then set_revents (scast (pfd_revents (fds ! nat (ch_index c)))) c else c))"
proof -
  let ?a = "\<lambda>q. the (pp_channels p (pfd_fd q))"
  let ?h = "fold (mark (pp_channels p)) (filter ready fds) h"
  have entry: "\<exists>a c. pp_channels p (pfd_fd (fds ! i)) = Some a \<and> h a = Some c \<and> ch_fd c = pfd_fd (fds ! i)
      \<and> ch_index c = int i" if "i < length fds" "ready (fds ! i)" for i
    using poll_entry [OF inv maps(1) that(1)] pos that by simp
  have fill: "PollPoller_fillActiveChannels n fds (pp_channels p) (act0, h) = Inr (act0 @ act, ?h)"
    unfolding act
  proof (rule fillActiveChannels_marks [OF n])
    fix q assume q: "q \<in> set fds" "ready q"
    then obtain i where "i < length fds" "fds ! i = q" by (auto simp: in_set_conv_nth)
    with entry [of i] q(2) show "\<exists>a c. pp_channels p (pfd_fd q) = Some a \<and> h a = Some c \<and> ch_fd c = pfd_fd q" by auto
  qed
  have dist: "distinct act" unfolding act
  proof (rule distinct_map_filterI)
    fix i j assume "i < j" "j < length fds" "ready (fds ! i)" "ready (fds ! j)"
    with entry [of i] entry [of j] show "?a (fds ! i) \<noteq> ?a (fds ! j)" by auto
  qed
  have mem: "a \<in> set act \<longleftrightarrow> (\<exists>i. i < length fds \<and> ready (fds ! i) \<and> ?a (fds ! i) = a)" for a
    unfolding act by (auto simp: in_set_conv_nth image_iff; metis nth_mem)
  have act_iff: "a \<in> set act \<longleftrightarrow> (\<exists>fd c. pp_channels p fd = Some a \<and> h a = Some c \<and> ready (fds ! nat (ch_index c)))" for a
  proof
    assume "a \<in> set act"
    then show "\<exists>fd c. pp_channels p fd = Some a \<and> h a = Some c \<and> ready (fds ! nat (ch_index c))"
      using mem [of a] entry by fastforce
  next
    assume "\<exists>fd c. pp_channels p fd = Some a \<and> h a = Some c \<and> ready (fds ! nat (ch_index c))"
    then obtain fd c where c: "pp_channels p fd = Some a" "h a = Some c" "ready (fds ! nat (ch_index c))" by blast
    from pp_invE [OF inv c(1)] c(2) obtain i where i: "ch_fd c = fd" "slot p c i" by auto
    then have l: "i < length fds" "ready (fds ! i)"
      using map_eq_imp_length_eq [OF maps(1)] c(3) by (simp_all add: slot_def)
    from entry [OF l] obtain b d where b: "pp_channels p (pfd_fd (fds ! i)) = Some b" "h b = Some d"
      "ch_index d = int i" by blast
    then have "b = a" using slot_distinct [OF inv c(1) b(1) _ c(2) b(2)] i(2) by (auto simp: slot_def)
    with l b(1) mem show "a \<in> set act" by auto
  qed
  have heap: "?h a = Some (if a \<in> set act then set_revents (scast (pfd_revents (fds ! nat (ch_index c)))) c else c)"
    if c: "h a = Some c" for a c
  proof (cases "a \<in> set act")
    case True
    then obtain i where i: "i < length fds" "ready (fds ! i)" "?a (fds ! i) = a" using mem by blast
    with entry [of i] c have idx: "ch_index c = int i" by auto
    have "fds ! i \<in> set (filter ready fds)" using i by simp
    from fold_mark_same [OF dist [unfolded act] this] i c idx True show ?thesis by simp
  next
    case False
    then have "a \<notin> ?a ` set (filter ready fds)" unfolding act by simp
    from fold_mark_other [OF this] c False show ?thesis by simp
  qed
  have "pp_inv (p\<lparr>pollfds := fds\<rparr>) ?h"
  proof (rule pp_inv_revents [OF inv maps])
    fix a c assume "h a = Some c"
    moreover have "\<exists>r. c = c\<lparr>ch_revents := r\<rparr>" by (rule exI [of _ "ch_revents c"]) simp
    ultimately show "\<exists>r. ?h a = Some (c\<lparr>ch_revents := r\<rparr>)" using heap [of a c] by (auto simp: set_revents_def)
  qed
  with fill dist act_iff heap show ?thesis by blast
qed

section \<open>Properties\<close>

definition sample_chans :: chans where
  "sample_chans = [1 \<mapsto> Channel_new 9 5, 2 \<mapsto> Channel_new 9 6, 3 \<mapsto> Channel_new 9 7]"

definition sample_ops :: "(chan_op \<times> addr) list" where
  "sample_ops = [(Enable_reading, 1), (Enable_reading, 2), (Enable_writing, 3), (Enable_writing, 2),
     (Disable_reading, 1), (Remove, 1)]"

lemma sample_fresh: "fresh_channels sample_chans"
  by (simp add: fresh_channels_def sample_chans_def Channel_new_def)

lemma sample_run: "\<exists>\<sigma>. spec_run (fd_of sample_chans) sample_ops (all_fresh sample_chans) = Some \<sigma>
    \<and> \<sigma> 1 = Some Gone \<and> \<sigma> 2 = Some (Live 7 False) \<and> \<sigma> 3 = Some (Live 4 False)"
  by (auto simp: sample_ops_def spec_op_def live_on_def all_fresh_def sample_chans_def fd_of_def
      Channel_new_def event_masks split: if_splits)

lemma PollPoller_new_inv: "pp_inv PollPoller_new h" "pp_channels PollPoller_new = Map.empty"
  by (simp_all add: pp_inv_def PollPoller_new_def)

text \<open>
  C7. \<^verbatim>\<open>PollPoller\<close> against the life of its channels: however a loop's channels are enabled,
  disabled and removed, as long as a channel is removed only after it was registered and then
  disabled, no assertion of \<^verbatim>\<open>updateChannel\<close> and \<^verbatim>\<open>removeChannel\<close> fails, the positions stay
  consistent through every swap with the last entry, and the kernel is asked to watch exactly the
  live channels with a non-empty mask, each with its own mask.
\<close>

theorem poll_poller_refines:
  assumes "fresh_channels h" and "spec_run (fd_of h) ops (all_fresh h) = Some \<sigma>"
  shows "\<exists>p' h'. for_each (chan_op_call (PollPoller_updateChannel True) (PollPoller_removeChannel True)) ops
      (PollPoller_new, h) = Inr (p', h') \<and> pp_inv p' h'
    \<and> (\<forall>fd a e. pp_monitored p' fd = Some (a, e) \<longleftrightarrow>
         fd_of h a = fd \<and> (\<exists>r. \<sigma> a = Some (Live e r)) \<and> e \<noteq> 0)"
  using poll_poller.fresh_run [OF PollPoller_new_inv assms] .

theorem poll_poller_refines_witness:
  "\<exists>p' h'. for_each (chan_op_call (PollPoller_updateChannel True) (PollPoller_removeChannel True)) sample_ops
      (PollPoller_new, sample_chans) = Inr (p', h') \<and> pp_monitored p' 6 = Some (2, 7) \<and> pp_monitored p' 7 = Some (3, 4)"
proof -
  from sample_run obtain \<sigma> where \<sigma>: "spec_run (fd_of sample_chans) sample_ops (all_fresh sample_chans) = Some \<sigma>"
    "\<sigma> 2 = Some (Live 7 False)" "\<sigma> 3 = Some (Live 4 False)" by blast
  have "fd_of sample_chans 2 = 6" "fd_of sample_chans 3 = 7"
    by (simp_all add: fd_of_def sample_chans_def Channel_new_def)
  with poll_poller_refines [OF sample_fresh \<sigma>(1)] \<sigma> show ?thesis by fastforce
qed

text \<open>
  \<^verbatim>\<open>PollPoller::poll\<close> reports readiness faithfully: given what \<^verbatim>\<open>poll(2)\<close> documents, none of its
  assertions fails, the channels it appends are exactly the registered ones whose entry has events,
  each once, each with the events the kernel returned for its own entry; every other channel and
  the poller's bookkeeping are unchanged.
\<close>

theorem poll_reports_ready:
  assumes "pp_inv p h" and "poll_ok call" and "call (pollfds p) timeoutMs = (n, fds)"
  shows "\<exists>act h'. PollPoller_poll call now timeoutMs act0 (p, h) = Inr (now, act0 @ act, p\<lparr>pollfds := fds\<rparr>, h')
    \<and> distinct act \<and> pp_inv (p\<lparr>pollfds := fds\<rparr>) h'
    \<and> (\<forall>a. a \<in> set act \<longleftrightarrow> 0 < n \<and> (\<exists>fd c. pp_channels p fd = Some a \<and> h a = Some c \<and> ready (fds ! nat (ch_index c))))
    \<and> (\<forall>a c. h a = Some c \<longrightarrow>
         h' a = Some (if a \<in> set act then set_revents (scast (pfd_revents (fds ! nat (ch_index c)))) c else c))"
proof -
  from assms(2,3) have maps: "map pfd_fd fds = map pfd_fd (pollfds p)" "map pfd_events fds = map pfd_events (pollfds p)"
    and n: "0 < n \<longrightarrow> n = int (length (filter ready fds)) \<and> (\<forall>q \<in> set fds. ready q \<longrightarrow> 0 \<le> pfd_fd q)"
    unfolding poll_ok_def by (fastforce dest!: spec [of _ "pollfds p"] spec [of _ timeoutMs])+
  show ?thesis
  proof (cases "0 < n")
    case True
    with n have n': "n = int (length (filter ready fds))" "\<forall>q \<in> set fds. ready q \<longrightarrow> 0 \<le> pfd_fd q" by blast+
    from PollPoller_poll_ready [OF assms(1) maps n' refl, of act0] True assms(3) show ?thesis
      by (auto simp: PollPoller_poll_def)
  next
    case False
    have "\<exists>r. c = c\<lparr>ch_revents := r\<rparr>" for c :: Channel by (rule exI [of _ "ch_revents c"]) simp
    then have "pp_inv (p\<lparr>pollfds := fds\<rparr>) h" by (intro pp_inv_revents [OF assms(1) maps]) auto
    with False assms(3) show ?thesis by (intro exI [of _ "[]"] exI [of _ h]) (simp add: PollPoller_poll_def)
  qed
qed

text \<open>A kernel that finds every watched descriptor readable, and a poller with one parked channel.\<close>

definition all_readable :: poll_call where
  "all_readable fds t = (let fds' = map (\<lambda>q. q\<lparr>pfd_revents := if 0 \<le> pfd_fd q then 1 else 0\<rparr>) fds
     in (int (length (filter ready fds')), fds'))"

definition sample_poller :: PollPoller where
  "sample_poller = \<lparr>pollfds = [\<lparr>pfd_fd = -6, pfd_events = 0, pfd_revents = 0\<rparr>,
      \<lparr>pfd_fd = 6, pfd_events = 3, pfd_revents = 0\<rparr>], pp_channels = [5 \<mapsto> 1, 6 \<mapsto> 2]\<rparr>"

definition sample_registered :: chans where
  "sample_registered = [1 \<mapsto> (Channel_new 9 5)\<lparr>ch_index := 0\<rparr>,
     2 \<mapsto> (Channel_new 9 6)\<lparr>ch_index := 1, ch_events := 3\<rparr>]"

lemma all_readable_ok: "poll_ok all_readable"
  by (auto simp: poll_ok_def all_readable_def Let_def ready_def)

lemma sample_poller_inv: "pp_inv sample_poller sample_registered"
proof (rule pp_invI)
  fix fd a assume "pp_channels sample_poller fd = Some a"
  then have "fd = 5 \<and> a = 1 \<or> fd = 6 \<and> a = 2" by (auto simp: sample_poller_def split: if_splits)
  moreover have "slot sample_poller ((Channel_new 9 5)\<lparr>ch_index := 0\<rparr>) 0"
    "slot sample_poller ((Channel_new 9 6)\<lparr>ch_index := 1, ch_events := 3\<rparr>) 1"
    by (simp_all add: slot_def pfd_for_def sample_poller_def Channel_new_def)
  ultimately show "0 \<le> fd \<and> (\<exists>c i. sample_registered a = Some c \<and> ch_fd c = fd \<and> event_mask (ch_events c)
      \<and> slot sample_poller c i)"
    by (auto simp: sample_registered_def Channel_new_def event_mask_iff)
next
  fix i assume "i < length (pollfds sample_poller)"
  then have "i = 0 \<or> i = 1" by (auto simp: sample_poller_def)
  then show "\<exists>fd a c. pp_channels sample_poller fd = Some a \<and> sample_registered a = Some c \<and> ch_index c = int i"
    by (elim disjE) (rule exI [of _ 5] exI [of _ 6]; simp add: sample_poller_def sample_registered_def)+
qed

theorem poll_reports_ready_witness:
  "\<exists>h'. PollPoller_poll all_readable 77 10000 [] (sample_poller, sample_registered)
      = Inr (77, [2], sample_poller\<lparr>pollfds := snd (all_readable (pollfds sample_poller) 10000)\<rparr>, h')
    \<and> (\<exists>c. h' 2 = Some c \<and> ch_revents c = POLLIN)"
proof -
  let ?fds = "[\<lparr>pfd_fd = -6, pfd_events = 0, pfd_revents = 0\<rparr>, \<lparr>pfd_fd = 6, pfd_events = 3, pfd_revents = 1\<rparr>]"
  have call: "all_readable (pollfds sample_poller) 10000 = (1, ?fds)"
    by (simp add: all_readable_def sample_poller_def ready_def)
  from poll_reports_ready [OF sample_poller_inv all_readable_ok call, of 77 "[]"] obtain act h' where
    r: "PollPoller_poll all_readable 77 10000 [] (sample_poller, sample_registered)
        = Inr (77, act, sample_poller\<lparr>pollfds := ?fds\<rparr>, h')" "distinct act"
      "\<forall>a. a \<in> set act \<longleftrightarrow> (\<exists>fd c. pp_channels sample_poller fd = Some a \<and> sample_registered a = Some c
          \<and> ready (?fds ! nat (ch_index c)))"
      "\<forall>a c. sample_registered a = Some c \<longrightarrow>
         h' a = Some (if a \<in> set act then set_revents (scast (pfd_revents (?fds ! nat (ch_index c)))) c else c)"
    by auto
  have "a \<in> set act \<longleftrightarrow> a = 2" for a
    using r(3) by (auto simp: sample_poller_def sample_registered_def ready_def split: if_splits intro!: exI [of _ 6])
  then have "set act = {2}" by auto
  with r(2) have "act = [2]" by (cases act; cases "tl act") auto
  with r(1,4) call show ?thesis by (simp add: sample_registered_def set_revents_def poll_bits)
qed

end
