(* ===== verification/Muduo_EPoller.thy ===== *)
theory Muduo_EPoller
  imports Muduo_Poller
begin

text \<open>
  The default poller (\<^verbatim>\<open>net/poller/EPollPoller.cc\<close>, \<^verbatim>\<open>net/poller/DefaultPoller.cc\<close>), over
  \<^verbatim>\<open>epoll(4)\<close>. The kernel side is a parameter: \<open>ctl\<close> is \<^verbatim>\<open>epoll_ctl\<close> and \<open>wait\<close> is
  \<^verbatim>\<open>epoll_wait\<close> on a kernel state \<open>'k\<close>, and \<open>interest\<close> reads the interest list of the epoll
  descriptor from it. \<open>epoll_ctl_ok\<close> and \<open>epoll_wait_ok\<close> state what their manual pages document.
  Under them the poller satisfies the same contract as \<^verbatim>\<open>PollPoller\<close>.
\<close>

section \<open>Model\<close>

datatype ctl_op = EPOLL_CTL_ADD | EPOLL_CTL_DEL | EPOLL_CTL_MOD

record epoll_event =
  ev_events :: event_bits
  ev_ptr :: addr

type_synonym 'k epoll_ctl_call = "ctl_op \<Rightarrow> int \<Rightarrow> epoll_event \<Rightarrow> 'k \<Rightarrow> int \<times> 'k"
type_synonym 'k epoll_wait_call = "nat \<Rightarrow> int \<Rightarrow> 'k \<Rightarrow> int \<times> epoll_event list \<times> 'k"

record 'k EPollPoller =
  ep_kernel :: 'k
  ep_channels :: "int \<Rightarrow> addr option"
  ep_events :: "epoll_event list"

definition kNew :: int where "kNew = -1"
definition kAdded :: int where "kAdded = 1"
definition kDeleted :: int where "kDeleted = 2"

lemmas index_states = kNew_def kAdded_def kDeleted_def

definition kInitEventListSize :: nat where "kInitEventListSize = 16"

definition zero_event :: epoll_event where "zero_event = \<lparr>ev_events = 0, ev_ptr = 0\<rparr>"

text \<open>The constructor, on the result of \<^verbatim>\<open>epoll_create1\<close>: a descriptor and the kernel state.\<close>

definition EPollPoller_new :: "int \<times> 'k \<Rightarrow> 'k EPollPoller outcome" where
  "EPollPoller_new created = (case created of (epollfd, k) \<Rightarrow>
     if epollfd < 0 then Inl (Log_fatal ''EPollPoller::EPollPoller'')
     else Inr \<lparr>ep_kernel = k, ep_channels = Map.empty, ep_events = replicate kInitEventListSize zero_event\<rparr>)"

definition operationToString :: "ctl_op \<Rightarrow> string" where
  "operationToString op = (case op of EPOLL_CTL_ADD \<Rightarrow> ''ADD'' | EPOLL_CTL_DEL \<Rightarrow> ''DEL'' | EPOLL_CTL_MOD \<Rightarrow> ''MOD'')"

definition EPollPoller_update ::
  "'k epoll_ctl_call \<Rightarrow> ctl_op \<Rightarrow> addr \<Rightarrow> 'k EPollPoller \<times> chans \<Rightarrow> ('k EPollPoller \<times> chans) outcome" where
  "EPollPoller_update ctl operation a s = (case s of (p, h) \<Rightarrow>
     with_channel a h (\<lambda>c.
       case ctl operation (ch_fd c) \<lparr>ev_events = ch_events c, ev_ptr = a\<rparr> (ep_kernel p) of (r, k) \<Rightarrow>
         if r < 0 \<and> operation \<noteq> EPOLL_CTL_DEL
         then Inl (Log_fatal (''epoll_ctl op ='' @ operationToString operation))
         else Inr (p\<lparr>ep_kernel := k\<rparr>, h)))"

definition EPollPoller_updateChannel :: "'k epoll_ctl_call \<Rightarrow> bool \<Rightarrow> 'k EPollPoller chan_call" where
  "EPollPoller_updateChannel ctl inLoop a s = (case s of (p, h) \<Rightarrow>
     assertInLoopThread inLoop (with_channel a h (\<lambda>c.
       let index = ch_index c; fd = ch_fd c in
       if index = kNew \<or> index = kDeleted then
         andThen
           (if index = kNew then
              assert_that (ep_channels p fd = None) ''channels_.find(fd) == channels_.end()''
                (Inr (p\<lparr>ep_channels := (ep_channels p)(fd \<mapsto> a)\<rparr>))
            else
              assert_that (ep_channels p fd \<noteq> None) ''channels_.find(fd) != channels_.end()''
                (assert_that (ep_channels p fd = Some a) ''channels_[fd] == channel'' (Inr p)))
           (\<lambda>p. EPollPoller_update ctl EPOLL_CTL_ADD a (p, h(a \<mapsto> set_index kAdded c)))
       else
         assert_that (ep_channels p fd \<noteq> None) ''channels_.find(fd) != channels_.end()''
           (assert_that (ep_channels p fd = Some a) ''channels_[fd] == channel''
             (assert_that (index = kAdded) ''index == kAdded''
               (if isNoneEvent c then
                  andThen (EPollPoller_update ctl EPOLL_CTL_DEL a (p, h))
                    (\<lambda>(p, h). with_channel a h (\<lambda>c. Inr (p, h(a \<mapsto> set_index kDeleted c))))
                else EPollPoller_update ctl EPOLL_CTL_MOD a (p, h)))))))"

definition EPollPoller_removeChannel :: "'k epoll_ctl_call \<Rightarrow> bool \<Rightarrow> 'k EPollPoller chan_call" where
  "EPollPoller_removeChannel ctl inLoop a s = (case s of (p, h) \<Rightarrow>
     assertInLoopThread inLoop (with_channel a h (\<lambda>c.
       let index = ch_index c; fd = ch_fd c in
       assert_that (ep_channels p fd \<noteq> None) ''channels_.find(fd) != channels_.end()''
        (assert_that (ep_channels p fd = Some a) ''channels_[fd] == channel''
          (assert_that (isNoneEvent c) ''channel->isNoneEvent()''
            (assert_that (index = kAdded \<or> index = kDeleted) ''index == kAdded || index == kDeleted''
              (let p' = p\<lparr>ep_channels := (ep_channels p)(fd := None)\<rparr> in
               andThen
                 (if index = kAdded then EPollPoller_update ctl EPOLL_CTL_DEL a (p', h) else Inr (p', h))
                 (\<lambda>(p, h). with_channel a h (\<lambda>c. Inr (p, h(a \<mapsto> set_index kNew c)))))))))))"

text \<open>
  One round of the loop of \<^verbatim>\<open>fillActiveChannels\<close>, with the checks of its debug block.
\<close>

definition fill_one ::
  "(int \<Rightarrow> addr option) \<Rightarrow> epoll_event \<Rightarrow> addr list \<times> chans \<Rightarrow> (addr list \<times> chans) outcome" where
  "fill_one channels ev s = (case s of (act, h) \<Rightarrow>
     with_channel (ev_ptr ev) h (\<lambda>c.
       assert_that (channels (ch_fd c) \<noteq> None) ''it != channels_.end()''
        (assert_that (channels (ch_fd c) = Some (ev_ptr ev)) ''it->second == channel''
          (Inr (act @ [ev_ptr ev], h(ev_ptr ev \<mapsto> set_revents (ev_events ev) c))))))"

definition EPollPoller_fillActiveChannels ::
  "nat \<Rightarrow> 'k EPollPoller \<Rightarrow> addr list \<times> chans \<Rightarrow> (addr list \<times> chans) outcome" where
  "EPollPoller_fillActiveChannels numEvents p s =
     assert_that (numEvents \<le> length (ep_events p)) ''numEvents <= events_.size()''
       (for_each (fill_one (ep_channels p)) (take numEvents (ep_events p)) s)"

definition EPollPoller_poll ::
  "'k epoll_wait_call \<Rightarrow> int \<Rightarrow> int \<Rightarrow> addr list \<Rightarrow> 'k EPollPoller \<times> chans
     \<Rightarrow> (int \<times> addr list \<times> 'k EPollPoller \<times> chans) outcome" where
  "EPollPoller_poll wait now timeoutMs activeChannels s = (case s of (p, h) \<Rightarrow>
     (case wait (length (ep_events p)) timeoutMs (ep_kernel p) of (numEvents, evs, k) \<Rightarrow>
       let p1 = p\<lparr>ep_kernel := k, ep_events := evs @ drop (length evs) (ep_events p)\<rparr>
       in if numEvents > 0
          then andThen (EPollPoller_fillActiveChannels (nat numEvents) p1 (activeChannels, h))
                 (\<lambda>(act, h').
                   Inr (now, act,
                     (if nat numEvents = length (ep_events p1)
                      then p1\<lparr>ep_events := ep_events p1 @ replicate (length (ep_events p1)) zero_event\<rparr>
                      else p1), h'))
          else Inr (now, activeChannels, p1, h)))"

text \<open>
  The choice of the poller: \<open>env\<close> tells whether \<^verbatim>\<open>MUDUO_USE_POLL\<close> is set.
\<close>

definition newDefaultPoller :: "bool \<Rightarrow> int \<times> 'k \<Rightarrow> (PollPoller + 'k EPollPoller) outcome" where
  "newDefaultPoller env created =
     (if env then Inr (Inl PollPoller_new) else andThen (EPollPoller_new created) (\<lambda>p. Inr (Inr p)))"

section \<open>The kernel interface\<close>

text \<open>
  \<^verbatim>\<open>epoll_ctl\<close>: adding a descriptor that is on the interest list, and changing or deleting one
  that is not, fail and change nothing; otherwise the call does what its name says. (Resources are
  assumed not to run out.)
\<close>

definition epoll_ctl_ok :: "('k \<Rightarrow> int \<Rightarrow> epoll_event option) \<Rightarrow> 'k epoll_ctl_call \<Rightarrow> bool" where
  "epoll_ctl_ok interest ctl \<longleftrightarrow> (\<forall>op fd ev k. case ctl op fd ev k of (r, k') \<Rightarrow>
     (if (op = EPOLL_CTL_ADD) = (interest k fd = None)
      then r = 0 \<and> interest k' = (interest k)(fd := if op = EPOLL_CTL_DEL then None else Some ev)
      else r < 0 \<and> interest k' = interest k))"

text \<open>
  \<^verbatim>\<open>epoll_wait\<close>: a positive result is the number of events stored, at most as many as asked for,
  each with the user data of a descriptor on the interest list, no descriptor twice; the interest
  list does not change.
\<close>

definition epoll_wait_ok :: "('k \<Rightarrow> int \<Rightarrow> epoll_event option) \<Rightarrow> 'k epoll_wait_call \<Rightarrow> bool" where
  "epoll_wait_ok interest wait \<longleftrightarrow> (\<forall>maxevents t k. case wait maxevents t k of (n, evs, k') \<Rightarrow>
     interest k' = interest k \<and> length evs = nat n \<and> length evs \<le> maxevents
     \<and> (\<exists>fds. length fds = length evs \<and> distinct fds
          \<and> (\<forall>i < length evs. \<exists>e. interest k (fds ! i) = Some e \<and> ev_ptr e = ev_ptr (evs ! i))))"

lemma epoll_ctl_case:
  assumes "epoll_ctl_ok interest ctl" and "(op = EPOLL_CTL_ADD) = (interest k fd = None)"
  shows "\<exists>k'. ctl op fd ev k = (0, k')
    \<and> interest k' = (interest k)(fd := if op = EPOLL_CTL_DEL then None else Some ev)"
proof -
  from assms(1) have "case ctl op fd ev k of (r, k') \<Rightarrow>
     (if (op = EPOLL_CTL_ADD) = (interest k fd = None)
      then r = 0 \<and> interest k' = (interest k)(fd := if op = EPOLL_CTL_DEL then None else Some ev)
      else r < 0 \<and> interest k' = interest k)"
    unfolding epoll_ctl_ok_def by (elim allE)
  with assms(2) show ?thesis by (cases "ctl op fd ev k") simp
qed

section \<open>The contract\<close>

definition ep_entry :: "epoll_event option \<Rightarrow> addr \<Rightarrow> Channel \<Rightarrow> bool" where
  "ep_entry i a c \<longleftrightarrow> (ch_index c = kAdded \<and> i = Some \<lparr>ev_events = ch_events c, ev_ptr = a\<rparr>)
     \<or> (ch_index c = kDeleted \<and> i = None \<and> ch_events c = 0)"

definition ep_inv :: "('k \<Rightarrow> int \<Rightarrow> epoll_event option) \<Rightarrow> 'k EPollPoller \<Rightarrow> chans \<Rightarrow> bool" where
  "ep_inv interest p h \<longleftrightarrow>
     (\<forall>fd a. ep_channels p fd = Some a \<longrightarrow>
        (\<exists>c. h a = Some c \<and> ch_fd c = fd \<and> ep_entry (interest (ep_kernel p) fd) a c))
   \<and> (\<forall>fd. ep_channels p fd = None \<longrightarrow> interest (ep_kernel p) fd = None)"

definition ep_monitored :: "('k \<Rightarrow> int \<Rightarrow> epoll_event option) \<Rightarrow> 'k EPollPoller \<Rightarrow> int \<Rightarrow> (addr \<times> event_bits) option" where
  "ep_monitored interest p fd = (case interest (ep_kernel p) fd of None \<Rightarrow> None
     | Some e \<Rightarrow> if ev_events e = 0 then None else Some (ev_ptr e, ev_events e))"

lemma ep_invE:
  assumes "ep_inv interest p h" and "ep_channels p fd = Some a"
  obtains c where "h a = Some c" "ch_fd c = fd" "ep_entry (interest (ep_kernel p) fd) a c"
  using assms unfolding ep_inv_def by blast

lemma ep_invD: "ep_inv interest p h \<Longrightarrow> ep_channels p fd = None \<Longrightarrow> interest (ep_kernel p) fd = None"
  by (simp add: ep_inv_def)

text \<open>An operation on the channel \<open>a\<close> of descriptor \<open>fd\<close> keeps the invariant of the others.\<close>

lemma ep_inv_step:
  assumes inv: "ep_inv interest p h" and k: "interest (ep_kernel p') = (interest (ep_kernel p))(fd := e)"
    and ch: "ep_channels p' = (ep_channels p)(fd := r)" and h: "\<And>b. b \<noteq> a \<Longrightarrow> h' b = h b"
    and only: "\<And>fd'. fd' \<noteq> fd \<Longrightarrow> ep_channels p fd' \<noteq> Some a"
    and "r = None \<and> e = None \<or> (\<exists>c. r = Some a \<and> h' a = Some c \<and> ch_fd c = fd \<and> ep_entry e a c)"
  shows "ep_inv interest p' h'"
  unfolding ep_inv_def
proof (intro conjI allI impI)
  fix fd' b assume b: "ep_channels p' fd' = Some b"
  show "\<exists>c. h' b = Some c \<and> ch_fd c = fd' \<and> ep_entry (interest (ep_kernel p') fd') b c"
  proof (cases "fd' = fd")
    case True
    then show ?thesis using b assms(6) by (auto simp: k ch)
  next
    case False
    with b have b': "ep_channels p fd' = Some b" by (simp add: ch)
    moreover have "b \<noteq> a" using only [OF False] b' by auto
    moreover obtain c where "h b = Some c" "ch_fd c = fd'" "ep_entry (interest (ep_kernel p) fd') b c"
      using ep_invE [OF inv b'] .
    ultimately show ?thesis using False h [of b] by (auto simp: k)
  qed
next
  fix fd' assume "ep_channels p' fd' = None"
  then show "interest (ep_kernel p') fd' = None"
    using ep_invD [OF inv, of fd'] assms(6) by (auto simp: k ch split: if_splits)
qed

lemma ep_only:
  assumes "ep_inv interest p h" and "h a = Some c" and "fd' \<noteq> ch_fd c"
  shows "ep_channels p fd' \<noteq> Some a"
  using ep_invE [OF assms(1), of fd' a] assms(2,3) by fastforce

text \<open>Every registered channel can be removed, whether or not the kernel still watches it.\<close>

definition ep_removable :: "'k EPollPoller \<Rightarrow> chans \<Rightarrow> addr \<Rightarrow> bool" where
  "ep_removable p h a \<longleftrightarrow> (\<exists>c. h a = Some c \<and> ep_channels p (ch_fd c) = Some a)"

lemma ep_removable_frame:
  assumes "ep_removable p h b" and "b \<noteq> a" and "ep_channels p' = (ep_channels p)(fd := r)"
    and "\<And>b. b \<noteq> a \<Longrightarrow> h' b = h b" and "ep_channels p fd = None \<or> ep_channels p fd = Some a"
  shows "ep_removable p' h' b"
  using assms by (auto simp: ep_removable_def)

lemma ep_monitored_inv:
  assumes "ep_inv interest p h"
  shows "ep_monitored interest p fd = (case ep_channels p fd of None \<Rightarrow> None
    | Some a \<Rightarrow> (case h a of None \<Rightarrow> None
        | Some c \<Rightarrow> if ch_events c = 0 then None else Some (a, ch_events c)))"
proof (cases "ep_channels p fd")
  case None
  then show ?thesis using ep_invD [OF assms None] by (simp add: ep_monitored_def)
next
  case (Some a)
  from ep_invE [OF assms Some] show ?thesis
    by (rule) (auto simp: Some ep_monitored_def ep_entry_def)
qed

lemma ep_update_new:
  assumes ctl: "epoll_ctl_ok interest ctl" and inv: "ep_inv interest p h"
    and a: "h a = Some c" "ch_index c = -1" "ep_channels p (ch_fd c) = None"
    and h1: "h1 = h(a \<mapsto> c\<lparr>ch_events := ev, ch_addedToLoop := x\<rparr>)"
  shows "\<exists>p' h'. EPollPoller_updateChannel ctl True a (p, h1) = Inr (p', h') \<and> ep_inv interest p' h'
    \<and> ep_channels p' = (ep_channels p)(ch_fd c \<mapsto> a) \<and> reindexed {a} h1 h'
    \<and> (\<forall>b. b \<noteq> a \<longrightarrow> ep_removable p h b \<longrightarrow> ep_removable p' h' b)"
proof -
  let ?c = "c\<lparr>ch_events := ev, ch_addedToLoop := x\<rparr>"
  let ?h = "h1(a \<mapsto> set_index kAdded ?c)"
  from ep_invD [OF inv a(3)] obtain k where
    k: "ctl EPOLL_CTL_ADD (ch_fd c) \<lparr>ev_events = ev, ev_ptr = a\<rparr> (ep_kernel p) = (0, k)"
      "interest k = (interest (ep_kernel p))(ch_fd c \<mapsto> \<lparr>ev_events = ev, ev_ptr = a\<rparr>)"
    using epoll_ctl_case [OF ctl, of EPOLL_CTL_ADD "ep_kernel p" "ch_fd c"] by fastforce
  let ?p = "p\<lparr>ep_channels := (ep_channels p)(ch_fd c \<mapsto> a), ep_kernel := k\<rparr>"
  have "EPollPoller_updateChannel ctl True a (p, h1) = Inr (?p, ?h)"
    using a k(1) by (simp add: EPollPoller_updateChannel_def EPollPoller_update_def h1 index_states set_index_def)
  moreover have "ep_inv interest ?p ?h"
    by (rule ep_inv_step [OF inv, where fd = "ch_fd c" and a = a])
      (use ep_only [OF inv a(1)] k(2) in \<open>auto simp: h1 set_index_def ep_entry_def\<close>)
  moreover have "reindexed {a} h1 ?h" by (rule reindexed_update) (simp_all add: h1)
  ultimately show ?thesis using ep_removable_frame [of p h _ a ?p "ch_fd c" "Some a" ?h] a by (auto simp: h1)
qed

lemma ep_update_existing:
  assumes ctl: "epoll_ctl_ok interest ctl" and inv: "ep_inv interest p h"
    and a: "h a = Some c" "ep_channels p (ch_fd c) = Some a"
    and h1: "h1 = h(a \<mapsto> c\<lparr>ch_events := ev, ch_addedToLoop := x\<rparr>)"
  shows "\<exists>p' h'. EPollPoller_updateChannel ctl True a (p, h1) = Inr (p', h') \<and> ep_inv interest p' h'
    \<and> ep_channels p' = ep_channels p \<and> reindexed {a} h1 h'
    \<and> (\<forall>b. b \<noteq> a \<longrightarrow> ep_removable p h b \<longrightarrow> ep_removable p' h' b)
    \<and> (ev = 0 \<longrightarrow> ep_removable p' h' a)"
proof -
  let ?c = "c\<lparr>ch_events := ev, ch_addedToLoop := x\<rparr>" and ?e = "\<lparr>ev_events = ev, ev_ptr = a\<rparr>"
  note only = ep_only [OF inv a(1)]
  from ep_invE [OF inv a(2)] a(1) have entry: "ep_entry (interest (ep_kernel p) (ch_fd c)) a c" by auto
  have concl: "?thesis"
    if "EPollPoller_updateChannel ctl True a (p, h1) = Inr (p\<lparr>ep_kernel := k\<rparr>, h1(a \<mapsto> set_index i ?c))"
      "interest k = (interest (ep_kernel p))(ch_fd c := e)" "ep_entry e a (set_index i ?c)" for k i e
  proof -
    have "ep_inv interest (p\<lparr>ep_kernel := k\<rparr>) (h1(a \<mapsto> set_index i ?c))"
      by (rule ep_inv_step [OF inv, where fd = "ch_fd c" and a = a and r = "Some a"])
        (use only that a(2) in \<open>auto simp: h1 set_index_def\<close>)
    moreover have "reindexed {a} h1 (h1(a \<mapsto> set_index i ?c))" by (rule reindexed_update) (simp_all add: h1)
    ultimately show ?thesis using that(1) a by (auto simp: ep_removable_def h1 set_index_def)
  qed
  consider (deleted) "ch_index c = kDeleted" "interest (ep_kernel p) (ch_fd c) = None"
    | (none) "ch_index c = kAdded" "interest (ep_kernel p) (ch_fd c) \<noteq> None" "ev = 0"
    | (some) "ch_index c = kAdded" "interest (ep_kernel p) (ch_fd c) \<noteq> None" "ev \<noteq> 0"
    using entry by (auto simp: ep_entry_def)
  then show ?thesis
  proof cases
    case deleted
    from deleted(2) obtain k where k: "ctl EPOLL_CTL_ADD (ch_fd c) ?e (ep_kernel p) = (0, k)"
      "interest k = (interest (ep_kernel p))(ch_fd c \<mapsto> ?e)" 
      using epoll_ctl_case [OF ctl, of EPOLL_CTL_ADD "ep_kernel p" "ch_fd c"] by fastforce
    show ?thesis
      by (rule concl [OF _ k(2), of kAdded])
        (use deleted a k(1) in \<open>simp_all add: EPollPoller_updateChannel_def EPollPoller_update_def h1 index_states
          set_index_def ep_entry_def\<close>)
  next
    case none
    from none(2) obtain k where k: "ctl EPOLL_CTL_DEL (ch_fd c) ?e (ep_kernel p) = (0, k)"
      "interest k = (interest (ep_kernel p))(ch_fd c := None)" 
      using epoll_ctl_case [OF ctl, of EPOLL_CTL_DEL "ep_kernel p" "ch_fd c"] by fastforce
    show ?thesis
      by (rule concl [OF _ k(2), of kDeleted])
        (use none a k(1) in \<open>simp_all add: EPollPoller_updateChannel_def EPollPoller_update_def h1 index_states
          set_index_def ep_entry_def isNoneEvent_def kNoneEvent_def\<close>)
  next
    case some
    from some(2) obtain k where k: "ctl EPOLL_CTL_MOD (ch_fd c) ?e (ep_kernel p) = (0, k)"
      "interest k = (interest (ep_kernel p))(ch_fd c \<mapsto> ?e)" 
      using epoll_ctl_case [OF ctl, of EPOLL_CTL_MOD "ep_kernel p" "ch_fd c"] by fastforce
    have "set_index kAdded ?c = ?c" using some(1) by (simp add: set_index_def)
    then have same: "h1(a \<mapsto> set_index kAdded ?c) = h1" by (simp only: h1 fun_upd_upd)
    have "EPollPoller_updateChannel ctl True a (p, h1) = Inr (p\<lparr>ep_kernel := k\<rparr>, h1)"
      using some a k(1) by (simp add: EPollPoller_updateChannel_def EPollPoller_update_def h1 index_states
          isNoneEvent_def kNoneEvent_def)
    then show ?thesis by (intro concl [OF _ k(2), of kAdded]) (simp_all add: same, simp add: ep_entry_def set_index_def)
  qed
qed

lemma ep_remove:
  assumes ctl: "epoll_ctl_ok interest ctl" and inv: "ep_inv interest p h"
    and a: "h a = Some c" "ep_channels p (ch_fd c) = Some a" "ch_events c = 0"
    and h1: "h1 = h(a \<mapsto> c\<lparr>ch_addedToLoop := x\<rparr>)"
  shows "\<exists>p' h'. EPollPoller_removeChannel ctl True a (p, h1) = Inr (p', h') \<and> ep_inv interest p' h'
    \<and> ep_channels p' = (ep_channels p)(ch_fd c := None)
    \<and> reindexed (insert a (ran (ep_channels p'))) h1 h'
    \<and> (\<forall>b. b \<noteq> a \<longrightarrow> ep_removable p h b \<longrightarrow> ep_removable p' h' b)"
proof -
  let ?c = "c\<lparr>ch_addedToLoop := x\<rparr>" and ?e = "\<lparr>ev_events = 0, ev_ptr = a\<rparr>"
  let ?h = "h1(a \<mapsto> set_index kNew ?c)"
  from ep_invE [OF inv a(2)] a(1) have entry: "ep_entry (interest (ep_kernel p) (ch_fd c)) a c" by auto
  have "\<exists>k. interest k = (interest (ep_kernel p))(ch_fd c := None)
    \<and> EPollPoller_removeChannel ctl True a (p, h1)
      = Inr (p\<lparr>ep_channels := (ep_channels p)(ch_fd c := None), ep_kernel := k\<rparr>, ?h)"
  proof (cases "ch_index c = kAdded")
    case True
    with entry have "interest (ep_kernel p) (ch_fd c) \<noteq> None" by (auto simp: ep_entry_def index_states)
    then obtain k where k: "ctl EPOLL_CTL_DEL (ch_fd c) ?e (ep_kernel p) = (0, k)"
      "interest k = (interest (ep_kernel p))(ch_fd c := None)"
      using epoll_ctl_case [OF ctl, of EPOLL_CTL_DEL "ep_kernel p" "ch_fd c"] by fastforce
    then show ?thesis using True a
      by (intro exI [of _ k]) (simp add: EPollPoller_removeChannel_def EPollPoller_update_def h1
          isNoneEvent_def kNoneEvent_def)
  next
    case False
    with entry have d: "ch_index c = kDeleted" "interest (ep_kernel p) (ch_fd c) = None" by (auto simp: ep_entry_def)
    then have "interest (ep_kernel p) = (interest (ep_kernel p))(ch_fd c := None)" by auto
    with False d a show ?thesis
      by (intro exI [of _ "ep_kernel p"])
        (simp add: EPollPoller_removeChannel_def h1 isNoneEvent_def kNoneEvent_def)
  qed
  then obtain k where k: "interest k = (interest (ep_kernel p))(ch_fd c := None)"
    "EPollPoller_removeChannel ctl True a (p, h1)
      = Inr (p\<lparr>ep_channels := (ep_channels p)(ch_fd c := None), ep_kernel := k\<rparr>, ?h)" by blast
  let ?p = "p\<lparr>ep_channels := (ep_channels p)(ch_fd c := None), ep_kernel := k\<rparr>"
  have "ep_inv interest ?p ?h"
    by (rule ep_inv_step [OF inv, where fd = "ch_fd c" and a = a and r = None and e = None])
      (use ep_only [OF inv a(1)] k(1) in \<open>auto simp: h1\<close>)
  moreover have "reindexed (insert a (ran (ep_channels ?p))) h1 ?h" by (rule reindexed_update) (simp_all add: h1)
  ultimately show ?thesis
    using k(2) ep_removable_frame [of p h _ a ?p "ch_fd c" None ?h] a by (auto simp: h1)
qed

lemma ep_inv_cong:
  assumes "ep_inv interest p h"
    and "\<And>fd a. ep_channels p fd = Some a \<Longrightarrow> map_option registration (h' a) = map_option registration (h a)"
  shows "ep_inv interest p h'"
proof (unfold ep_inv_def, intro conjI allI impI)
  fix fd a assume a: "ep_channels p fd = Some a"
  from ep_invE [OF assms(1) a] obtain c where c: "h a = Some c" "ch_fd c = fd" "ep_entry (interest (ep_kernel p) fd) a c" .
  from same_registration [of h' a h, OF assms(2) [OF a] c(1)] c(2,3)
  show "\<exists>c. h' a = Some c \<and> ch_fd c = fd \<and> ep_entry (interest (ep_kernel p) fd) a c"
    by (auto simp: ep_entry_def)
qed (rule ep_invD [OF assms(1)])

lemma ep_removable_cong:
  "ep_removable p h a \<Longrightarrow> map_option registration (h' a) = map_option registration (h a) \<Longrightarrow> ep_removable p h' a"
  unfolding ep_removable_def using same_registration [of h' a h] by fastforce

theorem epoll_is_poller:
  assumes "epoll_ctl_ok interest ctl"
  shows "poller (ep_inv interest) ep_channels (ep_monitored interest) ep_removable
    (EPollPoller_updateChannel ctl True) (EPollPoller_removeChannel ctl True)"
proof
  show "ep_inv interest p h \<Longrightarrow> ep_channels p fd = Some a \<Longrightarrow> \<exists>c. h a = Some c \<and> ch_fd c = fd" for p h fd a
    by (erule (1) ep_invE) blast
  show "ep_inv interest p h'" if "ep_inv interest p h"
    and "\<And>fd a. ep_channels p fd = Some a \<Longrightarrow> map_option registration (h' a) = map_option registration (h a)" for p h h'
    using that by (rule ep_inv_cong)
qed (rule ep_monitored_inv ep_removable_cong ep_update_new [OF assms] ep_update_existing [OF assms] ep_remove [OF assms]; assumption)+

section \<open>Waiting\<close>

text \<open>The heap after a list of events was stored in the channels they point to.\<close>

definition store_revents :: "epoll_event \<Rightarrow> chans \<Rightarrow> chans" where
  "store_revents ev h = h(ev_ptr ev := map_option (set_revents (ev_events ev)) (h (ev_ptr ev)))"

lemma for_each_fill:
  assumes "\<And>ev. ev \<in> set evs \<Longrightarrow> \<exists>c. h (ev_ptr ev) = Some c \<and> channels (ch_fd c) = Some (ev_ptr ev)"
  shows "for_each (fill_one channels) evs (act, h) = Inr (act @ map ev_ptr evs, fold store_revents evs h)"
  using assms
proof (induction evs arbitrary: act h)
  case (Cons ev evs)
  from Cons.prems [of ev] obtain c where c: "h (ev_ptr ev) = Some c" "channels (ch_fd c) = Some (ev_ptr ev)" by auto
  have s: "store_revents ev h = h(ev_ptr ev \<mapsto> set_revents (ev_events ev) c)" using c(1) by (simp add: store_revents_def)
  have "\<exists>d. store_revents ev h (ev_ptr x) = Some d \<and> channels (ch_fd d) = Some (ev_ptr x)" if "x \<in> set evs" for x
  proof -
    from Cons.prems [of x] that obtain d where "h (ev_ptr x) = Some d" "channels (ch_fd d) = Some (ev_ptr x)" by auto
    with c show ?thesis by (cases "ev_ptr x = ev_ptr ev") (simp_all add: s set_revents_def)
  qed
  note IH = Cons.IH [OF this, of "act @ [ev_ptr ev]"]
  have "fill_one channels ev (act, h) = Inr (act @ [ev_ptr ev], store_revents ev h)"
    using c by (simp add: fill_one_def s)
  with IH show ?case by simp
qed simp

lemma fold_store_other: "a \<notin> ev_ptr ` set evs \<Longrightarrow> fold store_revents evs h a = h a"
  by (induction evs arbitrary: h) (simp_all add: store_revents_def)

lemma fold_store_same:
  assumes "distinct (map ev_ptr evs)" and "ev \<in> set evs"
  shows "fold store_revents evs h (ev_ptr ev) = map_option (set_revents (ev_events ev)) (h (ev_ptr ev))"
  using assms
proof (induction evs arbitrary: h)
  case (Cons x evs)
  show ?case
  proof (cases "ev = x")
    case True
    have "store_revents x h (ev_ptr x) = map_option (set_revents (ev_events x)) (h (ev_ptr x))"
      by (simp add: store_revents_def)
    with True Cons.prems(1) fold_store_other [of "ev_ptr ev" evs "store_revents x h"] show ?thesis by simp
  next
    case False
    with Cons.prems(2) have ev: "ev \<in> set evs" by simp
    then have "ev_ptr ev \<in> ev_ptr ` set evs" by simp
    with Cons.prems(1) have "ev_ptr ev \<noteq> ev_ptr x" by (simp, metis)
    then have "store_revents x h (ev_ptr ev) = h (ev_ptr ev)" by (simp add: store_revents_def)
    with Cons.IH [OF _ ev, of "store_revents x h"] Cons.prems(1) show ?thesis by simp
  qed
qed simp

lemma ep_inv_revents:
  assumes "ep_inv interest p h" and "\<And>a c. h a = Some c \<Longrightarrow> \<exists>r. h' a = Some (c\<lparr>ch_revents := r\<rparr>)"
    and "ep_channels p' = ep_channels p" and "interest (ep_kernel p') = interest (ep_kernel p)"
  shows "ep_inv interest p' h'"
  unfolding ep_inv_def assms(3,4)
proof (intro conjI allI impI)
  fix fd a assume a: "ep_channels p fd = Some a"
  from ep_invE [OF assms(1) a] obtain c where c: "h a = Some c" "ch_fd c = fd"
    "ep_entry (interest (ep_kernel p) fd) a c" .
  from assms(2) [OF c(1)] obtain r where "h' a = Some (c\<lparr>ch_revents := r\<rparr>)" by blast
  with c show "\<exists>c. h' a = Some c \<and> ch_fd c = fd \<and> ep_entry (interest (ep_kernel p) fd) a c"
    by (auto simp: ep_entry_def)
qed (rule ep_invD [OF assms(1)])

text \<open>A pointer the kernel hands back is that of a registered channel.\<close>

lemma ep_interest_registered:
  assumes "ep_inv interest p h" and "interest (ep_kernel p) fd = Some e"
  shows "ep_channels p fd = Some (ev_ptr e) \<and> (\<exists>c. h (ev_ptr e) = Some c \<and> ch_fd c = fd)"
proof (cases "ep_channels p fd")
  case None
  with ep_invD [OF assms(1)] assms(2) show ?thesis by simp
next
  case (Some a)
  from ep_invE [OF assms(1) Some] obtain c where c: "h a = Some c" "ch_fd c = fd"
    "ep_entry (interest (ep_kernel p) fd) a c" .
  then have "ev_ptr e = a" using assms(2) by (simp add: ep_entry_def)
  with c Some show ?thesis by simp
qed

lemma epoll_wait_registered:
  assumes inv: "ep_inv interest p h" and wait: "epoll_wait_ok interest wait" "wait m t (ep_kernel p) = (n, evs, k)"
  shows "distinct (map ev_ptr evs)" (is ?D)
    and "\<And>ev. ev \<in> set evs \<Longrightarrow> \<exists>c. h (ev_ptr ev) = Some c \<and> ep_channels p (ch_fd c) = Some (ev_ptr ev)"
proof -
  have "case wait m t (ep_kernel p) of (n, evs, k') \<Rightarrow>
      interest k' = interest (ep_kernel p) \<and> length evs = nat n \<and> length evs \<le> m
      \<and> (\<exists>fds. length fds = length evs \<and> distinct fds
        \<and> (\<forall>i < length evs. \<exists>e. interest (ep_kernel p) (fds ! i) = Some e \<and> ev_ptr e = ev_ptr (evs ! i)))"
    using wait(1) unfolding epoll_wait_ok_def by (elim allE)
  with wait(2) obtain fds where fds: "length fds = length evs" "distinct fds"
    "\<forall>i < length evs. \<exists>e. interest (ep_kernel p) (fds ! i) = Some e \<and> ev_ptr e = ev_ptr (evs ! i)" by auto
  have reg: "ep_channels p (fds ! i) = Some (ev_ptr (evs ! i)) \<and> (\<exists>c. h (ev_ptr (evs ! i)) = Some c \<and> ch_fd c = fds ! i)"
    if "i < length evs" for i
  proof -
    from fds(3) that obtain e where "interest (ep_kernel p) (fds ! i) = Some e" "ev_ptr e = ev_ptr (evs ! i)" by blast
    with ep_interest_registered [OF inv, of "fds ! i" e] show ?thesis by simp
  qed
  show "\<exists>c. h (ev_ptr ev) = Some c \<and> ep_channels p (ch_fd c) = Some (ev_ptr ev)" if "ev \<in> set evs" for ev
  proof -
    from that obtain i where "i < length evs" "evs ! i = ev" by (auto simp: in_set_conv_nth)
    with reg [of i] show ?thesis by auto
  qed
  show ?D
    unfolding distinct_conv_nth
  proof (intro allI impI)
    fix i j assume ij: "i < length (map ev_ptr evs)" "j < length (map ev_ptr evs)" "i \<noteq> j"
    then have "fds ! i \<noteq> fds ! j" using fds(1,2) by (simp add: nth_eq_iff_index_eq)
    with reg [of i] reg [of j] ij show "map ev_ptr evs ! i \<noteq> map ev_ptr evs ! j" by auto
  qed
qed

section \<open>Properties\<close>

text \<open>A kernel that keeps its interest list in a table.\<close>

fun table_ctl :: "(int \<Rightarrow> epoll_event option) epoll_ctl_call" where
  "table_ctl EPOLL_CTL_ADD fd ev k = (if k fd = None then (0, k(fd \<mapsto> ev)) else (-1, k))"
| "table_ctl EPOLL_CTL_MOD fd ev k = (if k fd \<noteq> None then (0, k(fd \<mapsto> ev)) else (-1, k))"
| "table_ctl EPOLL_CTL_DEL fd ev k = (if k fd \<noteq> None then (0, k(fd := None)) else (-1, k))"

lemma table_ctl_ok: "epoll_ctl_ok (\<lambda>k. k) table_ctl"
proof -
  have "case table_ctl op fd ev k of (r, k') \<Rightarrow>
     (if (op = EPOLL_CTL_ADD) = (k fd = None)
      then r = 0 \<and> k' = k(fd := if op = EPOLL_CTL_DEL then None else Some ev)
      else r < 0 \<and> k' = k)" for op fd ev k
    by (cases op) auto
  then show ?thesis unfolding epoll_ctl_ok_def by (intro allI)
qed

definition empty_epoll :: "'k \<Rightarrow> 'k EPollPoller" where
  "empty_epoll k = \<lparr>ep_kernel = k, ep_channels = Map.empty, ep_events = replicate kInitEventListSize zero_event\<rparr>"

lemma empty_epoll_inv:
  "interest k = Map.empty \<Longrightarrow> ep_inv interest (empty_epoll k) h" "ep_channels (empty_epoll k) = Map.empty"
  by (simp_all add: ep_inv_def empty_epoll_def)

lemma EPollPoller_new_eq: "0 \<le> epollfd \<Longrightarrow> EPollPoller_new (epollfd, k) = Inr (empty_epoll k)"
  by (simp add: EPollPoller_new_def empty_epoll_def)



lemmas chan_op_defs = chan_op_call_def chan_calls with_events_def Channel_update_def Channel_remove_def
  with_channel_def Channel_new_def isNoneEvent_def event_masks set_index_def Let_def




lemma epoll_wait_okD:
  assumes "epoll_wait_ok interest wait" and "wait m t k = (n, evs, k')"
  shows "interest k' = interest k" "length evs = nat n" "length evs \<le> m"
proof -
  have "case wait m t k of (n, evs, k') \<Rightarrow>
      interest k' = interest k \<and> length evs = nat n \<and> length evs \<le> m
      \<and> (\<exists>fds. length fds = length evs \<and> distinct fds
        \<and> (\<forall>i < length evs. \<exists>e. interest k (fds ! i) = Some e \<and> ev_ptr e = ev_ptr (evs ! i)))"
    using assms(1) unfolding epoll_wait_ok_def by (elim allE)
  with assms(2) show "interest k' = interest k" "length evs = nat n" "length evs \<le> m" by auto
qed

text \<open>
  \<^verbatim>\<open>EPollPoller::poll\<close> reports readiness faithfully: given what \<^verbatim>\<open>epoll_wait\<close> documents, no
  assertion of \<^verbatim>\<open>fillActiveChannels\<close> fails, the pointers it turns into channels are those of
  registered live channels, each reported once and with its own events, no other channel changes,
  and the event vector doubles exactly when the kernel filled it.
\<close>

theorem epoll_reports_ready:
  assumes "ep_inv interest p h" and "epoll_wait_ok interest wait"
    and "wait (length (ep_events p)) timeoutMs (ep_kernel p) = (n, evs, k)"
  shows "\<exists>p' h'. EPollPoller_poll wait now timeoutMs act (p, h) = Inr (now, act @ map ev_ptr evs, p', h')
    \<and> ep_inv interest p' h' \<and> ep_channels p' = ep_channels p \<and> distinct (map ev_ptr evs)
    \<and> (\<forall>ev \<in> set evs. \<exists>c. h (ev_ptr ev) = Some c \<and> ep_channels p (ch_fd c) = Some (ev_ptr ev)
         \<and> h' (ev_ptr ev) = Some (set_revents (ev_events ev) c))
    \<and> (\<forall>a. a \<notin> ev_ptr ` set evs \<longrightarrow> h' a = h a)
    \<and> length (ep_events p') = (if 0 < n \<and> nat n = length (ep_events p) then 2 else 1) * length (ep_events p)"
proof -
  note wait = epoll_wait_okD [OF assms(2,3)] and reg = epoll_wait_registered [OF assms]
  let ?h = "fold store_revents evs h"
  let ?p1 = "p\<lparr>ep_kernel := k, ep_events := evs @ drop (length evs) (ep_events p)\<rparr>"
  have fill: "for_each (fill_one (ep_channels p)) evs (act, h) = Inr (act @ map ev_ptr evs, ?h)"
    by (rule for_each_fill) (rule reg(2))
  have marked: "\<exists>c. h (ev_ptr ev) = Some c \<and> ep_channels p (ch_fd c) = Some (ev_ptr ev)
      \<and> ?h (ev_ptr ev) = Some (set_revents (ev_events ev) c)" if ev: "ev \<in> set evs" for ev
    using reg(2) [OF ev] fold_store_same [OF reg(1) ev] by auto
  have rev: "\<exists>r. ?h a = Some (c\<lparr>ch_revents := r\<rparr>)" if c: "h a = Some c" for a c
  proof (cases "a \<in> ev_ptr ` set evs")
    case True
    then obtain ev where "ev \<in> set evs" "a = ev_ptr ev" by blast
    with marked [of ev] c show ?thesis by (auto simp: set_revents_def)
  next
    case False
    with c fold_store_other [OF False] show ?thesis by (intro exI [of _ "ch_revents c"]) simp
  qed
  have inv: "ep_inv interest p' ?h" if "ep_channels p' = ep_channels p" "ep_kernel p' = k" for p'
    by (rule ep_inv_revents [OF assms(1) rev]) (simp_all add: that wait(1))
  show ?thesis
  proof (cases "0 < n")
    case True
    let ?p' = "if nat n = length (ep_events ?p1)
      then ?p1\<lparr>ep_events := ep_events ?p1 @ replicate (length (ep_events ?p1)) zero_event\<rparr> else ?p1"
    have "EPollPoller_poll wait now timeoutMs act (p, h) = Inr (now, act @ map ev_ptr evs, ?p', ?h)"
      using True wait fill assms(3) by (simp add: EPollPoller_poll_def EPollPoller_fillActiveChannels_def Let_def)
    moreover have "length (ep_events ?p') = (if 0 < n \<and> nat n = length (ep_events p) then 2 else 1) * length (ep_events p)"
      using True wait(3) by simp
    moreover have "ep_inv interest ?p' ?h" by (rule inv) simp_all
    moreover have "ep_channels ?p' = ep_channels p" by simp
    ultimately show ?thesis using marked reg(1) fold_store_other by blast
  next
    case False
    then have evs: "evs = []" using wait(2) by simp
    have "ep_inv interest ?p1 h" using inv [of ?p1] evs by simp
    with False evs assms(3) show ?thesis by (intro exI [of _ ?p1] exI [of _ h]) (simp add: EPollPoller_poll_def Let_def)
  qed
qed

text \<open>A kernel that reports one watched descriptor, number 5, as readable.\<close>

definition wait_5 :: "(int \<Rightarrow> epoll_event option) epoll_wait_call" where
  "wait_5 maxevents t k = (case k 5 of
     Some e \<Rightarrow> if 0 < maxevents then (1, [\<lparr>ev_events = POLLIN, ev_ptr = ev_ptr e\<rparr>], k) else (0, [], k)
   | None \<Rightarrow> (0, [], k))"

lemma wait_5_ok: "epoll_wait_ok (\<lambda>k. k) wait_5"
proof -
  have "case wait_5 m t k of (n, evs, k') \<Rightarrow>
      k' = k \<and> length evs = nat n \<and> length evs \<le> m
      \<and> (\<exists>fds. length fds = length evs \<and> distinct fds
        \<and> (\<forall>i < length evs. \<exists>e. k (fds ! i) = Some e \<and> ev_ptr e = ev_ptr (evs ! i)))" for m t k
  proof (cases "\<exists>e. k 5 = Some e \<and> 0 < m")
    case True
    then show ?thesis by (auto simp: wait_5_def intro!: exI [of _ "[5]"])
  next
    case False
    then show ?thesis by (auto simp: wait_5_def split: option.splits)
  qed
  then show ?thesis unfolding epoll_wait_ok_def by (intro allI)
qed

theorem epoll_reports_ready_witness:
  "\<exists>p' h'. EPollPoller_poll wait_5 77 10000 []
      ((empty_epoll [5 \<mapsto> \<lparr>ev_events = 3, ev_ptr = 1\<rparr>])\<lparr>ep_channels := [5 \<mapsto> 1], ep_events := [zero_event]\<rparr>,
       [1 \<mapsto> (Channel_new 9 5)\<lparr>ch_events := 3, ch_index := kAdded\<rparr>]) = Inr (77, [1], p', h')
    \<and> length (ep_events p') = 2"
proof -
  let ?p = "(empty_epoll [5 \<mapsto> \<lparr>ev_events = 3, ev_ptr = 1\<rparr>])\<lparr>ep_channels := [5 \<mapsto> 1], ep_events := [zero_event]\<rparr>"
  let ?h = "[1 \<mapsto> (Channel_new 9 5)\<lparr>ch_events := 3, ch_index := kAdded\<rparr>] :: chans"
  have inv: "ep_inv (\<lambda>k. k) ?p ?h"
    by (auto simp: ep_inv_def empty_epoll_def ep_entry_def Channel_new_def split: if_splits)
  have w: "wait_5 (length (ep_events ?p)) 10000 (ep_kernel ?p)
      = (1, [\<lparr>ev_events = POLLIN, ev_ptr = 1\<rparr>], [5 \<mapsto> \<lparr>ev_events = 3, ev_ptr = 1\<rparr>])"
    by (simp add: wait_5_def empty_epoll_def)
  from epoll_reports_ready [OF inv wait_5_ok w, of 77 "[]"] show ?thesis by auto
qed

end
