(* ===== verification/Muduo_Timestamp.thy ===== *)
theory Muduo_Timestamp
  imports Muduo_Prelude
begin

text \<open>
  Points in time (\<^verbatim>\<open>base/Timestamp.h\<close>, \<^verbatim>\<open>base/Timestamp.cc\<close>): microseconds since the epoch.
  Arithmetic is on unbounded integers; a 64-bit count of microseconds overflows after 292000 years.
  A duration in seconds is a \<^verbatim>\<open>double\<close> in the source. It is used in two ways only, compared with
  0.0 and turned into whole microseconds by a cast, and \<open>seconds\<close> records the two results.
\<close>

type_synonym Timestamp = int

definition kMicroSecondsPerSecond :: int where
  "kMicroSecondsPerSecond = 1000 * 1000"

definition Timestamp_invalid :: Timestamp where
  "Timestamp_invalid = 0"

definition Timestamp_valid :: "Timestamp \<Rightarrow> bool" where
  "Timestamp_valid t \<longleftrightarrow> t > 0"

definition secondsSinceEpoch :: "Timestamp \<Rightarrow> int" where
  "secondsSinceEpoch t = t sdiv kMicroSecondsPerSecond"

definition fromUnixTime :: "int \<Rightarrow> int \<Rightarrow> Timestamp" where
  "fromUnixTime t microseconds = t * kMicroSecondsPerSecond + microseconds"

text \<open>\<^verbatim>\<open>gettimeofday\<close> gives seconds and microseconds.\<close>

definition Timestamp_now :: "int \<times> int \<Rightarrow> Timestamp" where
  "Timestamp_now tv = (case tv of (sec, usec) \<Rightarrow> sec * kMicroSecondsPerSecond + usec)"

definition Timestamp_swap :: "Timestamp \<Rightarrow> Timestamp \<Rightarrow> Timestamp \<times> Timestamp" where
  "Timestamp_swap t that = (that, t)"

record seconds =
  sec_positive :: bool
  sec_micros :: int

definition addTime :: "Timestamp \<Rightarrow> seconds \<Rightarrow> Timestamp" where
  "addTime timestamp s = timestamp + sec_micros s"

text \<open>The difference in microseconds that \<^verbatim>\<open>timeDifference\<close> divides by a million.\<close>

definition timeDifference_micros :: "Timestamp \<Rightarrow> Timestamp \<Rightarrow> int" where
  "timeDifference_micros high low = high - low"

text \<open>A duration that comes from a \<^verbatim>\<open>double\<close>: the cast truncates towards zero.\<close>

definition seconds_ok :: "seconds \<Rightarrow> bool" where
  "seconds_ok s \<longleftrightarrow> (if sec_positive s then 0 \<le> sec_micros s else sec_micros s \<le> 0)"

lemma addTime_ge: "seconds_ok s \<Longrightarrow> sec_positive s \<Longrightarrow> t \<le> addTime t s"
  by (simp add: seconds_ok_def addTime_def)

lemma addTime_timeDifference: "timeDifference_micros (addTime t s) t = sec_micros s"
  by (simp add: timeDifference_micros_def addTime_def)

lemma secondsSinceEpoch_fromUnixTime:
  assumes "0 \<le> t" and "0 \<le> us" and "us < kMicroSecondsPerSecond"
  shows "secondsSinceEpoch (fromUnixTime t us) = t"
proof -
  have "secondsSinceEpoch (fromUnixTime t us) = (us + t * kMicroSecondsPerSecond) div kMicroSecondsPerSecond"
    using assms by (simp add: secondsSinceEpoch_def fromUnixTime_def sdiv_nonneg
        kMicroSecondsPerSecond_def add.commute)
  also have "\<dots> = t" using assms by (simp add: kMicroSecondsPerSecond_def)
  finally show ?thesis .
qed

lemma Timestamp_now_valid: "0 < sec \<Longrightarrow> 0 \<le> usec \<Longrightarrow> Timestamp_valid (Timestamp_now (sec, usec))"
  by (simp add: Timestamp_valid_def Timestamp_now_def kMicroSecondsPerSecond_def)

end
