(* ===== verification/Muduo_Calendar.thy ===== *)
theory Muduo_Calendar
  imports Muduo_Endian Muduo_Timestamp
begin

text \<open>
  Dates and time zones: \<^verbatim>\<open>base/Date.cc\<close> and \<^verbatim>\<open>base/TimeZone.cc\<close>. A date is its Julian day number;
  a time zone is the list of its transitions and the local times they refer to, read from a file in
  the format of the zoneinfo database. C's division truncates, and a conversion to \<^verbatim>\<open>int\<close> keeps 32
  bits. A \<^verbatim>\<open>struct tm\<close> is a record of its fields.
\<close>

section \<open>Date\<close>

record Date =
  julianDayNumber :: int

record YearMonthDay =
  ymd_year :: int
  ymd_month :: int
  ymd_day :: int

definition kDaysPerWeek :: int where "kDaysPerWeek = 7"

definition getJulianDayNumber :: "int \<Rightarrow> int \<Rightarrow> int \<Rightarrow> int" where
  "getJulianDayNumber year month day =
     (let a = (14 - month) sdiv 12;
          y = year + 4800 - a;
          m = month + 12 * a - 3
      in day + (153 * m + 2) sdiv 5 + y * 365 + y sdiv 4 - y sdiv 100 + y sdiv 400 - 32045)"

definition getYearMonthDay :: "int \<Rightarrow> YearMonthDay" where
  "getYearMonthDay jdn =
     (let a = jdn + 32044;
          b = (4 * a + 3) sdiv 146097;
          c = a - (b * 146097) sdiv 4;
          d = (4 * c + 3) sdiv 1461;
          e = c - (1461 * d) sdiv 4;
          m = (5 * e + 2) sdiv 153
      in \<lparr>ymd_year = b * 100 + d - 4800 + m sdiv 10, ymd_month = m + 3 - 12 * (m sdiv 10), ymd_day = e - (153 * m + 2) sdiv 5 + 1\<rparr>)"

definition kJulianDayOf1970_01_01 :: int where
  "kJulianDayOf1970_01_01 = getJulianDayNumber 1970 1 1"

definition Date_invalid :: Date where
  "Date_invalid = \<lparr>julianDayNumber = 0\<rparr>"

definition Date_ymd :: "int \<Rightarrow> int \<Rightarrow> int \<Rightarrow> Date" where
  "Date_ymd y m d = \<lparr>julianDayNumber = getJulianDayNumber y m d\<rparr>"

definition Date_julian :: "int \<Rightarrow> Date" where
  "Date_julian jdn = \<lparr>julianDayNumber = jdn\<rparr>"

record struct_tm =
  tm_sec :: int
  tm_min :: int
  tm_hour :: int
  tm_mday :: int
  tm_mon :: int
  tm_year :: int
  tm_wday :: int
  tm_yday :: int
  tm_isdst :: int
  tm_gmtoff :: int
  tm_zone :: string

definition Date_tm :: "struct_tm \<Rightarrow> Date" where
  "Date_tm t = \<lparr>julianDayNumber = getJulianDayNumber (tm_year t + 1900) (tm_mon t + 1) (tm_mday t)\<rparr>"

definition Date_swap :: "Date \<Rightarrow> Date \<Rightarrow> Date \<times> Date" where
  "Date_swap d that = (d\<lparr>julianDayNumber := julianDayNumber that\<rparr>, that\<lparr>julianDayNumber := julianDayNumber d\<rparr>)"

definition Date_valid :: "Date \<Rightarrow> bool" where
  "Date_valid d \<longleftrightarrow> julianDayNumber d > 0"

definition yearMonthDay :: "Date \<Rightarrow> YearMonthDay" where
  "yearMonthDay d = getYearMonthDay (julianDayNumber d)"

definition Date_year :: "Date \<Rightarrow> int" where
  "Date_year d = ymd_year (yearMonthDay d)"

definition Date_month :: "Date \<Rightarrow> int" where
  "Date_month d = ymd_month (yearMonthDay d)"

definition Date_day :: "Date \<Rightarrow> int" where
  "Date_day d = ymd_day (yearMonthDay d)"

definition weekDay :: "Date \<Rightarrow> int" where
  "weekDay d = (julianDayNumber d + 1) smod kDaysPerWeek"

definition Date_less :: "Date \<Rightarrow> Date \<Rightarrow> bool" where
  "Date_less x y \<longleftrightarrow> julianDayNumber x < julianDayNumber y"

definition Date_eq :: "Date \<Rightarrow> Date \<Rightarrow> bool" where
  "Date_eq x y \<longleftrightarrow> julianDayNumber x = julianDayNumber y"

definition toIsoString :: "Date \<Rightarrow> string" where
  "toIsoString d = (let ymd = yearMonthDay d in
     snprintf 32 (pad_left 4 (CHR '' '') (dec_int (ymd_year ymd)) @ ''-'' @ dec_pad0 2 (ymd_month ymd) @ ''-'' @ dec_pad0 2 (ymd_day ymd)))"

section \<open>TimeZone\<close>

record Transition =
  gmttime :: int
  tr_localtime :: int
  localtimeIdx :: int

record Localtime =
  gmtOffset :: int
  isDst :: bool
  arrbIdx :: int

record Data =
  transitions :: "Transition list"
  localtimes :: "Localtime list"
  tz_names :: "string list"
  tz_abbreviation :: string

text \<open>\<^verbatim>\<open>Comp\<close> is the flag \<^verbatim>\<open>compareGmt\<close>.\<close>

definition Comp_less :: "bool \<Rightarrow> Transition \<Rightarrow> Transition \<Rightarrow> bool" where
  "Comp_less compareGmt lhs rhs \<longleftrightarrow> (if compareGmt then gmttime lhs < gmttime rhs else tr_localtime lhs < tr_localtime rhs)"

definition Comp_equal :: "bool \<Rightarrow> Transition \<Rightarrow> Transition \<Rightarrow> bool" where
  "Comp_equal compareGmt lhs rhs \<longleftrightarrow> (if compareGmt then gmttime lhs = gmttime rhs else tr_localtime lhs = tr_localtime rhs)"

definition fillHMS :: "nat \<Rightarrow> struct_tm \<Rightarrow> struct_tm" where
  "fillHMS seconds utc = (let minutes = seconds div 60 in
     utc\<lparr>tm_sec := int (seconds mod 60), tm_min := int (minutes mod 60), tm_hour := int (minutes div 60)\<rparr>)"

definition kSecondsPerDay :: int where
  "kSecondsPerDay = 24 * 60 * 60"

definition tm_zero :: struct_tm where
  "tm_zero = \<lparr>tm_sec = 0, tm_min = 0, tm_hour = 0, tm_mday = 0, tm_mon = 0, tm_year = 0, tm_wday = 0, tm_yday = 0,
     tm_isdst = 0, tm_gmtoff = 0, tm_zone = []\<rparr>"

text \<open>\<^verbatim>\<open>static_cast<int>\<close>.\<close>

definition to_int :: "int \<Rightarrow> int" where
  "to_int = signed_take_bit 31"

definition toUtcTime :: "int \<Rightarrow> bool \<Rightarrow> struct_tm" where
  "toUtcTime t yday =
     (let utc = tm_zero\<lparr>tm_zone := ''GMT''\<rparr>;
          seconds = to_int (t smod kSecondsPerDay);
          days = to_int (t sdiv kSecondsPerDay);
          (seconds, days) = (if seconds < 0 then (seconds + kSecondsPerDay, days - 1) else (seconds, days));
          utc = fillHMS (nat seconds) utc;
          date = Date_julian (days + kJulianDayOf1970_01_01);
          ymd = yearMonthDay date;
          utc = utc\<lparr>tm_year := ymd_year ymd - 1900, tm_mon := ymd_month ymd - 1, tm_mday := ymd_day ymd, tm_wday := weekDay date\<rparr>
      in if yday then utc\<lparr>tm_yday := julianDayNumber date - julianDayNumber (Date_ymd (ymd_year ymd) 1 1)\<rparr> else utc)"

definition fromUtcTime :: "int \<Rightarrow> int \<Rightarrow> int \<Rightarrow> int \<Rightarrow> int \<Rightarrow> int \<Rightarrow> int" where
  "fromUtcTime year month day hour minute seconds =
     (let date = Date_ymd year month day;
          secondsInDay = hour * 3600 + minute * 60 + seconds;
          days = julianDayNumber date - kJulianDayOf1970_01_01
      in days * kSecondsPerDay + secondsInDay)"

definition fromUtcTime_tm :: "struct_tm \<Rightarrow> int" where
  "fromUtcTime_tm utc = fromUtcTime (tm_year utc + 1900) (tm_mon utc + 1) (tm_mday utc) (tm_hour utc) (tm_min utc) (tm_sec utc)"

subsection \<open>Zone files\<close>

text \<open>
  Reading from a file that holds the remaining bytes: a failure of the program, an exception
  (\<^verbatim>\<open>std::logic_error\<close>) with its text, or the value and the bytes behind it. An array of negative length is
  a failure. \<open>e\<close> is the byte order of the host.
\<close>

type_synonym 'a reading = "char list \<Rightarrow> (string + 'a \<times> char list) outcome"

definition File_readBytes :: "int \<Rightarrow> string reading" where
  "File_readBytes n s = (if n < 0 then Inl Out_of_bounds
     else if length s < nat n then Inr (Inl ''no enough data'')
     else Inr (Inr (take (nat n) s, drop (nat n) s)))"

definition File_readInt32 :: "endian \<Rightarrow> int reading" where
  "File_readInt32 e s = (if length s < 4 then Inr (Inl ''bad int32_t data'')
     else Inr (Inr (sint (betoh e (load e (take 4 s) :: 32 word)), drop 4 s)))"

definition File_readUInt8 :: "int reading" where
  "File_readUInt8 s = (case s of [] \<Rightarrow> Inr (Inl ''bad uint8_t data'') | c # s' \<Rightarrow> Inr (Inr (int (of_char c), s')))"

text \<open>
  A read in the middle of \<^verbatim>\<open>readTimeZoneFile\<close>: an exception is caught at its end, and leaves the data as they
  are. \<open>read_many\<close> is a loop that collects what it reads.
\<close>

definition try_read :: "'a reading \<Rightarrow> char list \<Rightarrow> Data \<Rightarrow> ('a \<Rightarrow> char list \<Rightarrow> Data outcome) \<Rightarrow> Data outcome" where
  "try_read r s data k = andThen (r s) (\<lambda>res. case res of Inl what \<Rightarrow> Inr data | Inr (v, s') \<Rightarrow> k v s')"

fun read_many :: "'a reading \<Rightarrow> nat \<Rightarrow> 'a list reading" where
  "read_many r 0 s = Inr (Inr ([], s))"
| "read_many r (Suc n) s = andThen (r s) (\<lambda>res. case res of Inl what \<Rightarrow> Inr (Inl what)
     | Inr (v, s') \<Rightarrow> andThen (read_many r n s') (\<lambda>res. case res of Inl what \<Rightarrow> Inr (Inl what) | Inr (vs, s'') \<Rightarrow> Inr (Inr (v # vs, s''))))"

fun read_types :: "endian \<Rightarrow> nat \<Rightarrow> char list \<Rightarrow> Data \<Rightarrow> (char list \<Rightarrow> Data \<Rightarrow> Data outcome) \<Rightarrow> Data outcome" where
  "read_types e 0 s data k = k s data"
| "read_types e (Suc n) s data k =
     try_read (File_readInt32 e) s data (\<lambda>gmtoff s. try_read File_readUInt8 s data (\<lambda>isdst s. try_read File_readUInt8 s data (\<lambda>abbrind s.
       read_types e n s (data\<lparr>localtimes := localtimes data @ [\<lparr>gmtOffset = gmtoff, isDst = (isdst \<noteq> 0), arrbIdx = abbrind\<rparr>]\<rparr>) k)))"

text \<open>\<^verbatim>\<open>vector::operator[]\<close> and \<^verbatim>\<open>front\<close>: undefined behaviour out of range is a failure.\<close>

definition vector_at :: "'a list \<Rightarrow> int \<Rightarrow> 'a outcome" where
  "vector_at xs i = (if 0 \<le> i \<and> nat i < length xs then Inr (xs ! nat i) else Inl Out_of_bounds)"

definition add_transition :: "int \<times> int \<Rightarrow> Data \<Rightarrow> Data outcome" where
  "add_transition ti data = (case ti of (t, localIdx) \<Rightarrow>
     andThen (vector_at (localtimes data) localIdx) (\<lambda>loc.
     Inr (data\<lparr>transitions := transitions data @ [\<lparr>gmttime = t, tr_localtime = t + gmtOffset loc, localtimeIdx = localIdx\<rparr>]\<rparr>)))"

text \<open>The file is \<open>None\<close> when it cannot be opened. Reserving a negative number of elements throws \<^verbatim>\<open>std::length_error\<close>.\<close>

definition readTimeZoneFile :: "endian \<Rightarrow> char list option \<Rightarrow> Data \<Rightarrow> (bool \<times> Data) outcome" where
  "readTimeZoneFile e file data = andThen (case file of
       None \<Rightarrow> Inr data
     | Some s \<Rightarrow>
         try_read (File_readBytes 4) s data (\<lambda>head s.
         if head \<noteq> ''TZif'' then Inr data else
         try_read (File_readBytes 1) s data (\<lambda>version s.
         try_read (File_readBytes 15) s data (\<lambda>unused s.
         try_read (File_readInt32 e) s data (\<lambda>isgmtcnt s.
         try_read (File_readInt32 e) s data (\<lambda>isstdcnt s.
         try_read (File_readInt32 e) s data (\<lambda>leapcnt s.
         try_read (File_readInt32 e) s data (\<lambda>timecnt s.
         try_read (File_readInt32 e) s data (\<lambda>typecnt s.
         try_read (File_readInt32 e) s data (\<lambda>charcnt s.
         if timecnt < 0 then Inr data else
         try_read (read_many (File_readInt32 e) (nat timecnt)) s data (\<lambda>trans s.
         try_read (read_many File_readUInt8 (nat timecnt)) s data (\<lambda>locals s.
         read_types e (nat typecnt) s data (\<lambda>s data.
         andThen (for_each add_transition (zip trans locals) data) (\<lambda>data.
         try_read (File_readBytes charcnt) s data (\<lambda>abbr s. Inr (data\<lparr>tz_abbreviation := abbr\<rparr>))))))))))))))))
     (\<lambda>data. Inr (True, data))"

definition Data_new :: Data where
  "Data_new = \<lparr>transitions = [], localtimes = [], tz_names = [], tz_abbreviation = []\<rparr>"

text \<open>A \<^verbatim>\<open>TimeZone\<close> is its shared data, null when invalid.\<close>

definition TimeZone_file :: "endian \<Rightarrow> char list option \<Rightarrow> Data option outcome" where
  "TimeZone_file e zonefile = andThen (readTimeZoneFile e zonefile Data_new) (\<lambda>(ok, data). Inr (if ok then Some data else None))"

definition TimeZone_fixed :: "int \<Rightarrow> string \<Rightarrow> Data option" where
  "TimeZone_fixed eastOfUtc name =
     Some (Data_new\<lparr>localtimes := [\<lparr>gmtOffset = eastOfUtc, isDst = False, arrbIdx = 0\<rparr>], tz_abbreviation := name\<rparr>)"

definition TimeZone_valid :: "Data option \<Rightarrow> bool" where
  "TimeZone_valid tz \<longleftrightarrow> tz \<noteq> None"

subsection \<open>Local time\<close>

text \<open>\<^verbatim>\<open>std::lower_bound\<close> on a sorted range: the first element that is not less.\<close>

definition lower_bound :: "('a \<Rightarrow> 'a \<Rightarrow> bool) \<Rightarrow> 'a list \<Rightarrow> 'a \<Rightarrow> nat" where
  "lower_bound cmp xs x = length (takeWhile (\<lambda>y. cmp y x) xs)"

definition findLocaltime :: "Data \<Rightarrow> Transition \<Rightarrow> bool \<Rightarrow> Localtime outcome" where
  "findLocaltime data sentry gmt =
     (let ts = transitions data in
      if ts = [] \<or> Comp_less gmt sentry (hd ts) then vector_at (localtimes data) 0
      else let transI = lower_bound (Comp_less gmt) ts sentry in
        if transI \<noteq> length ts then
          (if \<not> Comp_equal gmt sentry (ts ! transI)
           then assert_that (transI \<noteq> 0) ''transI != data.transitions.begin()'' (vector_at (localtimes data) (localtimeIdx (ts ! (transI - 1))))
           else vector_at (localtimes data) (localtimeIdx (ts ! transI)))
        else vector_at (localtimes data) (localtimeIdx (last ts)))"

text \<open>
  \<open>gmtime\<close> and \<open>timegm\<close> are the functions of the C library. The name of the zone is the C string at an
  offset of the abbreviations.
\<close>

definition zone_name :: "Data \<Rightarrow> int \<Rightarrow> string outcome" where
  "zone_name data i = (if 0 \<le> i \<and> nat i \<le> length (tz_abbreviation data)
     then Inr (takeWhile (\<lambda>c. c \<noteq> CHR 0x00) (drop (nat i) (tz_abbreviation data))) else Inl Out_of_bounds)"

definition toLocalTime :: "(int \<Rightarrow> struct_tm) \<Rightarrow> Data option \<Rightarrow> int \<Rightarrow> struct_tm outcome" where
  "toLocalTime gmtime tz seconds = (case tz of
       None \<Rightarrow> Inl (Assert_failed ''data_ != NULL'')
     | Some data \<Rightarrow>
         andThen (findLocaltime data \<lparr>gmttime = seconds, tr_localtime = 0, localtimeIdx = 0\<rparr> True) (\<lambda>loc.
         andThen (zone_name data (arrbIdx loc)) (\<lambda>zone.
         Inr ((gmtime (seconds + gmtOffset loc))\<lparr>tm_isdst := of_bool (isDst loc), tm_gmtoff := gmtOffset loc, tm_zone := zone\<rparr>))))"

definition fromLocalTime :: "(int \<Rightarrow> struct_tm) \<Rightarrow> (struct_tm \<Rightarrow> int) \<Rightarrow> Data option \<Rightarrow> struct_tm \<Rightarrow> int outcome" where
  "fromLocalTime gmtime timegm tz localTm = (case tz of
       None \<Rightarrow> Inl (Assert_failed ''data_ != NULL'')
     | Some data \<Rightarrow>
         let seconds = timegm localTm in
         andThen (findLocaltime data \<lparr>gmttime = 0, tr_localtime = seconds, localtimeIdx = 0\<rparr> False) (\<lambda>loc.
         andThen (if tm_isdst localTm \<noteq> 0 then
                    andThen (toLocalTime gmtime tz (seconds - gmtOffset loc)) (\<lambda>tryTm.
                      Inr (if tm_isdst tryTm = 0 \<and> tm_hour tryTm = tm_hour localTm \<and> tm_min tryTm = tm_min localTm
                           then seconds - 3600 else seconds))
                  else Inr seconds) (\<lambda>seconds.
         Inr (seconds - gmtOffset loc))))"

section \<open>Timestamps as text\<close>

definition Timestamp_toString :: "Timestamp \<Rightarrow> string" where
  "Timestamp_toString t =
     (let seconds = t sdiv kMicroSecondsPerSecond;
          microseconds = t smod kMicroSecondsPerSecond
      in snprintf 32 (dec_int seconds @ ''.'' @ dec_pad0 6 microseconds))"

definition toFormattedString :: "(int \<Rightarrow> struct_tm) \<Rightarrow> bool \<Rightarrow> Timestamp \<Rightarrow> string" where
  "toFormattedString gmtime showMicroseconds t =
     (let seconds = t sdiv kMicroSecondsPerSecond;
          tm_time = gmtime seconds;
          hms = pad_left 4 (CHR '' '') (dec_int (tm_year tm_time + 1900)) @ dec_pad0 2 (tm_mon tm_time + 1) @ dec_pad0 2 (tm_mday tm_time) @ '' ''
            @ dec_pad0 2 (tm_hour tm_time) @ '':'' @ dec_pad0 2 (tm_min tm_time) @ '':'' @ dec_pad0 2 (tm_sec tm_time)
      in if showMicroseconds then snprintf 64 (hms @ ''.'' @ dec_pad0 6 (to_int (t smod kMicroSecondsPerSecond)))
         else snprintf 64 hms)"

section \<open>The calendar\<close>

text \<open>The Gregorian calendar, independently of day numbers: months have their lengths, and a day is followed by the next.\<close>

definition leap :: "int \<Rightarrow> bool" where
  "leap y \<longleftrightarrow> y mod 4 = 0 \<and> (y mod 100 \<noteq> 0 \<or> y mod 400 = 0)"

definition days_in_month :: "int \<Rightarrow> int \<Rightarrow> int" where
  "days_in_month y m = (if m = 2 then (if leap y then 29 else 28) else if m \<in> {4, 6, 9, 11} then 30 else 31)"

definition date_ok :: "YearMonthDay \<Rightarrow> bool" where
  "date_ok d \<longleftrightarrow> 1 \<le> ymd_month d \<and> ymd_month d \<le> 12 \<and> 1 \<le> ymd_day d \<and> ymd_day d \<le> days_in_month (ymd_year d) (ymd_month d)"

definition next_date :: "YearMonthDay \<Rightarrow> YearMonthDay" where
  "next_date d =
     (if ymd_day d < days_in_month (ymd_year d) (ymd_month d) then d\<lparr>ymd_day := ymd_day d + 1\<rparr>
      else if ymd_month d < 12 then d\<lparr>ymd_month := ymd_month d + 1, ymd_day := 1\<rparr>
      else \<lparr>ymd_year = ymd_year d + 1, ymd_month = 1, ymd_day = 1\<rparr>)"

text \<open>
  Both conversions count years from March: \<open>y\<close> is the year from March 1st of year -4800 on, in centuries \<open>b\<close> and years
  \<open>d\<close> of the century, and \<open>e\<close> the day of the year.
\<close>

definition days_before :: "int \<Rightarrow> int \<Rightarrow> int" where
  "days_before b d = 36524 * b + b div 4 + 365 * d + d div 4"

definition year_ok :: "int \<Rightarrow> int \<Rightarrow> int \<Rightarrow> bool" where
  "year_ok b d e \<longleftrightarrow> 0 \<le> b \<and> 0 \<le> d \<and> d < 100 \<and> 0 \<le> e \<and> e < 366 \<and> (e = 365 \<longrightarrow> (if d = 99 then b mod 4 = 3 else d mod 4 = 3))"

lemma div_eqI: "n * k \<le> x \<Longrightarrow> x < n * k + n \<Longrightarrow> x div n = (k :: int)"
proof -
  assume a: "n * k \<le> x" "x < n * k + n"
  then have n: "0 < n" by linarith
  have "x div n = k + (x - n * k) div n" using n by (metis add.commute diff_add_cancel div_mult_self2 less_irrefl)
  also have "(x - n * k) div n = 0" using a by (intro div_pos_pos_trivial) auto
  finally show ?thesis by simp
qed

text \<open>The quotients of \<^verbatim>\<open>getYearMonthDay\<close> recover century, year and day.\<close>

lemma century_day:
  assumes "year_ok b d e" and "a = days_before b d + e"
  shows "(4 * a + 3) div 146097 = b" "a - (b * 146097) div 4 = 365 * d + d div 4 + e"
    "(4 * (365 * d + d div 4 + e) + 3) div 1461 = d" "365 * d + d div 4 + e - (1461 * d) div 4 = e"
proof -
  obtain qb rb where b: "b = 4 * qb + rb" "0 \<le> rb" "rb \<le> 3" "b div 4 = qb" "b mod 4 = rb"
    by (rule that [of "b div 4" "b mod 4"]) (simp_all add: pos_mod_bound [of 4, simplified])
  obtain qd rd where d: "d = 4 * qd + rd" "0 \<le> rd" "rd \<le> 3" "d div 4 = qd" "d mod 4 = rd"
    by (rule that [of "d div 4" "d mod 4"]) (simp_all add: pos_mod_bound [of 4, simplified])
  have ok: "0 \<le> b" "0 \<le> d" "d < 100" "0 \<le> e" "e < 366" "e = 365 \<Longrightarrow> d = 99 \<Longrightarrow> rb = 3" "e = 365 \<Longrightarrow> rd = 3"
    using assms(1) b(5) d(5) by (auto simp: year_ok_def split: if_splits)
  have q: "(b * 146097) div 4 = 36524 * b + b div 4" "(1461 * d) div 4 = 365 * d + d div 4"
    using div_mult_self1 [of 4 b "36524 * b"] div_mult_self1 [of 4 d "365 * d"] by (simp_all add: algebra_simps)
  show "a - (b * 146097) div 4 = 365 * d + d div 4 + e" "365 * d + d div 4 + e - (1461 * d) div 4 = e"
    using assms(2) by (simp_all add: q days_before_def)
  have e: "e \<le> 364 \<or> e = 365" using ok(5) by linarith
  have a: "4 * a + 3 = 146097 * b + (1461 * d - rd) + (4 * e + 3 - rb)"
    using b(1,4) d(1,4) assms(2) by (simp add: days_before_def)
  have "d \<le> 98 \<or> d = 99" using ok(3) by linarith
  moreover have "d = 99 \<Longrightarrow> rd = 3" using d(5) by auto
  ultimately have up: "(1461 * d - rd) + (4 * e + 3 - rb) < 146097" using e ok b(2,3) d(2,3) by auto
  show "(4 * a + 3) div 146097 = b"
    by (rule div_eqI) (use a up ok(2,4) b(3) zmod_le_nonneg_dividend [OF ok(2), of 4] d(5) in linarith)+
  have c: "4 * (365 * d + d div 4 + e) + 3 = 1461 * d + (4 * e + 3 - rd)" using d(1,4) by simp
  show "(4 * (365 * d + d div 4 + e) + 3) div 1461 = d"
    unfolding c by (rule div_eqI) (use e ok d(2,3) in auto)
qed

text \<open>The day numbers of the first days of the months, counted from March.\<close>

lemma month_days:
  assumes "0 \<le> m" and "m \<le> (11 :: int)"
  shows "m = 0 \<or> m = 1 \<or> m = 2 \<or> m = 3 \<or> m = 4 \<or> m = 5 \<or> m = 6 \<or> m = 7 \<or> m = 8 \<or> m = 9 \<or> m = 10 \<or> m = 11"
  using assms by presburger

lemma getYearMonthDay_eq:
  assumes "year_ok b d e" and "j = days_before b d + e - 32044" and "m = (5 * e + 2) div 153"
  shows "getYearMonthDay j =
    \<lparr>ymd_year = b * 100 + d - 4800 + m div 10, ymd_month = m + 3 - 12 * (m div 10), ymd_day = e - (153 * m + 2) div 5 + 1\<rparr>"
proof -
  let ?a = "j + 32044"
  have a: "?a = days_before b d + e" using assms(2) by simp
  note q = century_day [OF assms(1) a]
  have e: "0 \<le> e" "0 \<le> b" "0 \<le> d" using assms(1) by (simp_all add: year_ok_def)
  then have m: "0 \<le> m" using assms(3) by (simp add: div_int_pos_iff)
  have "0 \<le> ?a" unfolding a days_before_def using e by simp
  then have nn: "0 \<le> 4 * ?a + 3" "0 \<le> b * 146097" "0 \<le> 4 * (365 * d + d div 4 + e) + 3" "0 \<le> 1461 * d" "0 \<le> 5 * e + 2" "0 \<le> 153 * m + 2"
    using e m by simp_all
  show ?thesis
    unfolding getYearMonthDay_def Let_def sdiv_nonneg [OF nn(1) zero_less_numeral] q(1) sdiv_nonneg [OF nn(2) zero_less_numeral] q(2)
      sdiv_nonneg [OF nn(3) zero_less_numeral] q(3) sdiv_nonneg [OF nn(4) zero_less_numeral] q(4)
      sdiv_nonneg [OF nn(5) zero_less_numeral] assms(3) [symmetric] sdiv_nonneg [OF nn(6) zero_less_numeral] sdiv_nonneg [OF m zero_less_numeral] ..
qed

lemma getJulianDayNumber_eq:
  assumes "0 \<le> b" and "0 \<le> d" and "d < 100" and "0 \<le> m" and "m \<le> 11"
    and "year = b * 100 + d - 4800 + m div 10" and "month = m + 3 - 12 * (m div 10)"
  shows "getJulianDayNumber year month day = days_before b d + (day - 1 + (153 * m + 2) div 5) - 32044"
proof -
  have m: "(14 - month) sdiv 12 = m div 10" "month + 12 * (m div 10) - 3 = m"
    using month_days [OF assms(4,5)] assms(7) by (auto simp: sdiv_nonneg)
  let ?y = "b * 100 + d"
  have y: "year + 4800 - m div 10 = ?y" "0 \<le> ?y" using assms(1,2,6) by simp_all
  have q: "?y div 4 = 25 * b + d div 4" "?y div 100 = b" "?y div 400 = b div 4"
  proof -
    show "?y div 4 = 25 * b + d div 4" using div_mult_self1 [of 4 d "25 * b"] by (simp add: algebra_simps)
    show c: "?y div 100 = b" by (rule div_eqI) (use assms(2,3) in simp_all)
    have "?y div 400 = ?y div 100 div 4" using zdiv_zmult2_eq [of 4 ?y 100] by simp
    with c show "?y div 400 = b div 4" by simp
  qed
  have "0 \<le> 153 * m + 2" using assms(4) by simp
  then show ?thesis
    unfolding getJulianDayNumber_def Let_def m y(1) sdiv_nonneg [OF y(2) zero_less_numeral] q
    by (simp add: sdiv_nonneg days_before_def)
qed

lemma div_bounds: "0 < n \<Longrightarrow> n * (x div n) \<le> x \<and> x < n * (x div n) + (n :: int)"
  using mult_div_mod_eq [of n x] pos_mod_sign [of n x] pos_mod_bound [of n x] by linarith

text \<open>The month of a day of the year.\<close>

lemma month_bounds:
  assumes "0 \<le> e"
  shows "(5 * e + 2) div 153 = m \<longleftrightarrow> (153 * m + 2) div 5 \<le> e \<and> e < (153 * (m + 1) + 2) div (5 :: int)"
proof -
  have s: "5 * ((153 * k + 2) div 5) \<le> 153 * k + 2" "153 * k + 2 < 5 * ((153 * k + 2) div 5) + 5" for k :: int
    using div_bounds [of 5 "153 * k + 2"] by simp_all
  have "153 * ((5 * e + 2) div 153) \<le> 5 * e + 2" "5 * e + 2 < 153 * ((5 * e + 2) div 153) + 153"
    using div_bounds [of 153 "5 * e + 2"] by simp_all
  then have "(5 * e + 2) div 153 = m \<longleftrightarrow> 153 * m \<le> 5 * e + 2 \<and> 5 * e + 2 < 153 * m + 153"
    using div_eqI [of 153 m "5 * e + 2"] by auto
  moreover have "153 * m \<le> 5 * e + 2 \<longleftrightarrow> (153 * m + 2) div 5 \<le> e" using s [of m] by linarith
  moreover have "5 * e + 2 < 153 * m + 153 \<longleftrightarrow> e < k" if "5 * k \<le> 153 * (m + 1) + 2" "153 * (m + 1) + 2 < 5 * k + 5" for k
    using that by (auto simp: algebra_simps)
  moreover note s [of "m + 1"]
  ultimately show ?thesis by blast
qed

lemma leap_march:
  assumes "0 \<le> d" and "d < 100"
  shows "leap (b * 100 + d - 4800 + 1) \<longleftrightarrow> (if d = 99 then b mod 4 = 3 else d mod 4 = 3)"
proof -
  let ?y = "b * 100 + d - 4800 + 1"
  have 4: "?y mod 4 = (d + 1) mod 4" using mod_mult_self1 [of "d + 1" "25 * b - 1200" 4] by (simp add: algebra_simps)
  have 100: "?y mod 100 = (d + 1) mod 100" using mod_mult_self1 [of "d + 1" "b - 48" 100] by (simp add: algebra_simps)
  show ?thesis
  proof (cases "d = 99")
    case True
    have "?y mod 400 = 100 * ((b - 47) mod 4)" using mult_mod_right [of 100 "b - 47" 4] True by (simp add: algebra_simps)
    moreover have "(b - 47) mod 4 = 0 \<longleftrightarrow> b mod 4 = 3" by presburger
    ultimately have "?y mod 400 = 0 \<longleftrightarrow> b mod 4 = 3" by simp
    with True 4 100 show ?thesis by (simp add: leap_def)
  next
    case False
    with assms have "(d + 1) mod 100 \<noteq> 0" by simp
    moreover have "(d + 1) mod 4 = 0 \<longleftrightarrow> d mod 4 = 3" by presburger
    ultimately show ?thesis using False 4 100 by (simp add: leap_def)
  qed
qed

text \<open>A day of a year counted from March, as a date.\<close>

definition march_date :: "int \<Rightarrow> int \<Rightarrow> int \<Rightarrow> int \<Rightarrow> YearMonthDay" where
  "march_date b d m e =
     \<lparr>ymd_year = b * 100 + d - 4800 + m div 10, ymd_month = m + 3 - 12 * (m div 10), ymd_day = e - (153 * m + 2) div 5 + 1\<rparr>"

definition month_ok :: "int \<Rightarrow> int \<Rightarrow> bool" where
  "month_ok m e \<longleftrightarrow> 0 \<le> m \<and> m \<le> 11 \<and> (153 * m + 2) div 5 \<le> e \<and> e < (153 * (m + 1) + 2) div 5"

lemma month_okI:
  assumes "year_ok b d e"
  shows "month_ok ((5 * e + 2) div 153) e"
proof -
  have e: "0 \<le> e" "e < 366" using assms by (simp_all add: year_ok_def)
  have "0 \<le> (5 * e + 2) div 153" using e by (simp add: div_int_pos_iff)
  moreover have "(5 * e + 2) div 153 \<le> 1827 div 153" by (rule zdiv_mono1) (use e in simp_all)
  ultimately show ?thesis using month_bounds [OF e(1), of "(5 * e + 2) div 153"] by (simp add: month_ok_def)
qed

lemma march_date_days:
  assumes "month_ok m e"
  shows "days_in_month (ymd_year (march_date b d m e)) (ymd_month (march_date b d m e)) =
    (if m = 11 then (if leap (b * 100 + d - 4800 + 1) then 29 else 28) else (153 * (m + 1) + 2) div 5 - (153 * m + 2) div 5)"
proof -
  from assms month_days [of m] have "m = 0 \<or> m = 1 \<or> m = 2 \<or> m = 3 \<or> m = 4 \<or> m = 5 \<or> m = 6 \<or> m = 7 \<or> m = 8 \<or> m = 9 \<or> m = 10 \<or> m = 11"
    by (simp add: month_ok_def)
  then show ?thesis by (elim disjE) (simp_all add: march_date_def days_in_month_def)
qed

lemma march_date_ok:
  assumes "year_ok b d e" and "month_ok m e"
  shows "date_ok (march_date b d m e)"
proof -
  have "1 \<le> ymd_month (march_date b d m e)" "ymd_month (march_date b d m e) \<le> 12"
    using month_days [of m] assms(2) by (auto simp: month_ok_def march_date_def)
  moreover have "1 \<le> ymd_day (march_date b d m e)" using assms(2) by (simp add: month_ok_def march_date_def)
  moreover have "ymd_day (march_date b d m e) \<le> days_in_month (ymd_year (march_date b d m e)) (ymd_month (march_date b d m e))"
  proof (cases "m = 11")
    case True
    with assms(1) leap_march [of d b] show ?thesis
      unfolding march_date_days [OF assms(2)] by (auto simp: march_date_def year_ok_def split: if_splits)
  next
    case False
    then show ?thesis unfolding march_date_days [OF assms(2)] using assms(2) by (simp add: march_date_def month_ok_def)
  qed
  ultimately show ?thesis by (simp add: date_ok_def)
qed

text \<open>The next day of the year, of the next year, of the next century.\<close>

definition year_over :: "int \<Rightarrow> int \<Rightarrow> int \<Rightarrow> bool" where
  "year_over b d e \<longleftrightarrow> e = (if (if d = 99 then b mod 4 = 3 else d mod 4 = 3) then 365 else 364)"

definition next_march :: "int \<times> int \<times> int \<Rightarrow> int \<times> int \<times> int" where
  "next_march q = (case q of (b, d, e) \<Rightarrow>
     if \<not> year_over b d e then (b, d, e + 1) else if d < 99 then (b, d + 1, 0) else (b + 1, 0, 0))"

lemma next_march_ok:
  assumes "year_ok b d e" and "next_march (b, d, e) = (b', d', e')"
  shows "year_ok b' d' e' \<and> days_before b' d' + e' = days_before b d + e + 1"
proof (cases "year_over b d e")
  case False
  with assms show ?thesis by (auto simp: next_march_def year_over_def year_ok_def split: if_splits)
next
  case True
  have div: "(x + 1) div 4 = x div 4 + (if x mod 4 = 3 then 1 else 0)" for x :: int by presburger
  show ?thesis
  proof (cases "d < 99")
    case d: True
    have "e = (if d mod 4 = 3 then 365 else 364)" using True d by (auto simp: year_over_def)
    then have "days_before b (d + 1) + 0 = days_before b d + e + 1" unfolding days_before_def div [of d] by simp
    moreover have "year_ok b (d + 1) 0" using assms(1) d by (simp add: year_ok_def)
    moreover have "b' = b" "d' = d + 1" "e' = 0" using d True assms(2) by (simp_all add: next_march_def)
    ultimately show ?thesis by blast
  next
    case False
    with assms(1) have d: "d = 99" by (simp add: year_ok_def)
    have "e = (if b mod 4 = 3 then 365 else 364)" using True d by (simp add: year_over_def)
    then have "days_before (b + 1) 0 + 0 = days_before b d + e + 1" unfolding days_before_def div [of b] d by simp
    moreover have "year_ok (b + 1) 0 0" using assms(1) by (simp add: year_ok_def)
    moreover have "b' = b + 1" "d' = 0" "e' = 0" using d True assms(2) by (simp_all add: next_march_def)
    ultimately show ?thesis by blast
  qed
qed

lemma march_exists: "0 \<le> a \<Longrightarrow> \<exists>b d e. year_ok b d e \<and> a = days_before b d + e"
proof (induction a rule: int_ge_induct)
  case base
  have "year_ok 0 0 0" by (simp add: year_ok_def)
  then show ?case by (intro exI [of _ 0]) (simp add: days_before_def)
next
  case (step a)
  then obtain b d e where q: "year_ok b d e" "a = days_before b d + e" by blast
  obtain b' d' e' where "next_march (b, d, e) = (b', d', e')" by (metis prod_cases3)
  from next_march_ok [OF q(1) this] q(2) show ?case by (intro exI [of _ b'] exI [of _ d'] exI [of _ e']) simp
qed

lemma getYearMonthDay_march:
  "year_ok b d e \<Longrightarrow> getYearMonthDay (days_before b d + e - 32044) = march_date b d ((5 * e + 2) div 153) e"
  unfolding march_date_def by (rule getYearMonthDay_eq) simp_all

lemma next_date_in_month:
  assumes "ymd_day (march_date b d m e) < days_in_month (ymd_year (march_date b d m e)) (ymd_month (march_date b d m e))"
  shows "next_date (march_date b d m e) = march_date b d m (e + 1)"
  using assms by (simp add: next_date_def march_date_def)

lemma next_date_next_month:
  assumes "month_ok m e" and "m < 11" and "e + 1 = (153 * (m + 1) + 2) div 5"
    and "\<not> ymd_day (march_date b d m e) < days_in_month (ymd_year (march_date b d m e)) (ymd_month (march_date b d m e))"
  shows "next_date (march_date b d m e) = march_date b d (m + 1) (e + 1)"
proof -
  have "next_date (march_date b d m e) = (if ymd_month (march_date b d m e) < 12
      then (march_date b d m e)\<lparr>ymd_month := ymd_month (march_date b d m e) + 1, ymd_day := 1\<rparr>
      else \<lparr>ymd_year = ymd_year (march_date b d m e) + 1, ymd_month = 1, ymd_day = 1\<rparr>)"
    using assms(4) unfolding next_date_def by simp
  also have "\<dots> = march_date b d (m + 1) (e + 1)"
    using month_days [of m] assms(1,2) unfolding march_date_def assms(3) by (auto simp: month_ok_def)
  finally show ?thesis .
qed

lemma next_date_next_year:
  assumes "m = 11" and "\<not> ymd_day (march_date b d m e) < days_in_month (ymd_year (march_date b d m e)) (ymd_month (march_date b d m e))"
  shows "next_date (march_date b d m e) = \<lparr>ymd_year = b * 100 + d - 4800 + 1, ymd_month = 3, ymd_day = 1\<rparr>"
  using assms by (simp add: next_date_def march_date_def)

lemma next_date_march:
  assumes "year_ok b d e" and "next_march (b, d, e) = (b', d', e')"
  shows "next_date (march_date b d ((5 * e + 2) div 153) e) = march_date b' d' ((5 * e' + 2) div 153) e'"
proof -
  obtain m where m': "(5 * e + 2) div 153 = m" by blast
  let ?D = "march_date b d m e"
  have m: "month_ok m e" using month_okI [OF assms(1)] m' by simp
  have e: "0 \<le> e" "e < 366" "0 \<le> d" "d < 100" using assms(1) by (simp_all add: year_ok_def)
  note lp = leap_march [OF e(3,4), of b]
  have days: "ymd_day ?D < days_in_month (ymd_year ?D) (ymd_month ?D) \<longleftrightarrow> (if m = 11 then \<not> year_over b d e else e + 1 < (153 * (m + 1) + 2) div 5)"
    unfolding march_date_days [OF m] using assms(1) m lp
    by (auto simp: march_date_def year_over_def year_ok_def month_ok_def split: if_splits)
  show ?thesis unfolding m'
  proof (cases "year_over b d e")
    case True
    then have "m = 11" using m' by (auto simp: year_over_def split: if_splits)
    with True days next_date_next_year [of m b d e] have "next_date ?D = \<lparr>ymd_year = b * 100 + d - 4800 + 1, ymd_month = 3, ymd_day = 1\<rparr>" by simp
    also have "\<dots> = march_date b' d' ((5 * e' + 2) div 153) e'"
      using True assms(2) e(4) by (auto simp: march_date_def next_march_def split: if_splits)
    finally show "next_date ?D = march_date b' d' ((5 * e' + 2) div 153) e'" .
  next
    case False
    then have n: "b' = b" "d' = d" "e' = e + 1" using assms(2) by (simp_all add: next_march_def)
    show "next_date ?D = march_date b' d' ((5 * e' + 2) div 153) e'"
    proof (cases "m = 11 \<or> e + 1 < (153 * (m + 1) + 2) div 5")
      case same: True
      have "(5 * e' + 2) div 153 = m" using month_bounds [of e' m] same m e n(3) by (auto simp: month_ok_def)
      moreover have "next_date ?D = march_date b d m (e + 1)" by (rule next_date_in_month) (use same days False in auto)
      ultimately show ?thesis using n by simp
    next
      case other: False
      then have e': "e + 1 = (153 * (m + 1) + 2) div 5" using m by (simp add: month_ok_def)
      have "m < 11" using other m by (simp add: month_ok_def)
      moreover have "(5 * e' + 2) div 153 = m + 1"
      proof -
        have "0 \<le> e'" using e n(3) by simp
        moreover have "x div 5 < y div 5" if "x + 5 \<le> y" for x y :: int using that div_bounds [of 5 x] div_bounds [of 5 y] by linarith
        then have "(153 * (m + 1) + 2) div 5 < (153 * (m + 1 + 1) + 2) div 5" by simp
        moreover have "(153 * (m + 1) + 2) div 5 \<le> e'" using e' n(3) by linarith
        ultimately show ?thesis using e' n(3) month_bounds [of e' "m + 1"] by metis
      qed
      moreover have "next_date ?D = march_date b d (m + 1) (e + 1)"
        by (rule next_date_next_month [OF m _ e']) (use other days calculation in auto)
      ultimately show ?thesis using n by simp
    qed
  qed
qed

text \<open>From day numbers to dates and back.\<close>

abbreviation day_number :: "YearMonthDay \<Rightarrow> int" where
  "day_number x \<equiv> getJulianDayNumber (ymd_year x) (ymd_month x) (ymd_day x)"

lemma day_number_march:
  assumes "year_ok b d e" and "month_ok m e"
  shows "day_number (march_date b d m e) = days_before b d + e - 32044"
proof -
  have "day_number (march_date b d m e) = days_before b d + (ymd_day (march_date b d m e) - 1 + (153 * m + 2) div 5) - 32044"
    by (rule getJulianDayNumber_eq) (use assms in \<open>simp_all add: year_ok_def month_ok_def march_date_def\<close>)
  then show ?thesis by (simp add: march_date_def)
qed

lemma date_of_day:
  assumes "-32044 \<le> j"
  shows "date_ok (getYearMonthDay j)" "getYearMonthDay (j + 1) = next_date (getYearMonthDay j)" "day_number (getYearMonthDay j) = j"
proof -
  from march_exists [of "j + 32044"] assms obtain b d e where q: "year_ok b d e" "j + 32044 = days_before b d + e" by auto
  then have j: "j = days_before b d + e - 32044" by simp
  have m: "month_ok ((5 * e + 2) div 153) e" by (rule month_okI [OF q(1)])
  note day = getYearMonthDay_march [OF q(1), folded j]
  show "date_ok (getYearMonthDay j)" unfolding day by (rule march_date_ok [OF q(1) m])
  show "day_number (getYearMonthDay j) = j" unfolding day using day_number_march [OF q(1) m] j by simp
  obtain b' d' e' where n: "next_march (b, d, e) = (b', d', e')" by (metis prod_cases3)
  from next_march_ok [OF q(1) n] have n': "year_ok b' d' e'" "j + 1 = days_before b' d' + e' - 32044" using j by auto
  show "getYearMonthDay (j + 1) = next_date (getYearMonthDay j)"
    unfolding day next_date_march [OF q(1) n] unfolding n'(2) by (rule getYearMonthDay_march [OF n'(1)])
qed

lemma march_of_date:
  assumes "date_ok x" and "-4799 \<le> ymd_year x"
  shows "\<exists>b d m e. year_ok b d e \<and> month_ok m e \<and> x = march_date b d m e"
proof -
  let ?k = "if ymd_month x \<le> 2 then 1 else 0 :: int"
  let ?y = "ymd_year x + 4800 - ?k" and ?m = "ymd_month x + 12 * ?k - 3"
  let ?b = "?y div 100" and ?d = "?y mod 100" and ?e = "ymd_day x - 1 + (153 * ?m + 2) div 5"
  have mon: "1 \<le> ymd_month x" "ymd_month x \<le> 12" "1 \<le> ymd_day x" "ymd_day x \<le> days_in_month (ymd_year x) (ymd_month x)"
    using assms(1) by (simp_all add: date_ok_def)
  then have cases: "ymd_month x - 1 = 0 \<or> ymd_month x - 1 = 1 \<or> ymd_month x - 1 = 2 \<or> ymd_month x - 1 = 3 \<or> ymd_month x - 1 = 4 \<or> ymd_month x - 1 = 5
      \<or> ymd_month x - 1 = 6 \<or> ymd_month x - 1 = 7 \<or> ymd_month x - 1 = 8 \<or> ymd_month x - 1 = 9 \<or> ymd_month x - 1 = 10 \<or> ymd_month x - 1 = 11"
    by (intro month_days) simp_all
  have y: "0 \<le> ?y" "?y = ?b * 100 + ?d" using assms(2) by simp_all
  have yd: "0 \<le> ?b" "0 \<le> ?d" "?d < 100" using y(1) by (simp_all add: pos_imp_zdiv_nonneg_iff)
  have m10: "?m div 10 = ?k" using cases by (elim disjE) (simp_all add: diff_eq_eq)
  have mo: "month_ok ?m ?e" using cases mon(3,4)
    by (elim disjE) (simp_all add: diff_eq_eq month_ok_def days_in_month_def split: if_splits)
  have e: "?e < 366" "?e = 365 \<Longrightarrow> ymd_month x = 2 \<and> leap (ymd_year x)" using cases mon(3,4)
    by (elim disjE; simp add: diff_eq_eq days_in_month_def split: if_splits)+
  have "?e = 365 \<Longrightarrow> (if ?d = 99 then ?b mod 4 = 3 else ?d mod 4 = 3)"
  proof -
    assume "?e = 365"
    with e(2) have l: "?k = 1" "leap (ymd_year x)" by simp_all
    have "ymd_year x = ?b * 100 + ?d - 4800 + 1" using y(2) l(1) by linarith
    with leap_march [OF yd(2,3), of ?b] l(2) show ?thesis by simp
  qed
  moreover have "0 \<le> ?e" using cases mon(3) by (elim disjE) (simp_all add: diff_eq_eq)
  ultimately have "year_ok ?b ?d ?e" using yd e(1) unfolding year_ok_def by blast
  moreover have "x = march_date ?b ?d ?m ?e"
    unfolding march_date_def m10 using y(2) by (cases x) simp
  ultimately show ?thesis using mo by blast
qed

lemma day_of_date:
  assumes "date_ok x" and "-4799 \<le> ymd_year x"
  shows "getYearMonthDay (day_number x) = x"
proof -
  from march_of_date [OF assms] obtain b d m e where q: "year_ok b d e" "month_ok m e" "x = march_date b d m e" by blast
  have "0 \<le> e" using q(1) by (simp add: year_ok_def)
  with month_bounds [of e m] q(2) have "(5 * e + 2) div 153 = m" by (simp add: month_ok_def)
  with getYearMonthDay_march [OF q(1)] show ?thesis using day_number_march [OF q(1,2)] q(3) by simp
qed

section \<open>Universal time\<close>

lemma julian_1970: "kJulianDayOf1970_01_01 = 2440588"
  by (simp add: kJulianDayOf1970_01_01_def getJulianDayNumber_def sdiv_nonneg Let_def)

lemma date_1970: "getYearMonthDay 2440588 = \<lparr>ymd_year = 1970, ymd_month = 1, ymd_day = 1\<rparr>"
proof -
  have "date_ok \<lparr>ymd_year = 1970, ymd_month = 1, ymd_day = 1\<rparr>" by (simp add: date_ok_def days_in_month_def)
  from day_of_date [OF this] julian_1970 show ?thesis by (simp add: kJulianDayOf1970_01_01_def)
qed

text \<open>In the range in which dates are computed without overflow of a 32-bit integer.\<close>

definition day_range :: "int \<Rightarrow> bool" where
  "day_range j \<longleftrightarrow> 0 \<le> j \<and> j \<le> 536838867"

lemma day_range_fits:
  assumes "day_range j"
  shows "4 * (j + 32044) + 3 < 2 ^ 31" "((4 * (j + 32044) + 3) sdiv 146097) * 146097 < 2 ^ 31"
proof -
  show 1: "4 * (j + 32044) + 3 < 2 ^ 31" using assms by (simp add: day_range_def)
  have "0 \<le> 4 * (j + 32044) + 3" using assms by (simp add: day_range_def)
  with div_bounds [of 146097 "4 * (j + 32044) + 3"] 1 show "((4 * (j + 32044) + 3) sdiv 146097) * 146097 < 2 ^ 31"
    by (simp add: sdiv_nonneg)
qed

text \<open>Truncating division with the correction for negative remainders is rounding down.\<close>

lemma floor_division:
  assumes "0 < n"
  shows "(if t smod n < 0 then (t smod n + n, t sdiv n - 1) else (t smod n, t sdiv n)) = (t mod n, t div (n :: int))"
proof -
  have t: "t = n * (t sdiv n) + t smod n" using mult_sdiv_smod_eq [of n t] by simp
  have r: "- n < t smod n" "t smod n < n" using smod_int_range [of n t] assms by auto
  have m: "t mod n = t - n * (t div n)" by (simp add: minus_mult_div_eq_mod)
  show ?thesis
  proof (cases "t smod n < 0")
    case True
    have "t div n = t sdiv n - 1" by (rule div_eqI) (use t r True in \<open>simp_all add: algebra_simps\<close>)
    with True m t show ?thesis by (simp add: algebra_simps)
  next
    case False
    have "t div n = t sdiv n" by (rule div_eqI) (use t r False in linarith)+
    with False m t show ?thesis by simp
  qed
qed

lemma to_int_small: "- (2 ^ 31) \<le> x \<Longrightarrow> x < 2 ^ 31 \<Longrightarrow> to_int x = x"
  unfolding to_int_def by (rule signed_take_bit_int_eq_self) simp_all

lemma toUtcTime_eq:
  assumes "day_range (t div 86400 + 2440588)"
  shows "toUtcTime t yday =
    (let j = t div 86400 + 2440588; ymd = getYearMonthDay j;
         utc = (fillHMS (nat (t mod 86400)) (tm_zero\<lparr>tm_zone := ''GMT''\<rparr>))
           \<lparr>tm_year := ymd_year ymd - 1900, tm_mon := ymd_month ymd - 1, tm_mday := ymd_day ymd, tm_wday := (j + 1) mod 7\<rparr>
     in if yday then utc\<lparr>tm_yday := j - getJulianDayNumber (ymd_year ymd) 1 1\<rparr> else utc)"
proof -
  let ?r = "t smod 86400" and ?q = "t sdiv 86400"
  have f: "(if ?r < 0 then (?r + 86400, ?q - 1) else (?r, ?q)) = (t mod 86400, t div 86400)" by (rule floor_division) simp
  have r: "- 86400 < ?r" "?r < 86400" using smod_int_range [of 86400 t] by auto
  have "?q = t div 86400 \<or> ?q = t div 86400 + 1" using f by (auto split: if_splits)
  with assms have q: "- (2 ^ 31) \<le> ?q" "?q < 2 ^ 31" by (auto simp: day_range_def)
  have i: "to_int ?r = ?r" "to_int ?q = ?q" using r q by (auto intro: to_int_small)
  have w: "0 \<le> t div 86400 + 2440588 + 1" using assms by (simp add: day_range_def)
  have k: "kSecondsPerDay = 86400" by (simp add: kSecondsPerDay_def)
  show ?thesis
    unfolding toUtcTime_def Let_def k i f
    using w by (simp add: Date_julian_def yearMonthDay_def weekDay_def Date_ymd_def julian_1970 kDaysPerWeek_def smod_nonneg)
qed

lemma fillHMS_fields [simp]:
  "tm_mday (fillHMS s u) = tm_mday u" "tm_mon (fillHMS s u) = tm_mon u" "tm_year (fillHMS s u) = tm_year u"
  "tm_sec (fillHMS s u) = int (s mod 60)" "tm_min (fillHMS s u) = int (s div 60 mod 60)" "tm_hour (fillHMS s u) = int (s div 60 div 60)"
  by (simp_all add: fillHMS_def Let_def)

lemma hms_seconds: "int (s div 60 div 60) * 3600 + int (s div 60 mod 60) * 60 + int (s mod 60) = int s"
proof -
  have "60 * (s div 60) + s mod 60 = s" "60 * (s div 60 div 60) + s div 60 mod 60 = s div 60" by simp_all
  then have "int s = int ((s div 60 div 60) * 3600 + (s div 60 mod 60) * 60 + s mod 60)" by linarith
  then show ?thesis by simp
qed

lemma toUtcTime_fields:
  assumes "day_range (t div 86400 + 2440588)"
    and "u = toUtcTime t yday"
  shows "tm_year u = ymd_year (getYearMonthDay (t div 86400 + 2440588)) - 1900"
    "tm_mon u = ymd_month (getYearMonthDay (t div 86400 + 2440588)) - 1"
    "tm_mday u = ymd_day (getYearMonthDay (t div 86400 + 2440588))"
    "tm_wday u = (2440589 + t div 86400) mod 7"
    "tm_sec u = int (nat (t mod 86400) mod 60)" "tm_min u = int (nat (t mod 86400) div 60 mod 60)"
    "tm_hour u = int (nat (t mod 86400) div 60 div 60)"
  unfolding assms(2) toUtcTime_eq [OF assms(1)] by (simp_all add: Let_def)

lemma toUtcTime_roundtrip:
  assumes "day_range (t div 86400 + 2440588)"
  shows "fromUtcTime_tm (toUtcTime t yday) = t"
proof -
  have "-32044 \<le> t div 86400 + 2440588" using assms by (simp add: day_range_def)
  note d = date_of_day(3) [OF this]
  have "fromUtcTime_tm (toUtcTime t yday) = (t div 86400) * 86400 + int (nat (t mod 86400))"
    unfolding fromUtcTime_tm_def fromUtcTime_def toUtcTime_fields [OF assms refl] Date_ymd_def Let_def
    using hms_seconds [of "nat (t mod 86400)"] d by (simp add: julian_1970 kSecondsPerDay_def)
  then show ?thesis by simp
qed

lemma toUtcTime_day_of_year:
  assumes "day_range (t div 86400 + 2440588)"
  shows "tm_yday (toUtcTime t True) =
    (t div 86400 + 2440588) - getJulianDayNumber (tm_year (toUtcTime t True) + 1900) 1 1"
  unfolding toUtcTime_eq [OF assms] by (simp add: Let_def)

lemma weekDay_1970: "weekDay (Date_ymd 1970 1 1) = 4"
  using julian_1970 by (simp add: weekDay_def Date_ymd_def kJulianDayOf1970_01_01_def kDaysPerWeek_def smod_nonneg)

lemma calendar_day:
  assumes j: "day_range j"
  shows "date_ok (yearMonthDay (Date_julian j))"
    and "yearMonthDay (Date_julian (j + 1)) = next_date (yearMonthDay (Date_julian j))"
    and "weekDay (Date_julian (j + 1)) = (weekDay (Date_julian j) + 1) mod 7"
    and "Date_ymd (Date_year (Date_julian j)) (Date_month (Date_julian j)) (Date_day (Date_julian j)) = Date_julian j"
proof -
  from j have "-32044 \<le> j" by (simp add: day_range_def)
  note d = date_of_day [OF this]
  show "date_ok (yearMonthDay (Date_julian j))" using d(1) by (simp add: yearMonthDay_def Date_julian_def)
  show "yearMonthDay (Date_julian (j + 1)) = next_date (yearMonthDay (Date_julian j))"
    using d(2) by (simp add: yearMonthDay_def Date_julian_def)
  show "weekDay (Date_julian (j + 1)) = (weekDay (Date_julian j) + 1) mod 7"
    using j by (simp add: weekDay_def Date_julian_def kDaysPerWeek_def smod_nonneg day_range_def mod_simps)
  show "Date_ymd (Date_year (Date_julian j)) (Date_month (Date_julian j)) (Date_day (Date_julian j)) = Date_julian j"
    using d(3) by (simp add: Date_ymd_def Date_julian_def Date_year_def Date_month_def Date_day_def yearMonthDay_def)
qed

lemma date_of_calendar:
  "date_ok x \<Longrightarrow> -4712 \<le> ymd_year x \<Longrightarrow> yearMonthDay (Date_ymd (ymd_year x) (ymd_month x) (ymd_day x)) = x"
  using day_of_date [of x] by (simp add: yearMonthDay_def Date_ymd_def)

text \<open>
  C24. The calendar of \<^verbatim>\<open>Date.cc\<close> is the Gregorian calendar. Day 2440588 is the first of January 1970, a Thursday; for
  every day number for which the computation stays within 32 bits, the date is a date of the calendar, the
  following day number is the following date and the next day of the week, and the constructor from that
  date gives the day number back; and every date of the calendar in the years -4712 to 1000000 is
  the date of its day number.
\<close>

theorem calendar_dates:
  "getYearMonthDay kJulianDayOf1970_01_01 = \<lparr>ymd_year = 1970, ymd_month = 1, ymd_day = 1\<rparr> \<and> weekDay (Date_ymd 1970 1 1) = 4
   \<and> (\<forall>j. day_range j \<longrightarrow> date_ok (yearMonthDay (Date_julian j))
        \<and> yearMonthDay (Date_julian (j + 1)) = next_date (yearMonthDay (Date_julian j))
        \<and> weekDay (Date_julian (j + 1)) = (weekDay (Date_julian j) + 1) mod 7
        \<and> Date_ymd (Date_year (Date_julian j)) (Date_month (Date_julian j)) (Date_day (Date_julian j)) = Date_julian j)
   \<and> (\<forall>x. date_ok x \<longrightarrow> -4712 \<le> ymd_year x \<longrightarrow> ymd_year x \<le> 1000000 \<longrightarrow>
        yearMonthDay (Date_ymd (ymd_year x) (ymd_month x) (ymd_day x)) = x)"
  using calendar_day date_of_calendar date_1970 weekDay_1970 by (simp add: julian_1970)

theorem calendar_dates_witness:
  "yearMonthDay (Date_ymd 2000 2 29) = \<lparr>ymd_year = 2000, ymd_month = 2, ymd_day = 29\<rparr> \<and>
   yearMonthDay (Date_julian 2440589) = \<lparr>ymd_year = 1970, ymd_month = 1, ymd_day = 2\<rparr>"
proof
  show "yearMonthDay (Date_ymd 2000 2 29) = \<lparr>ymd_year = 2000, ymd_month = 2, ymd_day = 29\<rparr>"
    using calendar_dates [THEN conjunct2, THEN conjunct2, THEN conjunct2, THEN spec, of "\<lparr>ymd_year = 2000, ymd_month = 2, ymd_day = 29\<rparr>"]
    by (simp add: date_ok_def days_in_month_def leap_def)
  show "yearMonthDay (Date_julian 2440589) = \<lparr>ymd_year = 1970, ymd_month = 1, ymd_day = 2\<rparr>"
    using calendar_dates [THEN conjunct2, THEN conjunct2, THEN conjunct1, THEN spec, of 2440588]
    by (simp add: day_range_def yearMonthDay_def Date_julian_def date_1970 next_date_def days_in_month_def)
qed

lemma toUtcTime_ranges:
  assumes "day_range (t div 86400 + 2440588)"
    and "u = toUtcTime t yday"
  shows "0 \<le> tm_sec u \<and> tm_sec u < 60 \<and> 0 \<le> tm_min u \<and> tm_min u < 60 \<and> 0 \<le> tm_hour u \<and> tm_hour u < 24"
    and "date_ok \<lparr>ymd_year = tm_year u + 1900, ymd_month = tm_mon u + 1, ymd_day = tm_mday u\<rparr>"
    and "0 \<le> tm_wday u \<and> tm_wday u < 7"
proof -
  have "-32044 \<le> t div 86400 + 2440588" using assms by (simp add: day_range_def)
  note d = date_of_day(1) [OF this]
  note f = toUtcTime_fields [OF assms]
  have "nat (t mod 86400) < 86400" by (simp add: nat_less_iff)
  then have "nat (t mod 86400) div 60 div 60 < 24" by (simp add: div_mult2_eq [symmetric] less_mult_imp_div_less)
  then show "0 \<le> tm_sec u \<and> tm_sec u < 60 \<and> 0 \<le> tm_min u \<and> tm_min u < 60 \<and> 0 \<le> tm_hour u \<and> tm_hour u < 24"
    unfolding f by simp
  show "date_ok \<lparr>ymd_year = tm_year u + 1900, ymd_month = tm_mon u + 1, ymd_day = tm_mday u\<rparr>"
    unfolding f using d by (simp add: date_ok_def)
  show "0 \<le> tm_wday u \<and> tm_wday u < 7" unfolding f by simp
qed

text \<open>
  C25. \<^verbatim>\<open>TimeZone::toUtcTime\<close> gives a well-formed broken-down time, also for times before 1970: seconds and minutes
  below 60, hours below 24, a month and day of the calendar, a day of the week from 0 to 6; and
  \<^verbatim>\<open>TimeZone::fromUtcTime\<close> turns it back into the same time.
\<close>

theorem utc_time_well_formed:
  assumes "day_range (t div 86400 + 2440588)" and "u = toUtcTime t yday"
  shows "0 \<le> tm_sec u \<and> tm_sec u < 60 \<and> 0 \<le> tm_min u \<and> tm_min u < 60 \<and> 0 \<le> tm_hour u \<and> tm_hour u < 24
    \<and> date_ok \<lparr>ymd_year = tm_year u + 1900, ymd_month = tm_mon u + 1, ymd_day = tm_mday u\<rparr>
    \<and> 0 \<le> tm_wday u \<and> tm_wday u < 7 \<and> fromUtcTime_tm u = t"
  using toUtcTime_ranges [OF assms] toUtcTime_roundtrip [OF assms(1), of yday] assms(2) by simp

theorem utc_time_well_formed_witness:
  "fromUtcTime_tm (toUtcTime (-1) False) = -1 \<and> tm_year (toUtcTime (-1) False) = 69 \<and> tm_sec (toUtcTime (-1) False) = 59"
proof -
  have d: "day_range ((-1) div 86400 + 2440588)" by (simp add: day_range_def)
  have "getYearMonthDay 2440587 = \<lparr>ymd_year = 1969, ymd_month = 12, ymd_day = 31\<rparr>"
    by (simp add: getYearMonthDay_def Let_def sdiv_nonneg)
  then have "tm_year (toUtcTime (-1) False) = 69" "tm_sec (toUtcTime (-1) False) = 59"
    using toUtcTime_fields [OF d refl, of False] by simp_all
  with utc_time_well_formed [OF d refl, of False] show ?thesis by simp
qed

section \<open>Zones\<close>

text \<open>The times compared by \<^verbatim>\<open>Comp\<close>, and zones whose transitions refer to local times that are there.\<close>

definition tr_key :: "bool \<Rightarrow> Transition \<Rightarrow> int" where
  "tr_key gmt = (if gmt then gmttime else tr_localtime)"

definition zone_ok :: "Data \<Rightarrow> bool" where
  "zone_ok data \<longleftrightarrow> (\<forall>tr \<in> set (transitions data). 0 \<le> localtimeIdx tr \<and> nat (localtimeIdx tr) < length (localtimes data))"

text \<open>The local time in force: that of the last transition that is not later, or the first.\<close>

definition in_force :: "bool \<Rightarrow> Data \<Rightarrow> int \<Rightarrow> Localtime" where
  "in_force gmt data t =
     (case rev (filter (\<lambda>tr. tr_key gmt tr \<le> t) (transitions data)) of [] \<Rightarrow> localtimes data ! 0 | tr # _ \<Rightarrow> localtimes data ! nat (localtimeIdx tr))"

lemma Comp_key: "Comp_less gmt x y \<longleftrightarrow> tr_key gmt x < tr_key gmt y" "Comp_equal gmt x y \<longleftrightarrow> tr_key gmt x = tr_key gmt y"
  by (auto simp: Comp_less_def Comp_equal_def tr_key_def)

lemma vector_at_ok: "zone_ok data \<Longrightarrow> tr \<in> set (transitions data) \<Longrightarrow> vector_at (localtimes data) (localtimeIdx tr) = Inr (localtimes data ! nat (localtimeIdx tr))"
  by (simp add: zone_ok_def vector_at_def)

lemma in_force_split:
  assumes "transitions data = as @ tr # bs" and "tr_key gmt tr \<le> t" and "\<And>y. y \<in> set bs \<Longrightarrow> t < tr_key gmt y"
  shows "in_force gmt data t = localtimes data ! nat (localtimeIdx tr)"
proof -
  have "filter (\<lambda>tr. tr_key gmt tr \<le> t) bs = []" using assms(3) by (auto simp: filter_empty_conv not_le)
  with assms(1,2) show ?thesis by (simp add: in_force_def)
qed

lemma search_in_force:
  assumes ok: "zone_ok data" and sorted: "sorted_wrt (\<lambda>x y. tr_key gmt x < tr_key gmt y) (transitions data)"
    and ts: "transitions data = as @ y # ys" and as: "\<And>x. x \<in> set as \<Longrightarrow> tr_key gmt x < t" and y: "t \<le> tr_key gmt y"
    and hd: "\<not> t < tr_key gmt (hd (transitions data))"
  shows "(if t \<noteq> tr_key gmt y
     then assert_that (length as \<noteq> 0) what (vector_at (localtimes data) (localtimeIdx (transitions data ! (length as - 1))))
     else vector_at (localtimes data) (localtimeIdx y)) = Inr (in_force gmt data t)"
proof -
  have ys: "\<And>z. z \<in> set ys \<Longrightarrow> tr_key gmt y < tr_key gmt z" using sorted ts by (auto simp: sorted_wrt_append)
  show ?thesis
  proof (cases "t = tr_key gmt y")
    case True
    then show ?thesis using in_force_split [of data as y ys gmt t] ts ys ok by (simp add: vector_at_ok)
  next
    case ne: False
    with y hd ts have "as \<noteq> []" by (cases as) auto
    then obtain a x where a: "as = a @ [x]" by (metis rev_exhaust)
    have "in_force gmt data t = localtimes data ! nat (localtimeIdx x)"
      by (rule in_force_split [of data a x "y # ys" gmt t]) (use a ts as y ys ne in \<open>force+\<close>)
    then show ?thesis using ts a ne ok by (simp add: vector_at_ok nth_append assert_that_def)
  qed
qed

lemma findLocaltime_in_force:
  assumes ok: "zone_ok data" and ne: "localtimes data \<noteq> []"
    and sorted: "sorted_wrt (\<lambda>x y. tr_key gmt x < tr_key gmt y) (transitions data)"
  shows "findLocaltime data sentry gmt = Inr (in_force gmt data (tr_key gmt sentry))"
proof -
  let ?ts = "transitions data" and ?t = "tr_key gmt sentry"
  let ?p = "\<lambda>y. tr_key gmt y < ?t"
  define as bs where "as = takeWhile ?p ?ts" and "bs = dropWhile ?p ?ts"
  have ts: "?ts = as @ bs" by (simp add: as_def bs_def)
  have as: "\<And>y. y \<in> set as \<Longrightarrow> tr_key gmt y < ?t" unfolding as_def by (rule set_takeWhileD [THEN conjunct2])
  have lb: "lower_bound (Comp_less gmt) ?ts sentry = length as" by (simp add: lower_bound_def Comp_key as_def)
  consider (first) "?ts = [] \<or> ?t < tr_key gmt (hd ?ts)" | (search) "?ts \<noteq> []" "\<not> ?t < tr_key gmt (hd ?ts)" by blast
  then show ?thesis
  proof cases
    case first
    then have "\<And>y. y \<in> set ?ts \<Longrightarrow> ?t < tr_key gmt y" using sorted by (cases ?ts) auto
    then have "filter (\<lambda>tr. tr_key gmt tr \<le> ?t) ?ts = []" by (auto simp: filter_empty_conv not_le)
    with first ne show ?thesis by (auto simp: findLocaltime_def Comp_key vector_at_def in_force_def)
  next
    case search
    show ?thesis
    proof (cases bs)
      case Nil
      then have "?ts = butlast ?ts @ last ?ts # []" "as = ?ts" using search ts by auto
      with as ok in_force_split [of data "butlast ?ts" "last ?ts" "[]" gmt ?t] search show ?thesis
        by (simp add: findLocaltime_def Comp_key(1) lb vector_at_ok less_imp_le)
    next
      case (Cons y ys)
      have y: "?t \<le> tr_key gmt y" using hd_dropWhile [of ?p ?ts] Cons unfolding bs_def by (metis list.distinct(1) list.sel(1) not_less)
      have nth: "?ts ! length as = y" "length as \<noteq> length ?ts" using ts Cons by simp_all
      have "?ts = as @ y # ys" using ts Cons by simp
      from search_in_force [OF ok sorted this as y search(2), of "''transI != data.transitions.begin()''"] search nth show ?thesis
        by (simp add: findLocaltime_def Comp_key Let_def lb split: if_splits)
    qed
  qed
qed

subsection \<open>Reading a zone file\<close>

text \<open>When reading ends without a failure of the program, the zone is well formed.\<close>

definition reads_zone :: "Data outcome \<Rightarrow> bool" where
  "reads_zone r \<longleftrightarrow> (\<forall>d. r = Inr d \<longrightarrow> zone_ok d)"

lemma reads_zone_Inr: "zone_ok d \<Longrightarrow> reads_zone (Inr d)"
  by (simp add: reads_zone_def)

lemma reads_zone_try_read: "zone_ok data \<Longrightarrow> (\<And>v s'. reads_zone (k v s')) \<Longrightarrow> reads_zone (try_read r s data k)"
  unfolding reads_zone_def try_read_def by (cases "r s") (auto split: sum.splits)

lemma reads_zone_if: "reads_zone x \<Longrightarrow> reads_zone y \<Longrightarrow> reads_zone (if c then x else y)"
  by simp

lemma reads_zone_file: "reads_zone x \<Longrightarrow> (\<And>s. reads_zone (f s)) \<Longrightarrow> reads_zone (case file of None \<Rightarrow> x | Some s \<Rightarrow> f s)"
  by (simp split: option.split)

lemma add_transition_ok:
  assumes "add_transition ti data = Inr d" and "zone_ok data"
  shows "zone_ok d"
  using assms by (auto simp: add_transition_def vector_at_def zone_ok_def split: prod.splits if_splits)

lemma add_transitions_ok:
  assumes "for_each add_transition tis data = Inr d" and "zone_ok data"
  shows "zone_ok d"
  using assms
proof (induction tis arbitrary: data)
  case (Cons ti tis)
  then obtain d' where "add_transition ti data = Inr d'" "for_each add_transition tis d' = Inr d"
    by (auto simp: andThen_eq_Inr)
  with Cons show ?case using add_transition_ok by blast
qed simp

lemma reads_zone_types:
  assumes "transitions data = []" and "\<And>s' data'. transitions data' = [] \<Longrightarrow> reads_zone (k s' data')"
  shows "reads_zone (read_types e n s data k)"
  using assms
proof (induction e n s data k rule: read_types.induct)
  case (2 e n s data k)
  have ok: "zone_ok data" using 2(2) by (simp add: zone_ok_def)
  show ?case unfolding read_types.simps by (intro reads_zone_try_read ok "2.IH") (use 2(2,3) in simp_all)
qed simp

lemma zone_file_ok:
  assumes "TimeZone_file e file = Inr (Some data)"
  shows "zone_ok data"
proof -
  have ok: "transitions d = [] \<Longrightarrow> zone_ok d" for d by (simp add: zone_ok_def)
  have new: "transitions Data_new = []" by (simp add: Data_new_def)
  have last: "reads_zone (andThen (for_each add_transition tis d) (\<lambda>d. try_read (File_readBytes n) s d (\<lambda>abbr s. Inr (d\<lparr>tz_abbreviation := abbr\<rparr>))))"
    if "transitions d = []" for d tis n s
  proof (cases "for_each add_transition tis d")
    case (Inr d')
    then have "zone_ok d'" using add_transitions_ok ok that by blast
    then show ?thesis unfolding Inr andThen.simps by (intro reads_zone_try_read reads_zone_Inr) (simp_all add: zone_ok_def)
  qed (simp add: reads_zone_def)
  have "\<exists>r. readTimeZoneFile e file Data_new = andThen r (\<lambda>data. Inr (True, data)) \<and> reads_zone r"
    unfolding readTimeZoneFile_def
    by (intro exI conjI) (rule refl, intro reads_zone_file reads_zone_Inr reads_zone_try_read reads_zone_if reads_zone_types last ok new)
  then obtain r where "readTimeZoneFile e file Data_new = andThen r (\<lambda>data. Inr (True, data))" "reads_zone r" by blast
  with assms show ?thesis by (cases r) (auto simp: TimeZone_file_def reads_zone_def)
qed

text \<open>
  C38. When the zone file cannot be opened, or does not begin with the letters TZif, the time zone that results is
  valid all the same, since reading reports success in every case; it has no local time, and asking it for one reads
  the front of an empty vector.
\<close>

theorem missing_zone_file:
  assumes "file = None \<or> (\<exists>s. file = Some s \<and> take 4 s \<noteq> ''TZif'')"
  shows "\<exists>tz. TimeZone_file e file = Inr tz \<and> TimeZone_valid tz \<and> (\<forall>gmtime t. toLocalTime gmtime tz t = Inl Out_of_bounds)"
proof -
  have "readTimeZoneFile e file Data_new = Inr (True, Data_new)"
    using assms by (auto simp: readTimeZoneFile_def try_read_def File_readBytes_def)
  moreover have "toLocalTime gmtime (Some Data_new) t = Inl Out_of_bounds" for gmtime t
    by (simp add: toLocalTime_def findLocaltime_def Data_new_def vector_at_def)
  ultimately show ?thesis by (auto simp: TimeZone_file_def TimeZone_valid_def)
qed

theorem missing_zone_file_witness:
  "\<exists>tz. TimeZone_file Little (Some ''TZ'') = Inr tz \<and> TimeZone_valid tz \<and> toLocalTime (\<lambda>t. toUtcTime t True) tz 0 = Inl Out_of_bounds"
  using missing_zone_file [of "Some ''TZ''" Little] by auto

text \<open>
  The local time found for a time is the one in force at it: that of the last transition that is not later, or the
  first local time before any transition. So the offset from universal time is found without leaving the tables, for every zone
  that was read from a file, has a local time and lists its transitions in increasing order.
\<close>

theorem local_time_in_force:
  assumes "TimeZone_file e file = Inr (Some data)" and "localtimes data \<noteq> []"
    and "sorted_wrt (\<lambda>x y. gmttime x < gmttime y) (transitions data)"
  shows "findLocaltime data \<lparr>gmttime = t, tr_localtime = 0, localtimeIdx = 0\<rparr> True =
    Inr (case rev (filter (\<lambda>tr. gmttime tr \<le> t) (transitions data)) of
           [] \<Rightarrow> localtimes data ! 0 | tr # _ \<Rightarrow> localtimes data ! nat (localtimeIdx tr))"
  using findLocaltime_in_force [OF zone_file_ok [OF assms(1)] assms(2), of True] assms(3)
  by (simp add: in_force_def tr_key_def)

definition sample_zone :: string where
  "sample_zone = ''TZif'' @ replicate 16 (CHR 0x00) @ replicate 12 (CHR 0x00)
     @ [CHR 0x00, CHR 0x00, CHR 0x00, CHR 0x01, CHR 0x00, CHR 0x00, CHR 0x00, CHR 0x02, CHR 0x00, CHR 0x00, CHR 0x00, CHR 0x08]
     @ [CHR 0x00, CHR 0x00, CHR 0x00, CHR 0x64] @ [CHR 0x01]
     @ [CHR 0x00, CHR 0x00, CHR 0x0E, CHR 0x10, CHR 0x00, CHR 0x00] @ [CHR 0x00, CHR 0x00, CHR 0x1C, CHR 0x20, CHR 0x01, CHR 0x04]
     @ ''CET'' @ [CHR 0x00] @ ''CES'' @ [CHR 0x00]"

definition sample_data :: Data where
  "sample_data = \<lparr>transitions = [\<lparr>gmttime = 100, tr_localtime = 7300, localtimeIdx = 1\<rparr>],
     localtimes = [\<lparr>gmtOffset = 3600, isDst = False, arrbIdx = 0\<rparr>, \<lparr>gmtOffset = 7200, isDst = True, arrbIdx = 4\<rparr>],
     tz_names = [], tz_abbreviation = ''CET'' @ [CHR 0x00] @ ''CES'' @ [CHR 0x00]\<rparr>"

lemma readInt32_bytes:
  "File_readInt32 e (a # b # c # d # s) = Inr (Inr (signed_take_bit 31 (int (nat_of_le [d, c, b, a])), s))"
proof -
  have "sint (word_of_nat (nat_of_le [d, c, b, a]) :: 32 word) = signed_take_bit 31 (int (nat_of_le [d, c, b, a]))"
    by (simp only: signed_of_nat) simp
  then show ?thesis by (simp add: File_readInt32_def betoh_load)
qed

lemma sample_zone_read: "TimeZone_file Little (Some sample_zone) = Inr (Some sample_data)"
  unfolding TimeZone_file_def readTimeZoneFile_def sample_zone_def sample_data_def
  by (simp add: try_read_def File_readBytes_def readInt32_bytes File_readUInt8_def add_transition_def vector_at_def Data_new_def numeral_eq_Suc)

theorem local_time_in_force_witness:
  "findLocaltime sample_data \<lparr>gmttime = 150, tr_localtime = 0, localtimeIdx = 0\<rparr> True = Inr \<lparr>gmtOffset = 7200, isDst = True, arrbIdx = 4\<rparr>"
  using local_time_in_force [OF sample_zone_read, of 150] by (simp add: sample_data_def)

text \<open>
  In a fixed time zone, \<^verbatim>\<open>fromLocalTime\<close> undoes \<^verbatim>\<open>toLocalTime\<close>, given that \<^verbatim>\<open>timegm\<close> undoes \<^verbatim>\<open>gmtime\<close> whatever the fields for daylight saving,
  offset and name of the zone say.
\<close>

lemma fixed_zone_roundtrip:
  assumes "\<And>d g z. timegm ((gmtime (t + eastOfUtc))\<lparr>tm_isdst := d, tm_gmtoff := g, tm_zone := z\<rparr>) = t + eastOfUtc"
  shows "andThen (toLocalTime gmtime (TimeZone_fixed eastOfUtc name) t) (fromLocalTime gmtime timegm (TimeZone_fixed eastOfUtc name)) = Inr t"
  using assms
  by (simp add: toLocalTime_def fromLocalTime_def TimeZone_fixed_def findLocaltime_def Data_new_def vector_at_def zone_name_def)

end
