(* ===== verification/Muduo_LogStream.thy ===== *)
theory Muduo_LogStream
  imports Muduo_StringPiece Muduo_Calendar
begin

text \<open>
  Formatting of log lines: \<^verbatim>\<open>base/LogStream.h\<close> and \<^verbatim>\<open>base/LogStream.cc\<close>. A fixed buffer is an array and the
  position behind the text written so far; the stream's operators append the text of their operand when
  enough of the array is free and drop it otherwise. A write outside of the array is a failure. What
  \<^verbatim>\<open>printf\<close> gives for a floating-point number is an argument.
\<close>

section \<open>FixedBuffer\<close>

definition kSmallBuffer :: nat where "kSmallBuffer = 4000"
definition kLargeBuffer :: nat where "kLargeBuffer = 4000 * 1000"

datatype Cookie = cookieStart | cookieEnd

record FixedBuffer =
  fb_data :: string
  fb_cur :: nat
  fb_cookie :: Cookie

text \<open>Writing bytes into an array at an offset, and reading the first \<open>n\<close> bytes behind a pointer.\<close>

definition write_bytes :: "nat \<Rightarrow> string \<Rightarrow> string \<Rightarrow> string outcome" where
  "write_bytes off bs xs = (if off + length bs \<le> length xs then Inr (copy_at off bs xs) else Inl Out_of_bounds)"

definition read_bytes :: "nat \<Rightarrow> string \<Rightarrow> string outcome" where
  "read_bytes n xs = (if n \<le> length xs then Inr (take n xs) else Inl Out_of_bounds)"

text \<open>The array is not initialised: \<open>raw\<close> is what it holds.\<close>

definition FixedBuffer_new :: "string \<Rightarrow> FixedBuffer" where
  "FixedBuffer_new raw = \<lparr>fb_data = raw, fb_cur = 0, fb_cookie = cookieStart\<rparr>"

definition FixedBuffer_delete :: "FixedBuffer \<Rightarrow> FixedBuffer" where
  "FixedBuffer_delete b = b\<lparr>fb_cookie := cookieEnd\<rparr>"

definition fb_avail :: "FixedBuffer \<Rightarrow> int" where
  "fb_avail b = int (length (fb_data b)) - int (fb_cur b)"

definition fb_length :: "FixedBuffer \<Rightarrow> nat" where
  "fb_length b = fb_cur b"

definition fb_add :: "nat \<Rightarrow> FixedBuffer \<Rightarrow> FixedBuffer" where
  "fb_add len b = b\<lparr>fb_cur := fb_cur b + len\<rparr>"

definition FixedBuffer_append :: "string \<Rightarrow> nat \<Rightarrow> FixedBuffer \<Rightarrow> FixedBuffer outcome" where
  "FixedBuffer_append buf len b =
     (if int_to_size (fb_avail b) > len
      then andThen (read_bytes len buf) (\<lambda>bs.
           andThen (write_bytes (fb_cur b) bs (fb_data b)) (\<lambda>d.
           Inr (b\<lparr>fb_data := d, fb_cur := fb_cur b + len\<rparr>)))
      else Inr b)"

definition FixedBuffer_reset :: "FixedBuffer \<Rightarrow> FixedBuffer" where
  "FixedBuffer_reset b = b\<lparr>fb_cur := 0\<rparr>"

definition FixedBuffer_bzero :: "FixedBuffer \<Rightarrow> FixedBuffer" where
  "FixedBuffer_bzero b = b\<lparr>fb_data := replicate (length (fb_data b)) (CHR 0x00)\<rparr>"

definition setCookie :: "Cookie \<Rightarrow> FixedBuffer \<Rightarrow> FixedBuffer" where
  "setCookie c b = b\<lparr>fb_cookie := c\<rparr>"

definition FixedBuffer_toString :: "FixedBuffer \<Rightarrow> string outcome" where
  "FixedBuffer_toString b = read_bytes (fb_length b) (fb_data b)"

definition FixedBuffer_toStringPiece :: "FixedBuffer \<Rightarrow> StringPiece" where
  "FixedBuffer_toStringPiece b = StringPiece_make (fb_data b) (int (fb_length b))"

definition debugString :: "FixedBuffer \<Rightarrow> (string \<times> FixedBuffer) outcome" where
  "debugString b = andThen (write_bytes (fb_cur b) [CHR 0x00] (fb_data b)) (\<lambda>d.
     Inr (takeWhile (\<lambda>c. c \<noteq> CHR 0x00) d, b\<lparr>fb_data := d\<rparr>))"

section \<open>Numbers\<close>

text \<open>\<^verbatim>\<open>zero\<close> points at the digit 0 in the middle of \<^verbatim>\<open>digits\<close>, so that it can be indexed with a negative remainder.\<close>

definition digits :: string where "digits = ''9876543210123456789''"

definition zero_index :: "int \<Rightarrow> char" where
  "zero_index lsd = digits ! nat (9 + lsd)"

definition digitsHex :: string where "digitsHex = ''0123456789ABCDEF''"

lemma abs_sdiv_10: "\<bar>i sdiv 10\<bar> = \<bar>i\<bar> div (10 :: int)"
  by (cases "i = 0") (simp_all add: signed_divide_int_def abs_mult abs_sgn_eq div_int_pos_iff)

lemma sdiv_10_decreases: "i sdiv 10 \<noteq> (0 :: int) \<Longrightarrow> \<bar>i sdiv 10\<bar> < \<bar>i\<bar>"
  unfolding abs_sdiv_10 by (cases "i = 0") (auto intro: int_div_less_self)

text \<open>The loops, giving the digits from the last to the first.\<close>

function convert_digits :: "int \<Rightarrow> string" where
  "convert_digits i = zero_index (i smod 10) # (if i sdiv 10 \<noteq> 0 then convert_digits (i sdiv 10) else [])"
  by auto
termination
  by (relation "measure (\<lambda>i. nat \<bar>i\<bar>)") (auto dest: sdiv_10_decreases)

fun convertHex_digits :: "nat \<Rightarrow> string" where
  "convertHex_digits i = digitsHex ! (i mod 16) # (if i div 16 \<noteq> 0 then convertHex_digits (i div 16) else [])"

declare convert_digits.simps [simp del] convertHex_digits.simps [simp del]

text \<open>They write the text and its terminator at an offset of an array and return the length of the text.\<close>

definition convert :: "nat \<Rightarrow> int \<Rightarrow> string \<Rightarrow> (nat \<times> string) outcome" where
  "convert buf value xs =
     (let p = convert_digits value @ (if value < 0 then ''-'' else [])
      in andThen (write_bytes buf (rev p @ [CHR 0x00]) xs) (\<lambda>d. Inr (length p, d)))"

definition convertHex :: "nat \<Rightarrow> 64 word \<Rightarrow> string \<Rightarrow> (nat \<times> string) outcome" where
  "convertHex buf value xs =
     (let p = convertHex_digits (unat value)
      in andThen (write_bytes buf (rev p @ [CHR 0x00]) xs) (\<lambda>d. Inr (length p, d)))"

section \<open>LogStream\<close>

record LogStream =
  ls_buffer :: FixedBuffer

definition kMaxNumericSize :: int where "kMaxNumericSize = 48"

definition LogStream_new :: "string \<Rightarrow> LogStream" where
  "LogStream_new raw = \<lparr>ls_buffer = FixedBuffer_new raw\<rparr>"

definition to_buffer :: "(FixedBuffer \<Rightarrow> FixedBuffer outcome) \<Rightarrow> LogStream \<Rightarrow> LogStream outcome" where
  "to_buffer f s = andThen (f (ls_buffer s)) (\<lambda>b. Inr (s\<lparr>ls_buffer := b\<rparr>))"

definition resetBuffer :: "LogStream \<Rightarrow> LogStream" where
  "resetBuffer s = s\<lparr>ls_buffer := FixedBuffer_reset (ls_buffer s)\<rparr>"

definition LogStream_append :: "string \<Rightarrow> int \<Rightarrow> LogStream \<Rightarrow> LogStream outcome" where
  "LogStream_append data len s = to_buffer (FixedBuffer_append data (int_to_size len)) s"

definition formatInteger :: "int \<Rightarrow> LogStream \<Rightarrow> LogStream outcome" where
  "formatInteger v s = to_buffer (\<lambda>b.
     if fb_avail b \<ge> kMaxNumericSize
     then andThen (convert (fb_cur b) v (fb_data b)) (\<lambda>(len, d). Inr (fb_add len (b\<lparr>fb_data := d\<rparr>)))
     else Inr b) s"

definition shl_bool :: "bool \<Rightarrow> LogStream \<Rightarrow> LogStream outcome" where
  "shl_bool v s = to_buffer (FixedBuffer_append (if v then ''1'' else ''0'') 1) s"

definition shl_int :: "32 word \<Rightarrow> LogStream \<Rightarrow> LogStream outcome" where
  "shl_int v s = formatInteger (sint v) s"

definition shl_uint :: "32 word \<Rightarrow> LogStream \<Rightarrow> LogStream outcome" where
  "shl_uint v s = formatInteger (uint v) s"

definition shl_short :: "16 word \<Rightarrow> LogStream \<Rightarrow> LogStream outcome" where
  "shl_short v s = shl_int (scast v) s"

definition shl_ushort :: "16 word \<Rightarrow> LogStream \<Rightarrow> LogStream outcome" where
  "shl_ushort v s = shl_uint (ucast v) s"

definition shl_long :: "64 word \<Rightarrow> LogStream \<Rightarrow> LogStream outcome" where
  "shl_long v s = formatInteger (sint v) s"

definition shl_ulong :: "64 word \<Rightarrow> LogStream \<Rightarrow> LogStream outcome" where
  "shl_ulong v s = formatInteger (uint v) s"

definition shl_llong :: "64 word \<Rightarrow> LogStream \<Rightarrow> LogStream outcome" where
  "shl_llong v s = formatInteger (sint v) s"

definition shl_ullong :: "64 word \<Rightarrow> LogStream \<Rightarrow> LogStream outcome" where
  "shl_ullong v s = formatInteger (uint v) s"

definition shl_ptr :: "64 word \<Rightarrow> LogStream \<Rightarrow> LogStream outcome" where
  "shl_ptr v s = to_buffer (\<lambda>b.
     if fb_avail b \<ge> kMaxNumericSize
     then andThen (write_bytes (fb_cur b) ''0x'' (fb_data b)) (\<lambda>d.
          andThen (convertHex (fb_cur b + 2) v d) (\<lambda>(len, d).
          Inr (fb_add (len + 2) (b\<lparr>fb_data := d\<rparr>))))
     else Inr b) s"

text \<open>\<open>g\<close> gives the text of \<^verbatim>\<open>%.12g\<close>; \<^verbatim>\<open>snprintf\<close> returns its length also when it truncates.\<close>

definition shl_double :: "('d \<Rightarrow> string) \<Rightarrow> 'd \<Rightarrow> LogStream \<Rightarrow> LogStream outcome" where
  "shl_double g v s = to_buffer (\<lambda>b.
     if fb_avail b \<ge> kMaxNumericSize
     then andThen (write_bytes (fb_cur b) (snprintf (nat kMaxNumericSize) (g v) @ [CHR 0x00]) (fb_data b)) (\<lambda>d.
          Inr (fb_add (length (g v)) (b\<lparr>fb_data := d\<rparr>)))
     else Inr b) s"

definition shl_float :: "('d \<Rightarrow> string) \<Rightarrow> ('f \<Rightarrow> 'd) \<Rightarrow> 'f \<Rightarrow> LogStream \<Rightarrow> LogStream outcome" where
  "shl_float g widen v s = shl_double g (widen v) s"

definition shl_char :: "char \<Rightarrow> LogStream \<Rightarrow> LogStream outcome" where
  "shl_char v s = to_buffer (FixedBuffer_append [v] 1) s"

text \<open>A C string is \<open>None\<close> when the pointer is null, and without its terminator otherwise.\<close>

definition shl_cstr :: "string option \<Rightarrow> LogStream \<Rightarrow> LogStream outcome" where
  "shl_cstr str s = to_buffer (case str of Some t \<Rightarrow> FixedBuffer_append t (length t) | None \<Rightarrow> FixedBuffer_append ''(null)'' 6) s"

definition shl_ucstr :: "string option \<Rightarrow> LogStream \<Rightarrow> LogStream outcome" where
  "shl_ucstr str s = shl_cstr str s"

definition shl_string :: "string \<Rightarrow> LogStream \<Rightarrow> LogStream outcome" where
  "shl_string v s = to_buffer (FixedBuffer_append v (length v)) s"

definition shl_StringPiece :: "StringPiece \<Rightarrow> LogStream \<Rightarrow> LogStream outcome" where
  "shl_StringPiece v s = to_buffer (FixedBuffer_append (ptr v) (int_to_size (piece_len v))) s"

definition shl_Buffer :: "FixedBuffer \<Rightarrow> LogStream \<Rightarrow> LogStream outcome" where
  "shl_Buffer v s = shl_StringPiece (FixedBuffer_toStringPiece v) s"

record Fmt =
  fmt_buf :: string
  fmt_length :: int

text \<open>\<open>t\<close> is the text \<^verbatim>\<open>printf\<close> gives for the format and the value.\<close>

definition Fmt_new :: "string \<Rightarrow> Fmt outcome" where
  "Fmt_new t = assert_that (length t < 32) ''static_cast<size_t>(length_) < sizeof buf_''
     (Inr \<lparr>fmt_buf = snprintf 32 t, fmt_length = int (length t)\<rparr>)"

definition shl_Fmt :: "Fmt \<Rightarrow> LogStream \<Rightarrow> LogStream outcome" where
  "shl_Fmt f s = LogStream_append (fmt_buf f) (fmt_length f) s"

text \<open>\<open>fixed k n d\<close> is the text of \<^verbatim>\<open>%.kf\<close> for the quotient of the doubles nearest to \<open>n\<close> and \<open>d\<close>.\<close>

definition formatSI :: "(nat \<Rightarrow> int \<Rightarrow> int \<Rightarrow> string) \<Rightarrow> int \<Rightarrow> string" where
  "formatSI fixed s = snprintf 64
     (if s < 1000 then dec_int s
      else if s < 9995 then fixed 2 s (10 ^ 3) @ ''k''
      else if s < 99950 then fixed 1 s (10 ^ 3) @ ''k''
      else if s < 999500 then fixed 0 s (10 ^ 3) @ ''k''
      else if s < 9995000 then fixed 2 s (10 ^ 6) @ ''M''
      else if s < 99950000 then fixed 1 s (10 ^ 6) @ ''M''
      else if s < 999500000 then fixed 0 s (10 ^ 6) @ ''M''
      else if s < 9995000000 then fixed 2 s (10 ^ 9) @ ''G''
      else if s < 99950000000 then fixed 1 s (10 ^ 9) @ ''G''
      else if s < 999500000000 then fixed 0 s (10 ^ 9) @ ''G''
      else if s < 9995000000000 then fixed 2 s (10 ^ 12) @ ''T''
      else if s < 99950000000000 then fixed 1 s (10 ^ 12) @ ''T''
      else if s < 999500000000000 then fixed 0 s (10 ^ 12) @ ''T''
      else if s < 9995000000000000 then fixed 2 s (10 ^ 15) @ ''P''
      else if s < 99950000000000000 then fixed 1 s (10 ^ 15) @ ''P''
      else if s < 999500000000000000 then fixed 0 s (10 ^ 15) @ ''P''
      else fixed 2 s (10 ^ 18) @ ''E'')"

section \<open>Conversion of integers\<close>

lemma zero_index_digit:
  assumes "- 10 < r" and "r < 10"
  shows "zero_index r = digit_char (nat \<bar>r\<bar>)"
proof -
  have "r \<in> set [-9, -8, -7, -6, -5, -4, -3, -2, -1, 0, 1, 2, 3, 4, 5, 6, 7, 8, 9]" using assms by simp presburger
  then show ?thesis by (auto simp: zero_index_def digits_def digit_chars)
qed

lemma abs_smod_10: "\<bar>i smod 10\<bar> = \<bar>i\<bar> mod (10 :: int)"
  by (cases "i = 0") (auto simp: signed_modulo_int_def abs_mult abs_sgn_eq sgn_if)

lemma convert_digits_dec: "rev (convert_digits i) = dec_nat (nat \<bar>i\<bar>)"
proof (induction i rule: convert_digits.induct)
  case (1 i)
  have "\<bar>i smod 10\<bar> < 10" using abs_smod_10 [of i] by simp
  then have "- 10 < i smod 10" "i smod 10 < 10" by linarith+
  then have z: "zero_index (i smod 10) = digit_char (nat \<bar>i\<bar> mod 10)"
    by (simp add: zero_index_digit abs_smod_10 nat_mod_distrib)
  have q: "nat \<bar>i sdiv 10\<bar> = nat \<bar>i\<bar> div 10" by (simp add: abs_sdiv_10 nat_div_distrib)
  have "i sdiv 10 = 0 \<longleftrightarrow> nat \<bar>i\<bar> < 10" using q by (metis abs_eq_0 div_eq_0_iff nat_0_iff abs_ge_zero order_antisym zero_neq_numeral)
  with z q 1 show ?case
    by (subst convert_digits.simps, subst dec_nat.simps) simp
qed

text \<open>The text written for a number is the one \<^verbatim>\<open>%d\<close> gives.\<close>

lemma convert_text: "rev (convert_digits v @ (if v < 0 then ''-'' else [])) = dec_int v"
  by (simp add: convert_digits_dec dec_int_def)

lemma length_dec_int:
  assumes "\<bar>v\<bar> < 2 ^ 64"
  shows "length (dec_int v) \<le> 21"
proof -
  have "\<bar>v\<bar> < 10 ^ 20" by (rule less_trans [OF assms]) simp
  then have "nat \<bar>v\<bar> < 10 ^ 20" by (simp add: nat_less_iff)
  from length_dec_nat [OF this] have "length (dec_nat (nat \<bar>v\<bar>)) \<le> 20" by simp
  then show ?thesis by (auto simp: dec_int_def)
qed

text \<open>Hexadecimal notation, from the first digit to the last.\<close>

fun hex_nat :: "nat \<Rightarrow> string" where
  "hex_nat n = (if n < 16 then [digitsHex ! n] else hex_nat (n div 16) @ [digitsHex ! (n mod 16)])"

declare hex_nat.simps [simp del]

lemma convertHex_text: "rev (convertHex_digits n) = hex_nat n"
proof (induction n rule: convertHex_digits.induct)
  case (1 n)
  then show ?case by (subst convertHex_digits.simps, subst hex_nat.simps) (auto simp: div_eq_0_iff)
qed

lemma length_hex_nat: "n < 16 ^ k \<Longrightarrow> 0 < k \<Longrightarrow> length (hex_nat n) \<le> k"
proof (induction n arbitrary: k rule: hex_nat.induct)
  case (1 n)
  show ?case
  proof (cases "n < 16")
    case True
    with 1(3) show ?thesis by (subst hex_nat.simps) simp
  next
    case False
    then obtain k' where k: "k = Suc k'" "0 < k'" using 1(2,3) by (cases k; cases "k - 1") auto
    then have "n div 16 < 16 ^ k'" using 1(2) by (simp add: less_mult_imp_div_less mult.commute)
    with 1(1) [OF False this k(2)] False k show ?thesis by (subst hex_nat.simps) simp
  qed
qed

section \<open>The text of a buffer\<close>

text \<open>The array has \<open>n\<close> bytes and holds the text \<open>t\<close>, with at least a byte free behind it.\<close>

definition fb_holds :: "nat \<Rightarrow> FixedBuffer \<Rightarrow> string \<Rightarrow> bool" where
  "fb_holds n b t \<longleftrightarrow> length (fb_data b) = n \<and> n < 2 ^ 63 \<and> fb_cur b = length t \<and> take (length t) (fb_data b) = t \<and> length t < n"

lemma fb_holds_new: "0 < length raw \<Longrightarrow> length raw < 2 ^ 63 \<Longrightarrow> fb_holds (length raw) (FixedBuffer_new raw) []"
  by (simp add: fb_holds_def FixedBuffer_new_def)

lemma fb_holds_reset: "fb_holds n b t \<Longrightarrow> fb_holds n (FixedBuffer_reset b) []"
  by (auto simp: fb_holds_def FixedBuffer_reset_def)

lemma fb_holds_toString: "fb_holds n b t \<Longrightarrow> FixedBuffer_toString b = Inr t"
  by (auto simp: fb_holds_def FixedBuffer_toString_def fb_length_def read_bytes_def)

lemma fb_avail_holds: "fb_holds n b t \<Longrightarrow> fb_avail b = int (n - length t)"
  by (auto simp: fb_holds_def fb_avail_def)

lemma int_to_size_nonneg: "0 \<le> i \<Longrightarrow> i < 2 ^ 64 \<Longrightarrow> int_to_size i = nat i"
  by (simp add: int_to_size_def)

text \<open>Writing text \<open>x\<close> and scratch bytes \<open>z\<close> behind it, and moving the position behind the text.\<close>

lemma write_holds:
  assumes "fb_holds n b t" and "length t + length x + length z \<le> n" and "length t + length x < n"
  shows "write_bytes (fb_cur b) (x @ z) (fb_data b) = Inr (copy_at (length t) (x @ z) (fb_data b))"
    and "fb_holds n (fb_add (length x) (b\<lparr>fb_data := copy_at (length t) (x @ z) (fb_data b)\<rparr>)) (t @ x)"
proof -
  show "write_bytes (fb_cur b) (x @ z) (fb_data b) = Inr (copy_at (length t) (x @ z) (fb_data b))"
    using assms by (auto simp: write_bytes_def fb_holds_def)
  have "take (length t + length x) (copy_at (length t) (x @ z) (fb_data b)) = t @ x"
    using assms by (auto simp: fb_holds_def copy_at_def)
  then show "fb_holds n (fb_add (length x) (b\<lparr>fb_data := copy_at (length t) (x @ z) (fb_data b)\<rparr>)) (t @ x)"
    using assms by (auto simp: fb_holds_def fb_add_def)
qed

text \<open>What appending does to the text: the operand is appended whole or not at all.\<close>

definition text_append :: "nat \<Rightarrow> string \<Rightarrow> string \<Rightarrow> string" where
  "text_append n x t = (if length t + length x < n then t @ x else t)"

definition number_append :: "nat \<Rightarrow> string \<Rightarrow> string \<Rightarrow> string" where
  "number_append n x t = (if length t + 48 \<le> n then t @ x else t)"

lemma append_holds:
  assumes h: "fb_holds n b t" and len: "len \<le> length buf"
  shows "\<exists>b'. FixedBuffer_append buf len b = Inr b' \<and> fb_holds n b' (text_append n (take len buf) t)"
proof -
  have a: "int_to_size (fb_avail b) = n - length t"
    unfolding fb_avail_holds [OF h] using h by (subst int_to_size_nonneg) (auto simp: fb_holds_def)
  show ?thesis
  proof (cases "length t + len < n")
    case True
    from write_holds [OF h, of "take len buf" "[]"] True len
    have w: "write_bytes (fb_cur b) (take len buf) (fb_data b) = Inr (copy_at (length t) (take len buf) (fb_data b))"
      "fb_holds n (fb_add len (b\<lparr>fb_data := copy_at (length t) (take len buf) (fb_data b)\<rparr>)) (t @ take len buf)" by simp_all
    have "FixedBuffer_append buf len b = Inr (fb_add len (b\<lparr>fb_data := copy_at (length t) (take len buf) (fb_data b)\<rparr>))"
      unfolding FixedBuffer_append_def a using True len w(1) by (simp add: read_bytes_def fb_add_def)
    with w(2) True len show ?thesis by (simp add: text_append_def)
  next
    case False
    then have "\<not> n - length t > len" by linarith
    with False show ?thesis unfolding FixedBuffer_append_def a using h len by (simp add: text_append_def)
  qed
qed

lemma convert_holds:
  assumes "fb_holds n b t" and "length t + 48 \<le> n" and "\<bar>v\<bar> < 2 ^ 64"
  shows "\<exists>len d. convert (fb_cur b) v (fb_data b) = Inr (len, d) \<and> fb_holds n (fb_add len (b\<lparr>fb_data := d\<rparr>)) (t @ dec_int v)"
proof -
  have l: "length (dec_int v) \<le> 21" by (rule length_dec_int [OF assms(3)])
  note w = write_holds [OF assms(1), of "dec_int v" "[CHR 0x00]"]
  have "length (convert_digits v @ (if v < 0 then ''-'' else [])) = length (dec_int v)"
    by (metis convert_text length_rev)
  then show ?thesis using w l assms(2) unfolding convert_def Let_def convert_text by auto
qed

lemma convertHex_holds:
  assumes "fb_holds n b t" and "length t + 46 \<le> n"
  shows "\<exists>len d. convertHex (fb_cur b) v (fb_data b) = Inr (len, d) \<and> fb_holds n (fb_add len (b\<lparr>fb_data := d\<rparr>)) (t @ hex_nat (unat v))"
proof -
  have "unat v < 2 ^ LENGTH(64)" by (rule unsigned_less)
  then have "unat v < 16 ^ 16" by simp
  from length_hex_nat [OF this] have l: "length (hex_nat (unat v)) \<le> 16" by simp
  note w = write_holds [OF assms(1), of "hex_nat (unat v)" "[CHR 0x00]"]
  have "length (convertHex_digits (unat v)) = length (hex_nat (unat v))"
    by (metis convertHex_text length_rev)
  then show ?thesis using w l assms(2) unfolding convertHex_def Let_def convertHex_text by auto
qed

section \<open>The text of a stream\<close>

abbreviation ls_holds :: "LogStream \<Rightarrow> string \<Rightarrow> bool" where
  "ls_holds s t \<equiv> fb_holds kSmallBuffer (ls_buffer s) t"

lemma to_buffer_holds:
  assumes "\<exists>b'. f (ls_buffer s) = Inr b' \<and> fb_holds n b' t"
  shows "\<exists>s'. to_buffer f s = Inr s' \<and> fb_holds n (ls_buffer s') t"
  using assms by (auto simp: to_buffer_def)

lemma append_stream:
  assumes "ls_holds s t" and "len \<le> length buf"
  shows "\<exists>s'. to_buffer (FixedBuffer_append buf len) s = Inr s' \<and> ls_holds s' (text_append kSmallBuffer (take len buf) t)"
  by (rule to_buffer_holds) (rule append_holds [OF assms])

lemma avail_number: "fb_holds n b t \<Longrightarrow> kMaxNumericSize \<le> fb_avail b \<longleftrightarrow> length t + 48 \<le> n"
  by (auto simp: fb_avail_holds kMaxNumericSize_def)

lemma formatInteger_stream:
  assumes h: "ls_holds s t" and v: "\<bar>v\<bar> < 2 ^ 64"
  shows "\<exists>s'. formatInteger v s = Inr s' \<and> ls_holds s' (number_append kSmallBuffer (dec_int v) t)"
  unfolding formatInteger_def
proof (rule to_buffer_holds, cases "length t + 48 \<le> kSmallBuffer")
  case True
  with convert_holds [OF h True v] avail_number [OF h]
  show "\<exists>b'. (if fb_avail (ls_buffer s) \<ge> kMaxNumericSize
     then andThen (convert (fb_cur (ls_buffer s)) v (fb_data (ls_buffer s))) (\<lambda>(len, d). Inr (fb_add len (ls_buffer s\<lparr>fb_data := d\<rparr>)))
     else Inr (ls_buffer s)) = Inr b' \<and> fb_holds kSmallBuffer b' (number_append kSmallBuffer (dec_int v) t)"
    by (auto simp: number_append_def)
qed (use h avail_number [OF h] in \<open>simp add: number_append_def\<close>)

lemma shl_ptr_stream:
  assumes h: "ls_holds s t"
  shows "\<exists>s'. shl_ptr v s = Inr s' \<and> ls_holds s' (number_append kSmallBuffer (''0x'' @ hex_nat (unat v)) t)"
  unfolding shl_ptr_def
proof (rule to_buffer_holds, cases "length t + 48 \<le> kSmallBuffer")
  case True
  let ?b = "ls_buffer s"
  define d1 where "d1 = copy_at (length t) ''0x'' (fb_data ?b)"
  from write_holds [OF h, of "''0x''" "[]"] True
  have w: "write_bytes (fb_cur ?b) ''0x'' (fb_data ?b) = Inr d1" "fb_holds kSmallBuffer (fb_add 2 (?b\<lparr>fb_data := d1\<rparr>)) (t @ ''0x'')"
    by (simp_all add: d1_def numeral_2_eq_2)
  from convertHex_holds [OF w(2), of v] True obtain len d where
    "convertHex (fb_cur ?b + 2) v d1 = Inr (len, d)" "fb_holds kSmallBuffer (fb_add (len + 2) (?b\<lparr>fb_data := d\<rparr>)) (t @ ''0x'' @ hex_nat (unat v))"
    by (auto simp: fb_add_def add.commute add.left_commute)
  with w(1) True avail_number [OF h]
  show "\<exists>b'. (if fb_avail ?b \<ge> kMaxNumericSize
     then andThen (write_bytes (fb_cur ?b) ''0x'' (fb_data ?b)) (\<lambda>d.
          andThen (convertHex (fb_cur ?b + 2) v d) (\<lambda>(len, d). Inr (fb_add (len + 2) (?b\<lparr>fb_data := d\<rparr>))))
     else Inr ?b) = Inr b' \<and> fb_holds kSmallBuffer b' (number_append kSmallBuffer (''0x'' @ hex_nat (unat v)) t)"
    by (simp add: number_append_def)
qed (use h avail_number [OF h] in \<open>simp add: number_append_def\<close>)

lemma shl_double_stream:
  assumes h: "ls_holds s t" and g: "length (g v) < 48"
  shows "\<exists>s'. shl_double g v s = Inr s' \<and> ls_holds s' (number_append kSmallBuffer (g v) t)"
  unfolding shl_double_def
proof (rule to_buffer_holds, cases "length t + 48 \<le> kSmallBuffer")
  case True
  let ?b = "ls_buffer s"
  from g have "snprintf (nat kMaxNumericSize) (g v) = g v" by (simp add: snprintf_def kMaxNumericSize_def)
  with write_holds [OF h, of "g v" "[CHR 0x00]"] True g avail_number [OF h]
  show "\<exists>b'. (if fb_avail ?b \<ge> kMaxNumericSize
     then andThen (write_bytes (fb_cur ?b) (snprintf (nat kMaxNumericSize) (g v) @ [CHR 0x00]) (fb_data ?b)) (\<lambda>d.
          Inr (fb_add (length (g v)) (?b\<lparr>fb_data := d\<rparr>)))
     else Inr ?b) = Inr b' \<and> fb_holds kSmallBuffer b' (number_append kSmallBuffer (g v) t)"
    by (simp add: number_append_def)
qed (use h avail_number [OF h] in \<open>simp add: number_append_def\<close>)

text \<open>The operands of the stream, what the operators do with them, and their texts.\<close>

datatype 'd operand =
    Op_bool bool | Op_short "16 word" | Op_ushort "16 word" | Op_int "32 word" | Op_uint "32 word"
  | Op_long "64 word" | Op_ulong "64 word" | Op_llong "64 word" | Op_ullong "64 word" | Op_ptr "64 word"
  | Op_double 'd | Op_char char | Op_cstr "string option" | Op_ucstr "string option" | Op_string string | Op_piece StringPiece
  | Op_buffer FixedBuffer | Op_Fmt Fmt

fun shl :: "('d \<Rightarrow> string) \<Rightarrow> 'd operand \<Rightarrow> LogStream \<Rightarrow> LogStream outcome" where
  "shl g (Op_bool v) = shl_bool v"
| "shl g (Op_short v) = shl_short v"
| "shl g (Op_ushort v) = shl_ushort v"
| "shl g (Op_int v) = shl_int v"
| "shl g (Op_uint v) = shl_uint v"
| "shl g (Op_long v) = shl_long v"
| "shl g (Op_ulong v) = shl_ulong v"
| "shl g (Op_llong v) = shl_llong v"
| "shl g (Op_ullong v) = shl_ullong v"
| "shl g (Op_ptr v) = shl_ptr v"
| "shl g (Op_double v) = shl_double g v"
| "shl g (Op_char v) = shl_char v"
| "shl g (Op_cstr v) = shl_cstr v"
| "shl g (Op_ucstr v) = shl_ucstr v"
| "shl g (Op_string v) = shl_string v"
| "shl g (Op_piece v) = shl_StringPiece v"
| "shl g (Op_buffer v) = shl_Buffer v"
| "shl g (Op_Fmt v) = shl_Fmt v"

fun operand_ok :: "('d \<Rightarrow> string) \<Rightarrow> 'd operand \<Rightarrow> bool" where
  "operand_ok g (Op_double v) \<longleftrightarrow> length (g v) < 48"
| "operand_ok g (Op_piece v) \<longleftrightarrow> piece_wf v"
| "operand_ok g (Op_buffer v) \<longleftrightarrow> fb_cur v \<le> length (fb_data v) \<and> fb_cur v < 2 ^ 31"
| "operand_ok g (Op_Fmt v) \<longleftrightarrow> (\<exists>t. Fmt_new t = Inr v)"
| "operand_ok g _ \<longleftrightarrow> True"

fun operand_text :: "('d \<Rightarrow> string) \<Rightarrow> 'd operand \<Rightarrow> string" where
  "operand_text g (Op_bool v) = (if v then ''1'' else ''0'')"
| "operand_text g (Op_short v) = dec_int (sint v)"
| "operand_text g (Op_ushort v) = dec_int (uint v)"
| "operand_text g (Op_int v) = dec_int (sint v)"
| "operand_text g (Op_uint v) = dec_int (uint v)"
| "operand_text g (Op_long v) = dec_int (sint v)"
| "operand_text g (Op_ulong v) = dec_int (uint v)"
| "operand_text g (Op_llong v) = dec_int (sint v)"
| "operand_text g (Op_ullong v) = dec_int (uint v)"
| "operand_text g (Op_ptr v) = ''0x'' @ hex_nat (unat v)"
| "operand_text g (Op_double v) = g v"
| "operand_text g (Op_char v) = [v]"
| "operand_text g (Op_cstr v) = (case v of Some t \<Rightarrow> t | None \<Rightarrow> ''(null)'')"
| "operand_text g (Op_ucstr v) = (case v of Some t \<Rightarrow> t | None \<Rightarrow> ''(null)'')"
| "operand_text g (Op_string v) = v"
| "operand_text g (Op_piece v) = chars v"
| "operand_text g (Op_buffer v) = take (fb_cur v) (fb_data v)"
| "operand_text g (Op_Fmt v) = fmt_buf v"

fun operand_text_only :: "'d operand \<Rightarrow> bool" where
  "operand_text_only (Op_bool v) \<longleftrightarrow> True"
| "operand_text_only (Op_char v) \<longleftrightarrow> True"
| "operand_text_only (Op_cstr v) \<longleftrightarrow> True"
| "operand_text_only (Op_ucstr v) \<longleftrightarrow> True"
| "operand_text_only (Op_string v) \<longleftrightarrow> True"
| "operand_text_only (Op_piece v) \<longleftrightarrow> True"
| "operand_text_only (Op_buffer v) \<longleftrightarrow> True"
| "operand_text_only (Op_Fmt v) \<longleftrightarrow> True"
| "operand_text_only _ \<longleftrightarrow> False"

definition operand_append :: "('d \<Rightarrow> string) \<Rightarrow> 'd operand \<Rightarrow> string \<Rightarrow> string" where
  "operand_append g x = (if operand_text_only x then text_append else number_append) kSmallBuffer (operand_text g x)"

lemma sint_bound: "LENGTH('a) \<le> 64 \<Longrightarrow> \<bar>sint (v :: 'a::len word)\<bar> < 2 ^ 64"
proof -
  assume "LENGTH('a) \<le> 64"
  then have "(2 :: int) ^ (LENGTH('a) - Suc 0) < 2 ^ 64" by (intro power_strict_increasing) auto
  with sint_greater_eq [of v] sint_less [of v] show ?thesis by linarith
qed

lemma uint_bound: "LENGTH('a) \<le> 64 \<Longrightarrow> \<bar>uint (v :: 'a::len word)\<bar> < 2 ^ 64"
proof -
  assume "LENGTH('a) \<le> 64"
  then have "(2 :: int) ^ LENGTH('a) \<le> 2 ^ 64" by (rule power_increasing) simp
  moreover have "uint v < 2 ^ LENGTH('a)" by (rule unsigned_less)
  moreover have "0 \<le> uint v" by simp
  ultimately show ?thesis by linarith
qed

lemma piece_stream:
  assumes "ls_holds s t" and "piece_wf v"
  shows "\<exists>s'. shl_StringPiece v s = Inr s' \<and> ls_holds s' (text_append kSmallBuffer (chars v) t)"
proof -
  have "int_to_size (piece_len v) = nat (piece_len v)" using assms(2) by (simp add: int_to_size_nonneg piece_wf_def)
  with append_stream [OF assms(1), of "nat (piece_len v)" "ptr v"] assms(2) show ?thesis
    by (simp add: shl_StringPiece_def chars_def piece_wf_def)
qed

lemma Fmt_stream:
  assumes "ls_holds s t" and "Fmt_new x = Inr v"
  shows "\<exists>s'. shl_Fmt v s = Inr s' \<and> ls_holds s' (text_append kSmallBuffer (fmt_buf v) t)"
proof -
  from assms(2) have v: "fmt_buf v = x" "fmt_length v = int (length x)" "length x < 32"
    by (auto simp: Fmt_new_def assert_that_def snprintf_def split: if_splits)
  then have "int_to_size (fmt_length v) = length x" by (simp add: int_to_size_nonneg)
  with append_stream [OF assms(1), of "length x" x] v show ?thesis by (simp add: shl_Fmt_def LogStream_append_def)
qed

lemma integer_streams:
  assumes h: "ls_holds s t"
  shows "\<exists>s'. shl_short v0 s = Inr s' \<and> ls_holds s' (number_append kSmallBuffer (dec_int (sint v0)) t)"
    and "\<exists>s'. shl_ushort v1 s = Inr s' \<and> ls_holds s' (number_append kSmallBuffer (dec_int (uint v1)) t)"
    and "\<exists>s'. shl_int v2 s = Inr s' \<and> ls_holds s' (number_append kSmallBuffer (dec_int (sint v2)) t)"
    and "\<exists>s'. shl_uint v3 s = Inr s' \<and> ls_holds s' (number_append kSmallBuffer (dec_int (uint v3)) t)"
    and "\<exists>s'. shl_long v4 s = Inr s' \<and> ls_holds s' (number_append kSmallBuffer (dec_int (sint v4)) t)"
    and "\<exists>s'. shl_ulong v5 s = Inr s' \<and> ls_holds s' (number_append kSmallBuffer (dec_int (uint v5)) t)"
    and "\<exists>s'. shl_llong v6 s = Inr s' \<and> ls_holds s' (number_append kSmallBuffer (dec_int (sint v6)) t)"
    and "\<exists>s'. shl_ullong v7 s = Inr s' \<and> ls_holds s' (number_append kSmallBuffer (dec_int (uint v7)) t)"
proof -
  have "sint (scast v0 :: 32 word) = sint v0" by (rule sint_up_scast) (simp add: is_up)
  then show "\<exists>s'. shl_short v0 s = Inr s' \<and> ls_holds s' (number_append kSmallBuffer (dec_int (sint v0)) t)"
    using formatInteger_stream [OF h sint_bound, of v0] by (simp add: shl_short_def shl_int_def)
  have "uint (ucast v1 :: 32 word) = uint v1" by (rule uint_up_ucast) (simp add: is_up)
  then show "\<exists>s'. shl_ushort v1 s = Inr s' \<and> ls_holds s' (number_append kSmallBuffer (dec_int (uint v1)) t)"
    using formatInteger_stream [OF h uint_bound, of v1] by (simp add: shl_ushort_def shl_uint_def)
qed (unfold shl_int_def shl_uint_def shl_long_def shl_ulong_def shl_llong_def shl_ullong_def,
  (rule formatInteger_stream [OF h], rule sint_bound uint_bound, simp)+)

lemma text_streams:
  assumes h: "ls_holds s t"
  shows "\<exists>s'. shl_bool v0 s = Inr s' \<and> ls_holds s' (text_append kSmallBuffer (if v0 then ''1'' else ''0'') t)"
    and "\<exists>s'. shl_char v1 s = Inr s' \<and> ls_holds s' (text_append kSmallBuffer [v1] t)"
    and "\<exists>s'. shl_string v2 s = Inr s' \<and> ls_holds s' (text_append kSmallBuffer v2 t)"
    and "\<exists>s'. shl_cstr v3 s = Inr s' \<and> ls_holds s' (text_append kSmallBuffer (case v3 of Some t \<Rightarrow> t | None \<Rightarrow> ''(null)'') t)"
proof -
  show "\<exists>s'. shl_bool v0 s = Inr s' \<and> ls_holds s' (text_append kSmallBuffer (if v0 then ''1'' else ''0'') t)"
    using append_stream [OF h, of 1 "if v0 then ''1'' else ''0''"] by (cases v0) (simp_all add: shl_bool_def)
  show "\<exists>s'. shl_char v1 s = Inr s' \<and> ls_holds s' (text_append kSmallBuffer [v1] t)"
    using append_stream [OF h, of 1 "[v1]"] by (simp add: shl_char_def)
  show "\<exists>s'. shl_string v2 s = Inr s' \<and> ls_holds s' (text_append kSmallBuffer v2 t)"
    using append_stream [OF h, of "length v2" v2] by (simp add: shl_string_def)
  show "\<exists>s'. shl_cstr v3 s = Inr s' \<and> ls_holds s' (text_append kSmallBuffer (case v3 of Some t \<Rightarrow> t | None \<Rightarrow> ''(null)'') t)"
    using append_stream [OF h, of 6 "''(null)''"] append_stream [OF h, of "length (the v3)" "the v3"]
    by (cases v3) (simp_all add: shl_cstr_def)
qed

lemma shl_holds:
  assumes h: "ls_holds s t" and ok: "operand_ok g x"
  shows "\<exists>s'. shl g x s = Inr s' \<and> ls_holds s' (operand_append g x t)"
proof (cases x)
  case (Op_double v)
  then show ?thesis using shl_double_stream [OF h] ok by (simp add: operand_append_def)
next
  case (Op_piece v)
  then show ?thesis using piece_stream [OF h] ok by (simp add: operand_append_def)
next
  case (Op_buffer v)
  then show ?thesis using piece_stream [OF h, of "FixedBuffer_toStringPiece v"] ok
    by (simp add: operand_append_def shl_Buffer_def FixedBuffer_toStringPiece_def StringPiece_make_def piece_wf_def chars_def fb_length_def)
next
  case (Op_Fmt v)
  then show ?thesis using Fmt_stream [OF h] ok by (auto simp: operand_append_def)
qed (simp_all only: shl.simps operand_append_def operand_text.simps operand_text_only.simps if_True if_False shl_ucstr_def integer_streams [OF h] text_streams [OF h] shl_ptr_stream [OF h])

lemma for_each_shl:
  assumes "\<forall>x \<in> set xs. operand_ok g x" and "ls_holds s t"
  shows "\<exists>s'. for_each (shl g) xs s = Inr s' \<and> ls_holds s' (fold (operand_append g) xs t)"
  using assms
proof (induction xs arbitrary: s t)
  case (Cons x xs)
  from shl_holds [OF Cons.prems(2), of g x] Cons.prems(1) obtain s1
    where "shl g x s = Inr s1" "ls_holds s1 (operand_append g x t)" by auto
  with Cons.IH [of s1] Cons.prems(1) show ?case by simp
qed simp

text \<open>Nothing is dropped from a line that leaves the 48 bytes free that a number asks for.\<close>

lemma nothing_dropped:
  assumes "length t + length (concat (map (operand_text g) xs)) + 48 \<le> kSmallBuffer"
  shows "fold (operand_append g) xs t = t @ concat (map (operand_text g) xs)"
  using assms
proof (induction xs arbitrary: t)
  case (Cons x xs)
  then have "operand_append g x t = t @ operand_text g x" by (simp add: operand_append_def text_append_def number_append_def)
  with Cons show ?case by simp
qed simp

text \<open>
  C27. Log lines are built without leaving the buffer: whatever is inserted into a stream, no operator writes outside of its
  array, and the text of the stream is that of the operands, in order, each appended whole when there
  is room for it and dropped otherwise. Integers of every width, the smallest ones included, and pointers have their usual decimal and hexadecimal
  notation. The hypothesis bounds what \<^verbatim>\<open>%.12g\<close> prints.
\<close>

theorem log_stream_text:
  assumes "length raw = kSmallBuffer" and "\<forall>x \<in> set xs. operand_ok g x"
  shows "\<exists>s. for_each (shl g) xs (LogStream_new raw) = Inr s
    \<and> FixedBuffer_toString (ls_buffer s) = Inr (fold (operand_append g) xs []) \<and> fb_avail (ls_buffer s) > 0"
proof -
  have "ls_holds (LogStream_new raw) []"
    using fb_holds_new [of raw] assms(1) by (simp add: LogStream_new_def kSmallBuffer_def)
  from for_each_shl [OF assms(2) this] obtain s where s: "for_each (shl g) xs (LogStream_new raw) = Inr s" "ls_holds s (fold (operand_append g) xs [])" by blast
  have "fb_avail (ls_buffer s) > 0" unfolding fb_avail_holds [OF s(2)] using s(2) by (simp add: fb_holds_def)
  with s fb_holds_toString [OF s(2)] show ?thesis by blast
qed

theorem log_stream_text_witness:
  "\<exists>s. for_each (shl (\<lambda>d. ''0.5'')) [Op_cstr (Some ''x=''), Op_int (-5), Op_ptr 255, Op_double ()] (LogStream_new (replicate 4000 (CHR 0x00))) = Inr s
    \<and> FixedBuffer_toString (ls_buffer s) = Inr ''x=-50xFF0.5''"
proof -
  have n: "dec_nat 5 = ''5''" "hex_nat 255 = ''FF''"
    by (simp_all add: dec_nat.simps hex_nat.simps digit_chars digitsHex_def)
  from log_stream_text [of "replicate 4000 (CHR 0x00)" "[Op_cstr (Some ''x=''), Op_int (-5), Op_ptr 255, Op_double ()]" "\<lambda>d. ''0.5''"]
  show ?thesis by (simp add: kSmallBuffer_def operand_append_def text_append_def number_append_def dec_int_def n) blast
qed

text \<open>Appending to a large buffer, as the asynchronous log does, is the same: whole or not at all.\<close>

lemma fixed_buffer_append:
  assumes "fb_holds n b t"
  shows "\<exists>b'. FixedBuffer_append x (length x) b = Inr b' \<and> fb_holds n b' (if length t + length x < n then t @ x else t)"
  using append_holds [OF assms, of "length x" x] by (simp add: text_append_def)

section \<open>Quantities\<close>

text \<open>The decimal notation of \<open>m / 10 ^ k\<close> with \<open>k\<close> digits behind the point.\<close>

definition fixed_text :: "nat \<Rightarrow> nat \<Rightarrow> string" where
  "fixed_text k m = dec_nat (m div 10 ^ k) @ (if k = 0 then [] else CHR ''.'' # pad_left k (CHR ''0'') (dec_nat (m mod 10 ^ k)))"

lemma length_fixed_text:
  assumes "m < 1000" and "k \<le> 2"
  shows "length (fixed_text k m) \<le> 4"
proof -
  have "k = 0 \<or> k = 1 \<or> k = 2" using assms(2) by linarith
  moreover have "length (dec_nat m) \<le> 3" by (rule length_dec_nat) (use assms(1) in simp_all)
  moreover have "length (dec_nat (m div 10)) \<le> 2" "length (dec_nat (m mod 10)) \<le> 1"
    "length (dec_nat (m div 100)) \<le> 1" "length (dec_nat (m mod 100)) \<le> 2"
    by (rule length_dec_nat; use assms(1) in \<open>simp add: less_mult_imp_div_less\<close>)+
  ultimately show ?thesis by (auto simp: fixed_text_def pad_left_def)
qed

text \<open>\<open>fixed\<close> rounds the quotient to the nearest number with \<open>k\<close> digits.\<close>

definition rounds_to_nearest :: "(nat \<Rightarrow> int \<Rightarrow> int \<Rightarrow> string) \<Rightarrow> int \<Rightarrow> bool" where
  "rounds_to_nearest fixed s \<longleftrightarrow> (\<forall>k d. 0 < d \<longrightarrow> (\<exists>m. fixed k s d = fixed_text k m \<and> 2 * \<bar>int m * d - s * 10 ^ k\<bar> \<le> d))"

lemma fixed_short:
  assumes "rounds_to_nearest fixed s" and "2 * (s * 10 ^ k) < 1999 * d" and "k \<le> 2" and "0 < d"
  shows "length (fixed k s d) \<le> 4"
proof -
  from assms(1,4) obtain m where m: "fixed k s d = fixed_text k m" "2 * \<bar>int m * d - s * 10 ^ k\<bar> \<le> d"
    unfolding rounds_to_nearest_def by blast
  have "2 * (int m * d - s * 10 ^ k) \<le> d"
    by (rule order_trans [OF mult_left_mono [OF abs_ge_self] m(2)]) simp
  moreover have "2 * (a - b) \<le> d \<Longrightarrow> 2 * b < 1999 * d \<Longrightarrow> a < 1000 * d" for a b :: int by (simp add: algebra_simps)
  ultimately have "int m * d < 1000 * d" using assms(2) by blast
  then have "m < 1000" using assms(4) by simp
  from length_fixed_text [OF this assms(3)] m(1) show ?thesis by simp
qed

text \<open>A quantity takes at most five characters, up to the range in which a \<^verbatim>\<open>double\<close> tells all of them apart.\<close>

lemma formatSI_short:
  assumes "0 \<le> s" and "s < 999500000000000" and r: "rounds_to_nearest fixed s"
  shows "length (formatSI fixed s) \<le> 5"
proof -
  define short where "short t \<longleftrightarrow> length t \<le> 5" for t :: string
  have if_short: "(c \<Longrightarrow> short x) \<Longrightarrow> (\<not> c \<Longrightarrow> short y) \<Longrightarrow> short (if c then x else y)" for c x y by simp
  have f: "2 * (s * 10 ^ k) < 1999 * d \<Longrightarrow> k \<le> 2 \<Longrightarrow> 0 < d \<Longrightarrow> short (fixed k s d @ [c])" for k d c
    using fixed_short [OF r, of k d] by (simp add: short_def)
  have d: "short (dec_int s)" if "s < 1000"
  proof -
    have "nat s < 10 ^ 3" using that by simp
    from length_dec_nat [OF this] assms(1) show ?thesis by (simp add: dec_int_def short_def)
  qed
  have big: "\<not> s < 999500000000000 \<Longrightarrow> short x" for x using assms(2) by simp
  have "length (snprintf 64 t) \<le> length t" for t by (simp add: snprintf_def)
  moreover have "short (if s < 1000 then dec_int s
      else if s < 9995 then fixed 2 s (10 ^ 3) @ ''k''
      else if s < 99950 then fixed 1 s (10 ^ 3) @ ''k''
      else if s < 999500 then fixed 0 s (10 ^ 3) @ ''k''
      else if s < 9995000 then fixed 2 s (10 ^ 6) @ ''M''
      else if s < 99950000 then fixed 1 s (10 ^ 6) @ ''M''
      else if s < 999500000 then fixed 0 s (10 ^ 6) @ ''M''
      else if s < 9995000000 then fixed 2 s (10 ^ 9) @ ''G''
      else if s < 99950000000 then fixed 1 s (10 ^ 9) @ ''G''
      else if s < 999500000000 then fixed 0 s (10 ^ 9) @ ''G''
      else if s < 9995000000000 then fixed 2 s (10 ^ 12) @ ''T''
      else if s < 99950000000000 then fixed 1 s (10 ^ 12) @ ''T''
      else if s < 999500000000000 then fixed 0 s (10 ^ 12) @ ''T'' else x)" for x
    by (intro if_short; (erule d | erule big | (rule f; simp)))
  ultimately show ?thesis unfolding formatSI_def short_def by (meson order_trans)
qed

end
