(* ===== verification/Muduo_Logging.thy ===== *)
theory Muduo_Logging
  imports Muduo_LogStream
begin

text \<open>
  Logging: \<^verbatim>\<open>base/Logging.h\<close> and \<^verbatim>\<open>base/Logging.cc\<close>, with the cached thread id of \<^verbatim>\<open>base/CurrentThread.h\<close> and
  \<^verbatim>\<open>base/Thread.cc\<close>. A log statement builds its line in a stream on the stack and hands it to the output
  function. The clock, the thread id, \<^verbatim>\<open>errno\<close> and its texts and \<^verbatim>\<open>gmtime_r\<close> are arguments.
\<close>

section \<open>The state of a thread\<close>

record log_thread =
  t_cachedTid :: int
  t_tidString :: string
  t_tidStringLength :: int
  t_time :: string
  t_lastSecond :: int

definition log_thread_init :: log_thread where
  "log_thread_init = \<lparr>t_cachedTid = 0, t_tidString = [], t_tidStringLength = 6, t_time = [], t_lastSecond = 0\<rparr>"

definition cacheTid :: "int \<Rightarrow> log_thread \<Rightarrow> log_thread" where
  "cacheTid gettid th = (if t_cachedTid th = 0
     then let text_tid = pad_left 5 (CHR '' '') (dec_int gettid) @ '' ''
          in th\<lparr>t_cachedTid := gettid, t_tidString := snprintf 32 text_tid, t_tidStringLength := int (length text_tid)\<rparr>
     else th)"

definition CurrentThread_tid :: "int \<Rightarrow> log_thread \<Rightarrow> int \<times> log_thread" where
  "CurrentThread_tid gettid th = (let th = (if t_cachedTid th = 0 then cacheTid gettid th else th) in (t_cachedTid th, th))"

section \<open>Logger\<close>

datatype LogLevel = TRACE | DEBUG | INFO | WARN | ERROR | FATAL

fun LogLevelName :: "LogLevel \<Rightarrow> string" where
  "LogLevelName TRACE = ''TRACE ''"
| "LogLevelName DEBUG = ''DEBUG ''"
| "LogLevelName INFO = ''INFO  ''"
| "LogLevelName WARN = ''WARN  ''"
| "LogLevelName ERROR = ''ERROR ''"
| "LogLevelName FATAL = ''FATAL ''"

fun level_number :: "LogLevel \<Rightarrow> nat" where
  "level_number TRACE = 0"
| "level_number DEBUG = 1"
| "level_number INFO = 2"
| "level_number WARN = 3"
| "level_number ERROR = 4"
| "level_number FATAL = 5"

definition initLogLevel :: "(string \<Rightarrow> bool) \<Rightarrow> LogLevel" where
  "initLogLevel getenv =
     (if getenv ''MUDUO_LOG_TRACE'' then TRACE else if getenv ''MUDUO_LOG_DEBUG'' then DEBUG else INFO)"

text \<open>\<^verbatim>\<open>strrchr\<close>: the bytes behind the last slash of a path, if there is one.\<close>

definition after_slash :: "string \<Rightarrow> string option" where
  "after_slash s = (if CHR ''/'' \<in> set s then Some (rev (takeWhile (\<lambda>c. c \<noteq> CHR ''/'') (rev s))) else None)"

record SourceFile =
  sf_data :: string
  sf_size :: int

text \<open>The constructor from an array, a string literal with its terminator, and the one from a pointer.\<close>

definition SourceFile_array :: "string \<Rightarrow> SourceFile" where
  "SourceFile_array arr = (case after_slash arr of
       Some d \<Rightarrow> \<lparr>sf_data = d, sf_size = int (length arr) - int (length arr - length d)\<rparr>
     | None \<Rightarrow> \<lparr>sf_data = arr, sf_size = int (length arr)\<rparr>)"

definition SourceFile_cstr :: "string \<Rightarrow> SourceFile" where
  "SourceFile_cstr filename =
     (let d = (case after_slash filename of Some d \<Rightarrow> d | None \<Rightarrow> filename) in \<lparr>sf_data = d, sf_size = int (length d)\<rparr>)"

text \<open>The helper class \<^verbatim>\<open>T\<close> for strings of known length.\<close>

definition T_new :: "string \<Rightarrow> nat \<Rightarrow> (string \<times> nat) outcome" where
  "T_new str len = assert_that (length str = len) ''strlen(str) == len_'' (Inr (str, len))"

definition shl_T :: "string \<times> nat \<Rightarrow> LogStream \<Rightarrow> LogStream outcome" where
  "shl_T v s = LogStream_append (fst v) (int (snd v)) s"

definition shl_SourceFile :: "SourceFile \<Rightarrow> LogStream \<Rightarrow> LogStream outcome" where
  "shl_SourceFile v s = LogStream_append (sf_data v) (sf_size v) s"

text \<open>
  What the program asks of its environment, and the global variables: the level, the zone and the two
  functions, which act on the outside world \<open>'o\<close>.
\<close>

record log_env =
  le_now :: Timestamp
  le_gmtime :: "int \<Rightarrow> struct_tm"
  le_gettid :: int
  le_errno :: "32 word"
  le_strerror :: "32 word \<Rightarrow> string"
  le_raw :: string

record 'o log_globals =
  g_logLevel :: LogLevel
  g_output :: "string \<Rightarrow> 'o \<Rightarrow> 'o"
  g_flush :: "'o \<Rightarrow> 'o"
  g_logTimeZone :: "Data option"

definition setLogLevel :: "LogLevel \<Rightarrow> 'o log_globals \<Rightarrow> 'o log_globals" where
  "setLogLevel level g = g\<lparr>g_logLevel := level\<rparr>"

definition setOutput :: "(string \<Rightarrow> 'o \<Rightarrow> 'o) \<Rightarrow> 'o log_globals \<Rightarrow> 'o log_globals" where
  "setOutput out g = g\<lparr>g_output := out\<rparr>"

definition setFlush :: "('o \<Rightarrow> 'o) \<Rightarrow> 'o log_globals \<Rightarrow> 'o log_globals" where
  "setFlush flush g = g\<lparr>g_flush := flush\<rparr>"

definition setTimeZone :: "Data option \<Rightarrow> 'o log_globals \<Rightarrow> 'o log_globals" where
  "setTimeZone tz g = g\<lparr>g_logTimeZone := tz\<rparr>"

record Impl =
  li_time :: Timestamp
  li_stream :: LogStream
  li_level :: LogLevel
  li_line :: "32 word"
  li_basename :: SourceFile

definition to_stream :: "(LogStream \<Rightarrow> LogStream outcome) \<Rightarrow> Impl \<Rightarrow> Impl outcome" where
  "to_stream f i = andThen (f (li_stream i)) (\<lambda>s. Inr (i\<lparr>li_stream := s\<rparr>))"

text \<open>The time of a second as \<^verbatim>\<open>%4d%02d%02d %02d:%02d:%02d\<close> prints it.\<close>

definition time_text :: "struct_tm \<Rightarrow> string" where
  "time_text t = pad_left 4 (CHR '' '') (dec_int (tm_year t + 1900)) @ dec_pad0 2 (tm_mon t + 1) @ dec_pad0 2 (tm_mday t) @ '' ''
     @ dec_pad0 2 (tm_hour t) @ '':'' @ dec_pad0 2 (tm_min t) @ '':'' @ dec_pad0 2 (tm_sec t)"

definition broken_down :: "(int \<Rightarrow> struct_tm) \<Rightarrow> Data option \<Rightarrow> int \<Rightarrow> struct_tm outcome" where
  "broken_down gmtime tz seconds = (if TimeZone_valid tz then toLocalTime gmtime tz seconds else Inr (gmtime seconds))"

definition formatTime :: "(int \<Rightarrow> struct_tm) \<Rightarrow> Data option \<Rightarrow> log_thread \<times> Impl \<Rightarrow> (log_thread \<times> Impl) outcome" where
  "formatTime gmtime tz s = (case s of (th, i) \<Rightarrow>
     let seconds = li_time i sdiv kMicroSecondsPerSecond;
         microseconds = to_int (li_time i smod kMicroSecondsPerSecond)
     in andThen
       (if seconds \<noteq> t_lastSecond th then
          andThen (broken_down gmtime tz seconds) (\<lambda>tm_time.
          assert_that (length (time_text tm_time) = 17) ''len == 17''
            (Inr (th\<lparr>t_lastSecond := seconds, t_time := snprintf 64 (time_text tm_time)\<rparr>)))
        else Inr th) (\<lambda>th.
     andThen (Fmt_new (if TimeZone_valid tz then ''.'' @ dec_pad0 6 microseconds @ '' '' else ''.'' @ dec_pad0 6 microseconds @ ''Z '')) (\<lambda>us.
     let n = (if TimeZone_valid tz then 8 else 9) in
     assert_that (fmt_length us = int n) (if TimeZone_valid tz then ''us.length() == 8'' else ''us.length() == 9'')
       (andThen (T_new (t_time th) 17) (\<lambda>v1. andThen (T_new (fmt_buf us) n) (\<lambda>v2.
        andThen (to_stream (shl_T v1) i) (\<lambda>i. andThen (to_stream (shl_T v2) i) (\<lambda>i. Inr (th, i)))))))))"

text \<open>The constructor of \<^verbatim>\<open>Impl\<close>. The stream is new, on an array with arbitrary contents.\<close>

definition Impl_new :: "log_env \<Rightarrow> Data option \<Rightarrow> LogLevel \<Rightarrow> 32 word \<Rightarrow> SourceFile \<Rightarrow> 32 word \<Rightarrow> log_thread \<Rightarrow> (log_thread \<times> Impl) outcome" where
  "Impl_new env tz level savedErrno file line th =
     andThen (formatTime (le_gmtime env) tz
       (th, \<lparr>li_time = le_now env, li_stream = LogStream_new (le_raw env), li_level = level, li_line = line, li_basename = file\<rparr>)) (\<lambda>(th, i).
     let th = snd (CurrentThread_tid (le_gettid env) th) in
     andThen (T_new (t_tidString th) (nat (t_tidStringLength th))) (\<lambda>v1.
     andThen (to_stream (shl_T v1) i) (\<lambda>i.
     andThen (T_new (LogLevelName level) 6) (\<lambda>v2.
     andThen (to_stream (shl_T v2) i) (\<lambda>i.
     andThen (if savedErrno \<noteq> 0
        then andThen (to_stream (shl_cstr (Some (le_strerror env savedErrno))) i) (\<lambda>i.
             andThen (to_stream (shl_cstr (Some '' (errno='')) i) (\<lambda>i.
             andThen (to_stream (shl_int savedErrno) i)
               (to_stream (shl_cstr (Some '') '')))))
        else Inr i) (\<lambda>i. Inr (th, i)))))))"

definition Impl_finish :: "Impl \<Rightarrow> Impl outcome" where
  "Impl_finish i =
     andThen (to_stream (shl_cstr (Some '' - '')) i) (\<lambda>i.
     andThen (to_stream (shl_SourceFile (li_basename i)) i) (\<lambda>i.
     andThen (to_stream (shl_char (CHR '':'')) i) (\<lambda>i.
     andThen (to_stream (shl_int (li_line i)) i)
       (to_stream (shl_char (CHR 0x0A))))))"

definition Logger_info :: "log_env \<Rightarrow> Data option \<Rightarrow> SourceFile \<Rightarrow> 32 word \<Rightarrow> log_thread \<Rightarrow> (log_thread \<times> Impl) outcome" where
  "Logger_info env tz file line th = Impl_new env tz INFO 0 file line th"

definition Logger_func :: "log_env \<Rightarrow> Data option \<Rightarrow> SourceFile \<Rightarrow> 32 word \<Rightarrow> LogLevel \<Rightarrow> string \<Rightarrow> log_thread \<Rightarrow> (log_thread \<times> Impl) outcome" where
  "Logger_func env tz file line level func th = andThen (Impl_new env tz level 0 file line th) (\<lambda>(th, i).
     andThen (to_stream (shl_cstr (Some func)) i) (\<lambda>i. andThen (to_stream (shl_char (CHR '' '')) i) (\<lambda>i. Inr (th, i))))"

definition Logger_level :: "log_env \<Rightarrow> Data option \<Rightarrow> SourceFile \<Rightarrow> 32 word \<Rightarrow> LogLevel \<Rightarrow> log_thread \<Rightarrow> (log_thread \<times> Impl) outcome" where
  "Logger_level env tz file line level th = Impl_new env tz level 0 file line th"

definition Logger_errno :: "log_env \<Rightarrow> Data option \<Rightarrow> SourceFile \<Rightarrow> 32 word \<Rightarrow> bool \<Rightarrow> log_thread \<Rightarrow> (log_thread \<times> Impl) outcome" where
  "Logger_errno env tz file line toAbort th = Impl_new env tz (if toAbort then FATAL else ERROR) (le_errno env) file line th"

text \<open>The destructor. Its second result tells whether it calls \<^verbatim>\<open>abort()\<close>.\<close>

definition Logger_delete :: "'o log_globals \<Rightarrow> Impl \<Rightarrow> 'o \<Rightarrow> ('o \<times> bool) outcome" where
  "Logger_delete g i out = andThen (Impl_finish i) (\<lambda>i.
     andThen (read_bytes (fb_length (ls_buffer (li_stream i))) (fb_data (ls_buffer (li_stream i)))) (\<lambda>msg.
     let out = g_output g msg out in
     Inr (if li_level i = FATAL then (g_flush g out, True) else (out, False))))"

section \<open>Log statements\<close>

text \<open>The macros: whether a statement is enabled, and the logger it constructs.\<close>

datatype log_macro = LOG_TRACE | LOG_DEBUG | LOG_INFO | LOG_WARN | LOG_ERROR | LOG_FATAL | LOG_SYSERR | LOG_SYSFATAL

fun log_enabled :: "LogLevel \<Rightarrow> log_macro \<Rightarrow> bool" where
  "log_enabled l LOG_TRACE \<longleftrightarrow> level_number l \<le> level_number TRACE"
| "log_enabled l LOG_DEBUG \<longleftrightarrow> level_number l \<le> level_number DEBUG"
| "log_enabled l LOG_INFO \<longleftrightarrow> level_number l \<le> level_number INFO"
| "log_enabled l _ \<longleftrightarrow> True"

fun macro_logger :: "log_env \<Rightarrow> Data option \<Rightarrow> string \<Rightarrow> 32 word \<Rightarrow> string \<Rightarrow> log_macro \<Rightarrow> log_thread \<Rightarrow> (log_thread \<times> Impl) outcome" where
  "macro_logger env tz file line func LOG_TRACE = Logger_func env tz (SourceFile_array file) line TRACE func"
| "macro_logger env tz file line func LOG_DEBUG = Logger_func env tz (SourceFile_array file) line DEBUG func"
| "macro_logger env tz file line func LOG_INFO = Logger_info env tz (SourceFile_array file) line"
| "macro_logger env tz file line func LOG_WARN = Logger_level env tz (SourceFile_array file) line WARN"
| "macro_logger env tz file line func LOG_ERROR = Logger_level env tz (SourceFile_array file) line ERROR"
| "macro_logger env tz file line func LOG_FATAL = Logger_level env tz (SourceFile_array file) line FATAL"
| "macro_logger env tz file line func LOG_SYSERR = Logger_errno env tz (SourceFile_array file) line False"
| "macro_logger env tz file line func LOG_SYSFATAL = Logger_errno env tz (SourceFile_array file) line True"

definition log_statement ::
  "('d \<Rightarrow> string) \<Rightarrow> log_env \<Rightarrow> 'o log_globals \<Rightarrow> string \<Rightarrow> 32 word \<Rightarrow> string \<Rightarrow> log_macro \<Rightarrow> 'd operand list \<Rightarrow> log_thread \<times> 'o
     \<Rightarrow> ((log_thread \<times> 'o) \<times> bool) outcome" where
  "log_statement d env g file line func m xs s = (case s of (th, out) \<Rightarrow>
     if log_enabled (g_logLevel g) m then
       andThen (macro_logger env (g_logTimeZone g) file line func m th) (\<lambda>(th, i).
       andThen (to_stream (for_each (shl d) xs) i) (\<lambda>i.
       andThen (Logger_delete g i out) (\<lambda>(out, aborts). Inr ((th, out), aborts))))
     else Inr ((th, out), False))"

definition CheckNotNull ::
  "log_env \<Rightarrow> 'o log_globals \<Rightarrow> string \<Rightarrow> 32 word \<Rightarrow> string \<Rightarrow> 'p option \<Rightarrow> log_thread \<times> 'o \<Rightarrow> ((log_thread \<times> 'o) \<times> bool) outcome" where
  "CheckNotNull env g file line names p s = (case s of (th, out) \<Rightarrow>
     if p = None then
       andThen (Logger_level env (g_logTimeZone g) (SourceFile_array file) line FATAL th) (\<lambda>(th, i).
       andThen (to_stream (shl_cstr (Some names)) i) (\<lambda>i.
       andThen (Logger_delete g i out) (\<lambda>(out, aborts). Inr ((th, out), aborts))))
     else Inr ((th, out), False))"

section \<open>The line of a log statement\<close>

text \<open>
  A step on a logger that keeps its level, line and file and adds the texts of the operands \<open>xs\<close> to its
  stream.
\<close>

definition same_logger :: "Impl \<Rightarrow> Impl \<Rightarrow> bool" where
  "same_logger i j \<longleftrightarrow> li_level i = li_level j \<and> li_line i = li_line j \<and> li_basename i = li_basename j"

definition writes :: "('d \<Rightarrow> string) \<Rightarrow> Impl \<Rightarrow> (Impl \<Rightarrow> Impl outcome) \<Rightarrow> 'd operand list \<Rightarrow> bool" where
  "writes d i0 h xs \<longleftrightarrow> (\<forall>i t. same_logger i0 i \<longrightarrow> ls_holds (li_stream i) t \<longrightarrow>
     (\<exists>j. h i = Inr j \<and> same_logger i0 j \<and> ls_holds (li_stream j) (fold (operand_append d) xs t)))"

lemma writesD:
  assumes "writes d i0 h xs" and "same_logger i0 i" and "ls_holds (li_stream i) t"
  obtains j where "h i = Inr j" "same_logger i0 j" "ls_holds (li_stream j) (fold (operand_append d) xs t)"
  using assms unfolding writes_def by blast

lemma writes_then:
  assumes "writes d i0 h xs" and "writes d i0 k ys"
  shows "writes d i0 (\<lambda>i. andThen (h i) k) (xs @ ys)"
  unfolding writes_def
proof (intro allI impI)
  fix i t
  assume "same_logger i0 i" "ls_holds (li_stream i) t"
  from writesD [OF assms(1) this] obtain j where j: "h i = Inr j" "same_logger i0 j" "ls_holds (li_stream j) (fold (operand_append d) xs t)" .
  from writesD [OF assms(2) j(2,3)] obtain l
    where "k j = Inr l" "same_logger i0 l" "ls_holds (li_stream l) (fold (operand_append d) ys (fold (operand_append d) xs t))" .
  with j(1) show "\<exists>j. andThen (h i) k = Inr j \<and> same_logger i0 j \<and> ls_holds (li_stream j) (fold (operand_append d) (xs @ ys) t)" by simp
qed

lemma writes_Inr: "writes d i0 Inr []"
  by (simp add: writes_def)

lemma writes_stream:
  assumes "\<And>s t. ls_holds s t \<Longrightarrow> \<exists>s'. f s = Inr s' \<and> ls_holds s' (fold (operand_append d) xs t)"
  shows "writes d i0 (to_stream f) xs"
  unfolding writes_def
proof (intro allI impI)
  fix i t
  assume i: "same_logger i0 i" "ls_holds (li_stream i) t"
  from assms [OF i(2)] obtain s where "f (li_stream i) = Inr s" "ls_holds s (fold (operand_append d) xs t)" by blast
  with i(1) show "\<exists>j. to_stream f i = Inr j \<and> same_logger i0 j \<and> ls_holds (li_stream j) (fold (operand_append d) xs t)"
    by (simp add: to_stream_def same_logger_def)
qed

lemma writes_shl: "operand_ok d x \<Longrightarrow> writes d i0 (to_stream (shl d x)) [x]"
  by (rule writes_stream) (simp add: shl_holds)

lemma writes_shl_all: "\<forall>x \<in> set xs. operand_ok d x \<Longrightarrow> writes d i0 (to_stream (for_each (shl d) xs)) xs"
  by (rule writes_stream) (rule for_each_shl)

lemma LogStream_append_whole:
  assumes "ls_holds s t" and "length x < 2 ^ 31"
  shows "\<exists>s'. LogStream_append x (int (length x)) s = Inr s' \<and> ls_holds s' (text_append kSmallBuffer x t)"
  using append_stream [OF assms(1), of "length x" x] assms(2) by (simp add: LogStream_append_def)

lemma writes_T: "length x < 2 ^ 31 \<Longrightarrow> writes d i0 (to_stream (shl_T (x, length x))) [Op_string x]"
  by (rule writes_stream) (simp add: shl_T_def LogStream_append_whole operand_append_def)

lemma writes_cstr: "writes d i0 (to_stream (shl_cstr (Some x))) [Op_cstr (Some x)]"
  using writes_shl [of d "Op_cstr (Some x)"] by simp

lemma writes_int: "writes d i0 (to_stream (shl_int x)) [Op_int x]"
  using writes_shl [of d "Op_int x"] by simp

lemma writes_char: "writes d i0 (to_stream (shl_char x)) [Op_char x]"
  using writes_shl [of d "Op_char x"] by simp

text \<open>What the destructor appends.\<close>

definition file_ok :: "SourceFile \<Rightarrow> bool" where
  "file_ok f \<longleftrightarrow> sf_size f = int (length (sf_data f)) \<and> length (sf_data f) < 2 ^ 31"

definition trailer :: "SourceFile \<Rightarrow> 32 word \<Rightarrow> 'd operand list" where
  "trailer f line = [Op_cstr (Some '' - ''), Op_string (sf_data f), Op_char (CHR '':''), Op_int line, Op_char (CHR 0x0A)]"

lemma writes_cong: "(\<And>i. same_logger i0 i \<Longrightarrow> h i = k i) \<Longrightarrow> writes d i0 h xs = writes d i0 k xs"
  by (auto simp: writes_def)

lemma writes_finish:
  assumes "file_ok (li_basename i0)"
  shows "writes d i0 Impl_finish (trailer (li_basename i0) (li_line i0))"
proof -
  have f: "writes d i0 (\<lambda>i. to_stream (shl_SourceFile (li_basename i)) i) [Op_string (sf_data (li_basename i0))]"
  proof -
    have "writes d i0 (to_stream (shl_SourceFile (li_basename i0))) [Op_string (sf_data (li_basename i0))]"
      by (rule writes_stream) (use assms in \<open>simp add: shl_SourceFile_def file_ok_def LogStream_append_whole operand_append_def\<close>)
    then show ?thesis by (subst writes_cong [where k = "to_stream (shl_SourceFile (li_basename i0))"]) (simp_all add: same_logger_def)
  qed
  have l: "writes d i0 (\<lambda>i. to_stream (shl_int (li_line i)) i) [Op_int (li_line i0)]"
    using writes_int [of d i0 "li_line i0"]
    by (subst writes_cong [where k = "to_stream (shl_int (li_line i0))"]) (simp_all add: same_logger_def)
  have "writes d i0 (\<lambda>i. andThen (to_stream (shl_cstr (Some '' - '')) i) (\<lambda>i.
     andThen (to_stream (shl_SourceFile (li_basename i)) i) (\<lambda>i.
     andThen (to_stream (shl_char (CHR '':'')) i) (\<lambda>i.
     andThen (to_stream (shl_int (li_line i)) i)
       (to_stream (shl_char (CHR 0x0A)))))))
     ([Op_cstr (Some '' - '')] @ [Op_string (sf_data (li_basename i0))] @ [Op_char (CHR '':'')] @ [Op_int (li_line i0)] @ [Op_char (CHR 0x0A)])"
    by (intro writes_then f l writes_cstr writes_char)
  then show ?thesis unfolding Impl_finish_def [abs_def] trailer_def by simp
qed

lemma length_dec_pad0:
  assumes "0 \<le> i" and "i < 10 ^ w" and "0 < w"
  shows "length (dec_pad0 w i) = w"
proof -
  have "nat i < 10 ^ w" using assms(1,2) by (simp add: nat_less_iff)
  from length_dec_nat [OF this assms(3)] assms(1) show ?thesis by (simp add: dec_pad0_def pad_left_def)
qed

text \<open>A broken-down time whose fields have at most the digits of the format, and its text.\<close>

definition tm_prints :: "struct_tm \<Rightarrow> bool" where
  "tm_prints t \<longleftrightarrow> -900 \<le> tm_year t \<and> tm_year t < 8100 \<and> 0 \<le> tm_mon t \<and> tm_mon t < 12 \<and> 1 \<le> tm_mday t \<and> tm_mday t \<le> 31
     \<and> 0 \<le> tm_hour t \<and> tm_hour t < 24 \<and> 0 \<le> tm_min t \<and> tm_min t < 60 \<and> 0 \<le> tm_sec t \<and> tm_sec t \<le> 60"

lemma length_time_text:
  assumes "tm_prints t"
  shows "length (time_text t) = 17"
proof -
  have "0 \<le> tm_year t + 1900" "nat (tm_year t + 1900) < 10 ^ 4" using assms by (auto simp: tm_prints_def)
  from this(1) length_dec_nat [OF this(2)] have "length (pad_left 4 (CHR '' '') (dec_int (tm_year t + 1900))) = 4"
    by (simp add: dec_int_def pad_left_def)
  moreover have "length (dec_pad0 2 (tm_mon t + 1)) = 2" "length (dec_pad0 2 (tm_mday t)) = 2" "length (dec_pad0 2 (tm_hour t)) = 2"
    "length (dec_pad0 2 (tm_min t)) = 2" "length (dec_pad0 2 (tm_sec t)) = 2"
    by (rule length_dec_pad0; use assms in \<open>simp add: tm_prints_def\<close>)+
  ultimately show ?thesis by (simp add: time_text_def)
qed

text \<open>
  The thread's caches: the text of the last second is that of its second, and the text of the thread id is
  the one of the id.
\<close>

definition cache_ok :: "(int \<Rightarrow> struct_tm) \<Rightarrow> Data option \<Rightarrow> log_thread \<Rightarrow> bool" where
  "cache_ok gmtime tz th \<longleftrightarrow> (t_lastSecond th \<noteq> 0 \<longrightarrow>
     (\<exists>tm. broken_down gmtime tz (t_lastSecond th) = Inr tm \<and> length (time_text tm) = 17 \<and> t_time th = time_text tm))"

definition tid_text :: "int \<Rightarrow> string" where
  "tid_text tid = pad_left 5 (CHR '' '') (dec_int tid) @ '' ''"

definition tid_ok :: "int \<Rightarrow> log_thread \<Rightarrow> bool" where
  "tid_ok tid th \<longleftrightarrow> t_cachedTid th = tid \<and> t_tidString th = tid_text tid \<and> t_tidStringLength th = int (length (tid_text tid))
     \<or> t_cachedTid th = 0"

lemma length_tid_text:
  assumes "0 < tid" and "tid < 2 ^ 31"
  shows "length (tid_text tid) \<le> 11"
proof -
  have "nat tid < 10 ^ 10" using assms by (simp add: nat_less_iff)
  from length_dec_nat [OF this] assms(1) show ?thesis by (simp add: tid_text_def pad_left_def dec_int_def)
qed

lemma CurrentThread_tid_ok:
  assumes "tid_ok tid th" and "0 < tid" and "tid < 2 ^ 31"
  shows "\<exists>th'. CurrentThread_tid tid th = (tid, th') \<and> t_tidString th' = tid_text tid \<and> t_tidStringLength th' = int (length (tid_text tid))
    \<and> tid_ok tid th' \<and> t_time th' = t_time th \<and> t_lastSecond th' = t_lastSecond th"
proof (cases "t_cachedTid th = 0")
  case True
  have "snprintf 32 (tid_text tid) = tid_text tid" using length_tid_text [OF assms(2,3)] by (simp add: snprintf_def)
  with True assms(2) show ?thesis
    by (simp add: CurrentThread_tid_def cacheTid_def tid_ok_def Let_def tid_text_def)
next
  case False
  with assms show ?thesis by (auto simp: CurrentThread_tid_def tid_ok_def)
qed

definition us_text :: "Data option \<Rightarrow> Timestamp \<Rightarrow> string" where
  "us_text tz t = ''.'' @ dec_pad0 6 (t mod 1000000) @ (if TimeZone_valid tz then '' '' else ''Z '')"

lemma formatTime_writes:
  assumes th: "cache_ok gmtime tz th" and i: "ls_holds (li_stream i) t"
    and now: "kMicroSecondsPerSecond \<le> li_time i"
    and tm: "broken_down gmtime tz (li_time i div 1000000) = Inr tm" "tm_prints tm"
  shows "\<exists>th' j. formatTime gmtime tz (th, i) = Inr (th', j) \<and> cache_ok gmtime tz th' \<and> same_logger i j
    \<and> t_cachedTid th' = t_cachedTid th \<and> t_tidString th' = t_tidString th \<and> t_tidStringLength th' = t_tidStringLength th
    \<and> ls_holds (li_stream j) (fold (operand_append d) [Op_string (time_text tm), Op_string (us_text tz (li_time i))] t)"
proof -
  let ?sec = "li_time i div 1000000" and ?us = "li_time i mod 1000000"
  have k: "kMicroSecondsPerSecond = 1000000" by (simp add: kMicroSecondsPerSecond_def)
  have div: "li_time i sdiv 1000000 = ?sec" "li_time i smod 1000000 = ?us" using now k by (simp_all add: sdiv_nonneg smod_nonneg)
  have us: "to_int ?us = ?us" by (rule to_int_small) (auto intro: order_trans [OF _ pos_mod_sign] less_trans [OF pos_mod_bound])
  have "0 < ?sec" using now k by (simp add: pos_imp_zdiv_pos_iff)
  then have sec: "?sec \<noteq> 0" by simp
  have l: "length (time_text tm) = 17" by (rule length_time_text [OF tm(2)])
  have n: "length (us_text tz (li_time i)) = (if TimeZone_valid tz then 8 else 9)"
    using length_dec_pad0 [of ?us 6] by (simp add: us_text_def)
  define th' where "th' = (if ?sec \<noteq> t_lastSecond th then th\<lparr>t_lastSecond := ?sec, t_time := snprintf 64 (time_text tm)\<rparr> else th)"
  have s: "snprintf 64 (time_text tm) = time_text tm" using l by (simp add: snprintf_def)
  have t': "t_time th' = time_text tm" and c: "cache_ok gmtime tz th'"
    using th tm(1) sec l by (auto simp: th'_def s cache_ok_def)
  have fm: "Fmt_new (us_text tz (li_time i)) = Inr \<lparr>fmt_buf = us_text tz (li_time i), fmt_length = int (length (us_text tz (li_time i)))\<rparr>"
    using n by (simp add: Fmt_new_def snprintf_def)
  have "writes d i (\<lambda>i. andThen (to_stream (shl_T (time_text tm, length (time_text tm))) i) (to_stream (shl_T (us_text tz (li_time i0), length (us_text tz (li_time i0))))))
      ([Op_string (time_text tm)] @ [Op_string (us_text tz (li_time i0))])" if "i0 = i" for i0
    by (intro writes_then writes_T) (use l n that in simp_all)
  from writesD [OF this [OF refl] _ i] obtain j where j:
    "andThen (to_stream (shl_T (time_text tm, 17)) i) (to_stream (shl_T (us_text tz (li_time i), length (us_text tz (li_time i))))) = Inr j"
    "same_logger i j" "ls_holds (li_stream j) (fold (operand_append d) [Op_string (time_text tm), Op_string (us_text tz (li_time i))] t)"
    using l by (auto simp: same_logger_def)
  have first: "(if ?sec \<noteq> t_lastSecond th then andThen (broken_down gmtime tz ?sec) (\<lambda>tm_time.
      assert_that (length (time_text tm_time) = 17) ''len == 17'' (Inr (th\<lparr>t_lastSecond := ?sec, t_time := snprintf 64 (time_text tm_time)\<rparr>)))
      else Inr th) = Inr th'"
    using tm(1) l by (simp add: th'_def)
  have u: "(if TimeZone_valid tz then ''.'' @ dec_pad0 6 ?us @ '' '' else ''.'' @ dec_pad0 6 ?us @ ''Z '') = us_text tz (li_time i)"
    by (simp add: us_text_def)
  have last: "andThen (to_stream (shl_T (time_text tm, 17)) i) (\<lambda>i. andThen (to_stream (shl_T (us_text tz t0, length (us_text tz t0))) i) (\<lambda>i. Inr (th', i))) = Inr (th', j)"
    if "t0 = li_time i" for t0
    using j(1) that by (simp add: andThen_assoc [symmetric])
  have "formatTime gmtime tz (th, i) = Inr (th', j)"
    unfolding formatTime_def k div Let_def prod.case us first u fm andThen.simps
    using last [OF refl] n by (simp add: T_new_def t' l)
  with c j th'_def show ?thesis by auto
qed

definition log_ready :: "log_env \<Rightarrow> Data option \<Rightarrow> struct_tm \<Rightarrow> log_thread \<Rightarrow> bool" where
  "log_ready env tz tm th \<longleftrightarrow> cache_ok (le_gmtime env) tz th \<and> tid_ok (le_gettid env) th \<and> 0 < le_gettid env \<and> le_gettid env < 2 ^ 31
     \<and> kMicroSecondsPerSecond \<le> le_now env \<and> length (le_raw env) = kSmallBuffer
     \<and> broken_down (le_gmtime env) tz (le_now env div 1000000) = Inr tm \<and> tm_prints tm"

definition log_header :: "log_env \<Rightarrow> Data option \<Rightarrow> struct_tm \<Rightarrow> LogLevel \<Rightarrow> 32 word \<Rightarrow> 'd operand list" where
  "log_header env tz tm level savedErrno =
     [Op_string (time_text tm), Op_string (us_text tz (le_now env)), Op_string (tid_text (le_gettid env)), Op_string (LogLevelName level)]
     @ (if savedErrno \<noteq> 0
        then [Op_cstr (Some (le_strerror env savedErrno)), Op_cstr (Some '' (errno=''), Op_int savedErrno, Op_cstr (Some '') '')] else [])"

lemma length_LogLevelName: "length (LogLevelName l) = 6"
  by (cases l) simp_all

lemma writes_errno:
  "writes d i0 (\<lambda>i. if e \<noteq> 0
      then andThen (to_stream (shl_cstr (Some msg)) i) (\<lambda>i. andThen (to_stream (shl_cstr (Some '' (errno='')) i) (\<lambda>i.
           andThen (to_stream (shl_int e) i) (to_stream (shl_cstr (Some '') '')))))
      else Inr i)
    (if e \<noteq> 0 then [Op_cstr (Some msg)] @ [Op_cstr (Some '' (errno='')] @ [Op_int e] @ [Op_cstr (Some '') '')] else [])"
proof (cases "e = 0")
  case False
  have "writes d i0 (\<lambda>i. andThen (to_stream (shl_cstr (Some msg)) i) (\<lambda>i. andThen (to_stream (shl_cstr (Some '' (errno='')) i) (\<lambda>i.
           andThen (to_stream (shl_int e) i) (to_stream (shl_cstr (Some '') ''))))))
    ([Op_cstr (Some msg)] @ [Op_cstr (Some '' (errno='')] @ [Op_int e] @ [Op_cstr (Some '') '')])"
    by (intro writes_then writes_cstr writes_int)
  with False show ?thesis by simp
qed (simp add: writes_Inr)

lemma Impl_new_writes:
  fixes d :: "'d \<Rightarrow> string"
  assumes ready: "log_ready env tz tm th"
  shows "\<exists>th' i. Impl_new env tz level e file line th = Inr (th', i) \<and> cache_ok (le_gmtime env) tz th' \<and> tid_ok (le_gettid env) th'
    \<and> li_level i = level \<and> li_line i = line \<and> li_basename i = file
    \<and> ls_holds (li_stream i) (fold (operand_append d) (log_header env tz tm level e) [])"
proof -
  define i0 where "i0 = \<lparr>li_time = le_now env, li_stream = LogStream_new (le_raw env), li_level = level, li_line = line, li_basename = file\<rparr>"
  note r = ready [unfolded log_ready_def]
  have "ls_holds (li_stream i0) []"
    using fb_holds_new [of "le_raw env"] r by (simp add: i0_def LogStream_new_def kSmallBuffer_def)
  from formatTime_writes [OF _ this, of "le_gmtime env" tz th tm d] r obtain th1 i1 where 1:
    "formatTime (le_gmtime env) tz (th, i0) = Inr (th1, i1)" "cache_ok (le_gmtime env) tz th1" "same_logger i0 i1"
    "t_cachedTid th1 = t_cachedTid th" "t_tidString th1 = t_tidString th" "t_tidStringLength th1 = t_tidStringLength th"
    "ls_holds (li_stream i1) (fold (operand_append d) [Op_string (time_text tm), Op_string (us_text tz (le_now env))] [])"
    by (auto simp: i0_def)
  have "tid_ok (le_gettid env) th1" using r 1(4-6) by (simp add: tid_ok_def)
  from CurrentThread_tid_ok [OF this] r obtain th2 where 2: "CurrentThread_tid (le_gettid env) th1 = (le_gettid env, th2)"
    "t_tidString th2 = tid_text (le_gettid env)" "t_tidStringLength th2 = int (length (tid_text (le_gettid env)))" "tid_ok (le_gettid env) th2"
    "t_time th2 = t_time th1" "t_lastSecond th2 = t_lastSecond th1" by blast
  let ?tid = "tid_text (le_gettid env)" and ?name = "LogLevelName level"
  have "length ?tid \<le> 11" using r by (intro length_tid_text) simp_all
  then have short: "length ?tid < 2 ^ 31" by simp
  define k where "k = (\<lambda>i. if e \<noteq> 0
      then andThen (to_stream (shl_cstr (Some (le_strerror env e))) i) (\<lambda>i. andThen (to_stream (shl_cstr (Some '' (errno='')) i) (\<lambda>i.
           andThen (to_stream (shl_int e) i) (to_stream (shl_cstr (Some '') '')))))
      else Inr i)"
  define es :: "'d operand list" where "es = (if e \<noteq> 0 then [Op_cstr (Some (le_strerror env e))] @ [Op_cstr (Some '' (errno='')] @ [Op_int e] @ [Op_cstr (Some '') '')] else [])"
  have "writes d i0 k es" unfolding k_def es_def by (rule writes_errno)
  then have w: "writes d i0 (\<lambda>i. andThen (to_stream (shl_T (?tid, length ?tid)) i) (\<lambda>i. andThen (to_stream (shl_T (?name, length ?name)) i) k))
    ([Op_string ?tid] @ [Op_string ?name] @ es)"
    using short by (intro writes_then writes_T) (simp_all add: length_LogLevelName)
  from writesD [OF w 1(3,7)] obtain i2 where 3:
    "andThen (to_stream (shl_T (?tid, length ?tid)) i1) (\<lambda>i. andThen (to_stream (shl_T (?name, length ?name)) i) k) = Inr i2" "same_logger i0 i2"
    "ls_holds (li_stream i2) (fold (operand_append d) ([Op_string ?tid] @ [Op_string ?name] @ es)
       (fold (operand_append d) [Op_string (time_text tm), Op_string (us_text tz (le_now env))] []))" .
  have h: "ls_holds (li_stream i2) (fold (operand_append d) (log_header env tz tm level e) [])"
    using 3(3) unfolding log_header_def es_def by (cases "e = 0") simp_all
  have "andThen (andThen (to_stream (shl_T (?tid, length ?tid)) i1) (\<lambda>i. andThen (to_stream (shl_T (?name, length ?name)) i) k)) (\<lambda>i. Inr (th2, i)) = Inr (th2, i2)"
    unfolding 3(1) by simp
  then have "Impl_new env tz level e file line th = Inr (th2, i2)"
    unfolding Impl_new_def i0_def [symmetric] 1(1) k_def andThen_assoc
    by (simp add: T_new_def length_LogLevelName 2(1-3))
  with 1(2) 2(4-6) 3(2) h show ?thesis by (auto simp: cache_ok_def same_logger_def i0_def)
qed

fun macro_level :: "log_macro \<Rightarrow> LogLevel" where
  "macro_level LOG_TRACE = TRACE"
| "macro_level LOG_DEBUG = DEBUG"
| "macro_level LOG_INFO = INFO"
| "macro_level LOG_WARN = WARN"
| "macro_level LOG_ERROR = ERROR"
| "macro_level LOG_FATAL = FATAL"
| "macro_level LOG_SYSERR = ERROR"
| "macro_level LOG_SYSFATAL = FATAL"

definition macro_errno :: "log_env \<Rightarrow> log_macro \<Rightarrow> 32 word" where
  "macro_errno env m = (if m = LOG_SYSERR \<or> m = LOG_SYSFATAL then le_errno env else 0)"

definition macro_func :: "string \<Rightarrow> log_macro \<Rightarrow> 'd operand list" where
  "macro_func func m = (if m = LOG_TRACE \<or> m = LOG_DEBUG then [Op_cstr (Some func), Op_char (CHR '' '')] else [])"

text \<open>The parts of a line, in order.\<close>

definition line_operands :: "log_env \<Rightarrow> Data option \<Rightarrow> struct_tm \<Rightarrow> string \<Rightarrow> 32 word \<Rightarrow> string \<Rightarrow> log_macro \<Rightarrow> 'd operand list \<Rightarrow> 'd operand list" where
  "line_operands env tz tm file line func m xs =
     log_header env tz tm (macro_level m) (macro_errno env m) @ macro_func func m @ xs @ trailer (SourceFile_array file) line"

lemma SourceFile_array_ok:
  assumes "length file < 2 ^ 31"
  shows "file_ok (SourceFile_array file)"
proof (cases "after_slash file")
  case (Some x)
  have "length x \<le> length file" using Some
    by (auto simp: after_slash_def split: if_splits) (metis length_rev length_takeWhile_le)
  with assms Some show ?thesis by (simp add: SourceFile_array_def file_ok_def)
qed (use assms in \<open>simp add: SourceFile_array_def file_ok_def\<close>)

lemma Logger_func_writes:
  assumes ready: "log_ready env tz tm th"
  shows "\<exists>th' i. Logger_func env tz file line level func th = Inr (th', i) \<and> cache_ok (le_gmtime env) tz th' \<and> tid_ok (le_gettid env) th'
    \<and> li_level i = level \<and> li_line i = line \<and> li_basename i = file
    \<and> ls_holds (li_stream i) (fold (operand_append d) (log_header env tz tm level 0 @ [Op_cstr (Some func), Op_char (CHR '' '')]) [])"
proof -
  from Impl_new_writes [OF ready, of level 0 "file" line d] obtain th' i where i: "Impl_new env tz level 0 file line th = Inr (th', i)"
    "cache_ok (le_gmtime env) tz th'" "tid_ok (le_gettid env) th'" "li_level i = level" "li_line i = line" "li_basename i = file"
    "ls_holds (li_stream i) (fold (operand_append d) (log_header env tz tm level 0) [])" by blast
  have "writes d i (\<lambda>i. andThen (to_stream (shl_cstr (Some func)) i) (to_stream (shl_char (CHR '' '')))) ([Op_cstr (Some func)] @ [Op_char (CHR '' '')])"
    by (intro writes_then writes_cstr writes_char)
  from writesD [OF this _ i(7)] obtain j where j: "andThen (to_stream (shl_cstr (Some func)) i) (to_stream (shl_char (CHR '' ''))) = Inr j"
    "same_logger i j" "ls_holds (li_stream j) (fold (operand_append d) ([Op_cstr (Some func)] @ [Op_char (CHR '' '')]) (fold (operand_append d) (log_header env tz tm level 0) []))"
    by (auto simp: same_logger_def)
  have "Logger_func env tz file line level func th = Inr (th', j)"
    unfolding Logger_func_def i(1) using j(1) by (auto simp: andThen_eq_Inr)
  with i j show ?thesis by (auto simp: same_logger_def)
qed

lemma macro_logger_writes:
  assumes "log_ready env tz tm th"
  shows "\<exists>th' i. macro_logger env tz file line func m th = Inr (th', i) \<and> cache_ok (le_gmtime env) tz th' \<and> tid_ok (le_gettid env) th'
    \<and> li_level i = macro_level m \<and> li_line i = line \<and> li_basename i = SourceFile_array file
    \<and> ls_holds (li_stream i) (fold (operand_append d) (log_header env tz tm (macro_level m) (macro_errno env m) @ macro_func func m) [])"
  by (cases m)
    (simp_all add: Logger_func_writes [OF assms] Impl_new_writes [OF assms] Logger_info_def Logger_level_def Logger_errno_def
      macro_errno_def macro_func_def del: fold_append)

lemma Logger_delete_writes:
  assumes "file_ok (li_basename i)" and "ls_holds (li_stream i) t"
    and msg: "msg = fold (operand_append d) (trailer (li_basename i) (li_line i)) t"
  shows "Logger_delete g i out = Inr (if li_level i = FATAL then (g_flush g (g_output g msg out), True) else (g_output g msg out, False))"
proof -
  from writesD [OF writes_finish [OF assms(1), of d] _ assms(2)] obtain j where
    j: "Impl_finish i = Inr j" "same_logger i j" "ls_holds (li_stream j) msg" by (auto simp: same_logger_def msg)
  have "read_bytes (fb_length (ls_buffer (li_stream j))) (fb_data (ls_buffer (li_stream j))) = Inr msg"
    using fb_holds_toString [OF j(3)] by (simp add: FixedBuffer_toString_def)
  with j(1,2) show ?thesis by (simp add: Logger_delete_def same_logger_def)
qed

lemma log_statement_writes:
  assumes ready: "log_ready env (g_logTimeZone g) tm th" and "length file < 2 ^ 31" and "\<forall>x \<in> set xs. operand_ok d x"
    and line: "msg = concat (map (operand_text d) (line_operands env (g_logTimeZone g) tm file line func m xs))" "length msg + 48 \<le> kSmallBuffer"
    and en: "log_enabled (g_logLevel g) m"
  shows "\<exists>th'. log_statement d env g file line func m xs (th, out) =
        Inr ((th', if macro_level m = FATAL then g_flush g (g_output g msg out) else g_output g msg out), macro_level m = FATAL)
      \<and> cache_ok (le_gmtime env) (g_logTimeZone g) th' \<and> tid_ok (le_gettid env) th'"
proof -
  let ?h = "log_header env (g_logTimeZone g) tm (macro_level m) (macro_errno env m) @ macro_func func m"
  from macro_logger_writes [OF ready, of "file" line func m d] obtain th' i where i: "macro_logger env (g_logTimeZone g) file line func m th = Inr (th', i)"
    "cache_ok (le_gmtime env) (g_logTimeZone g) th'" "tid_ok (le_gettid env) th'" "li_level i = macro_level m" "li_line i = line"
    "li_basename i = SourceFile_array file" "ls_holds (li_stream i) (fold (operand_append d) ?h [])" by blast
  from writesD [OF writes_shl_all [OF assms(3)] _ i(7), of i] obtain j where j: "to_stream (for_each (shl d) xs) i = Inr j" "same_logger i j"
    "ls_holds (li_stream j) (fold (operand_append d) xs (fold (operand_append d) ?h []))" by (auto simp: same_logger_def)
  have f: "file_ok (li_basename j)" using j(2) i(6) SourceFile_array_ok [OF assms(2)] by (simp add: same_logger_def)
  have "msg = fold (operand_append d) (line_operands env (g_logTimeZone g) tm file line func m xs) []"
    using nothing_dropped [of "[]" d] line by simp
  then have msg: "msg = fold (operand_append d) (trailer (li_basename j) (li_line j)) (fold (operand_append d) xs (fold (operand_append d) ?h []))"
    using i(5,6) j(2) by (simp add: line_operands_def same_logger_def)
  have "log_statement d env g file line func m xs (th, out) =
      Inr ((th', if macro_level m = FATAL then g_flush g (g_output g msg out) else g_output g msg out), macro_level m = FATAL)"
    using en i(1,4) j(1,2) Logger_delete_writes [OF f j(3) msg, of g out] by (simp add: log_statement_def same_logger_def)
  with i(2,3) show "\<exists>th'. log_statement d env g file line func m xs (th, out) =
        Inr ((th', if macro_level m = FATAL then g_flush g (g_output g msg out) else g_output g msg out), macro_level m = FATAL)
      \<and> cache_ok (le_gmtime env) (g_logTimeZone g) th' \<and> tid_ok (le_gettid env) th'" by blast
qed


definition sample_env :: log_env where
  "sample_env = \<lparr>le_now = 1000000, le_gmtime = (\<lambda>t. toUtcTime t False), le_gettid = 42, le_errno = 0, le_strerror = (\<lambda>e. []),
     le_raw = replicate 4000 (CHR 0x00)\<rparr>"

definition sample_globals :: "string list log_globals" where
  "sample_globals = \<lparr>g_logLevel = INFO, g_output = (\<lambda>msg out. out @ [msg]), g_flush = (\<lambda>out. out), g_logTimeZone = None\<rparr>"

lemma sample_second:
  "tm_year (toUtcTime 1 False) = 70" "tm_mon (toUtcTime 1 False) = 0" "tm_mday (toUtcTime 1 False) = 1"
  "tm_hour (toUtcTime 1 False) = 0" "tm_min (toUtcTime 1 False) = 0" "tm_sec (toUtcTime 1 False) = 1"
  using toUtcTime_fields [of 1 "toUtcTime 1 False" False] by (simp_all add: day_range_def date_1970)

lemma sample_pads: "replicate 5 c = [c, c, c, c, c]" "replicate 3 c = [c, c, c]"
  by (simp_all add: numeral_eq_Suc)

lemma sample_texts: "dec_nat 0 = ''0''" "dec_nat (Suc 0) = ''1''" "dec_nat 7 = ''7''" "dec_nat 42 = ''42''" "dec_nat 1970 = ''1970''"
  by (simp_all add: dec_nat.simps digit_chars)


end
