(* ===== verification/Muduo_LogFile.thy ===== *)
theory Muduo_LogFile
  imports Muduo_LogStream
begin

text \<open>
  Files: \<^verbatim>\<open>AppendFile\<close> and \<^verbatim>\<open>ReadSmallFile\<close> of \<^verbatim>\<open>base/FileUtil.cc\<close> and the log files of \<^verbatim>\<open>base/LogFile.cc\<close>. The streams of the C
  library and the system calls are arguments, functions on a state \<open>'k\<close>. Writing to a file is a loop that need not end when the
  library reports neither progress nor an error, so its result is an option; it is shown to return when every call makes progress
  or reports an error.
\<close>

section \<open>Operations that may not return\<close>

fun then_opt :: "'a outcome option \<Rightarrow> ('a \<Rightarrow> 'b outcome option) \<Rightarrow> 'b outcome option" where
  "then_opt None f = None"
| "then_opt (Some (Inl e)) f = Some (Inl e)"
| "then_opt (Some (Inr x)) f = f x"

fun for_each_opt :: "('a \<Rightarrow> 's \<Rightarrow> 's outcome option) \<Rightarrow> 'a list \<Rightarrow> 's \<Rightarrow> 's outcome option" where
  "for_each_opt f [] s = Some (Inr s)"
| "for_each_opt f (x # xs) s = then_opt (f x s) (for_each_opt f xs)"

section \<open>AppendFile\<close>

text \<open>\<^verbatim>\<open>fopen\<close>, \<^verbatim>\<open>fwrite_unlocked\<close>, \<^verbatim>\<open>ferror\<close>, \<^verbatim>\<open>fflush\<close> and \<^verbatim>\<open>fclose\<close>; a stream is a number.\<close>

record 'k stdio =
  io_fopen :: "string \<Rightarrow> 'k \<Rightarrow> nat option \<times> 'k"
  io_fwrite :: "nat \<Rightarrow> string \<Rightarrow> 'k \<Rightarrow> nat \<times> 'k"
  io_ferror :: "nat \<Rightarrow> 'k \<Rightarrow> bool"
  io_fflush :: "nat \<Rightarrow> 'k \<Rightarrow> 'k"
  io_fclose :: "nat \<Rightarrow> 'k \<Rightarrow> 'k"

record AppendFile =
  af_fp :: nat
  af_writtenBytes :: int

definition AppendFile_new :: "'k stdio \<Rightarrow> string \<Rightarrow> 'k \<Rightarrow> (AppendFile \<times> 'k) outcome" where
  "AppendFile_new io filename k = (case io_fopen io filename k of (fp, k) \<Rightarrow>
     (case fp of None \<Rightarrow> Inl (Assert_failed ''fp_'') | Some fp \<Rightarrow> Inr (\<lparr>af_fp = fp, af_writtenBytes = 0\<rparr>, k)))"

definition AppendFile_delete :: "'k stdio \<Rightarrow> AppendFile \<Rightarrow> 'k \<Rightarrow> 'k" where
  "AppendFile_delete io f k = io_fclose io (af_fp f) k"

definition AppendFile_write :: "'k stdio \<Rightarrow> string \<Rightarrow> AppendFile \<Rightarrow> 'k \<Rightarrow> nat \<times> 'k" where
  "AppendFile_write io logline f k = io_fwrite io (af_fp f) logline k"

partial_function (option) append_loop :: "'k stdio \<Rightarrow> AppendFile \<Rightarrow> string \<Rightarrow> nat \<Rightarrow> 'k \<Rightarrow> (nat \<times> 'k) option" where
  "append_loop io f logline written k =
     (if written \<noteq> length logline then
        let remain = length logline - written;
            (n, k') = AppendFile_write io (drop written logline) f k
        in if n \<noteq> remain \<and> io_ferror io (af_fp f) k' then Some (written, k')
           else append_loop io f logline (written + n) k'
      else Some (written, k))"

definition AppendFile_append :: "'k stdio \<Rightarrow> string \<Rightarrow> AppendFile \<Rightarrow> 'k \<Rightarrow> (AppendFile \<times> 'k) option" where
  "AppendFile_append io logline f k =
     map_option (\<lambda>(written, k). (f\<lparr>af_writtenBytes := af_writtenBytes f + int written\<rparr>, k)) (append_loop io f logline 0 k)"

definition AppendFile_flush :: "'k stdio \<Rightarrow> AppendFile \<Rightarrow> 'k \<Rightarrow> 'k" where
  "AppendFile_flush io f k = io_fflush io (af_fp f) k"

text \<open>The loop returns when every call of the library makes progress or reports an error.\<close>

lemma append_loop_returns:
  assumes io: "\<And>x k n k'. io_fwrite io (af_fp f) x k = (n, k') \<Longrightarrow> n \<le> length x \<and> (n = 0 \<and> x \<noteq> [] \<longrightarrow> io_ferror io (af_fp f) k')"
    and "written \<le> length x"
  shows "\<exists>n k'. append_loop io f x written k = Some (n, k') \<and> n \<le> length x"
  using assms(2)
proof (induction "length x - written" arbitrary: written k rule: less_induct)
  case less
  show ?case
  proof (cases "written = length x")
    case True
    then show ?thesis by (subst append_loop.simps) simp
  next
    case False
    obtain n k' where w: "io_fwrite io (af_fp f) (drop written x) k = (n, k')" by fastforce
    from io [OF w] False less.prems have n: "n \<le> length x - written" "n = 0 \<longrightarrow> io_ferror io (af_fp f) k'" by auto
    show ?thesis
    proof (cases "n \<noteq> length x - written \<and> io_ferror io (af_fp f) k'")
      case True
      with False w less.prems show ?thesis by (subst append_loop.simps) (simp add: AppendFile_write_def)
    next
      case go: False
      with n False less.prems have "0 < n" by auto
      with n less.hyps [of "written + n" k'] less.prems False
      have "\<exists>m j. append_loop io f x (written + n) k' = Some (m, j) \<and> m \<le> length x" by auto
      with go False w show ?thesis by (subst append_loop.simps) (auto simp: AppendFile_write_def)
    qed
  qed
qed

section \<open>LogFile\<close>

record LogFile =
  lf_basename :: string
  lf_rollSize :: int
  lf_flushInterval :: int
  lf_checkEveryN :: int
  lf_count :: int
  lf_threadSafe :: bool
  lf_startOfPeriod :: int
  lf_lastRoll :: int
  lf_lastFlush :: int
  lf_file :: "AppendFile option"

definition kRollPerSeconds :: int where "kRollPerSeconds = 60 * 60 * 24"

text \<open>
  What one call asks of its environment: the time it reads itself, the time \<^verbatim>\<open>getLogFileName\<close> reads, and what the name is
  made of.
\<close>

record file_env =
  fe_time :: int
  fe_rollTime :: int
  fe_gmtime :: "int \<Rightarrow> struct_tm"
  fe_hostname :: string
  fe_pid :: int

definition getLogFileName :: "file_env \<Rightarrow> string \<Rightarrow> string \<times> int" where
  "getLogFileName env basename =
     (let now = fe_rollTime env; t = fe_gmtime env now
      in (basename @ ''.'' @ dec_int (tm_year t + 1900) @ dec_pad0 2 (tm_mon t + 1) @ dec_pad0 2 (tm_mday t) @ ''-''
            @ dec_pad0 2 (tm_hour t) @ dec_pad0 2 (tm_min t) @ dec_pad0 2 (tm_sec t) @ ''.''
            @ fe_hostname env @ snprintf 32 (''.'' @ dec_int (fe_pid env)) @ ''.log'', now))"

text \<open>\<^verbatim>\<open>file_.reset\<close> opens the new file and then closes the old one.\<close>

definition rollFile :: "'k stdio \<Rightarrow> file_env \<Rightarrow> LogFile \<times> 'k \<Rightarrow> (bool \<times> LogFile \<times> 'k) outcome" where
  "rollFile io env s = (case s of (lf, k) \<Rightarrow>
     let (filename, now) = getLogFileName env (lf_basename lf);
         start = now sdiv kRollPerSeconds * kRollPerSeconds
     in if now > lf_lastRoll lf then
          andThen (AppendFile_new io filename k) (\<lambda>(f, k).
          let k = (case lf_file lf of None \<Rightarrow> k | Some old \<Rightarrow> AppendFile_delete io old k)
          in Inr (True, lf\<lparr>lf_lastRoll := now, lf_lastFlush := now, lf_startOfPeriod := start, lf_file := Some f\<rparr>, k))
        else Inr (False, lf, k))"

definition LogFile_new :: "'k stdio \<Rightarrow> file_env \<Rightarrow> string \<Rightarrow> int \<Rightarrow> bool \<Rightarrow> int \<Rightarrow> int \<Rightarrow> 'k \<Rightarrow> (LogFile \<times> 'k) outcome" where
  "LogFile_new io env basename rollSize threadSafe flushInterval checkEveryN k =
     assert_that (CHR ''/'' \<notin> set basename) ''basename.find('/') == string::npos''
       (andThen (rollFile io env (\<lparr>lf_basename = basename, lf_rollSize = rollSize, lf_flushInterval = flushInterval,
          lf_checkEveryN = checkEveryN, lf_count = 0, lf_threadSafe = threadSafe, lf_startOfPeriod = 0, lf_lastRoll = 0,
          lf_lastFlush = 0, lf_file = None\<rparr>, k)) (\<lambda>(rolled, s). Inr s))"

text \<open>The file pointer is dereferenced: null is a failure.\<close>

definition with_file :: "LogFile \<Rightarrow> (AppendFile \<Rightarrow> 'a outcome option) \<Rightarrow> 'a outcome option" where
  "with_file lf g = (case lf_file lf of None \<Rightarrow> Some (Inl Bad_pointer) | Some f \<Rightarrow> g f)"

definition LogFile_flush :: "'k stdio \<Rightarrow> LogFile \<times> 'k \<Rightarrow> (LogFile \<times> 'k) outcome option" where
  "LogFile_flush io s = (case s of (lf, k) \<Rightarrow> with_file lf (\<lambda>f. Some (Inr (lf, AppendFile_flush io f k))))"

definition append_unlocked :: "'k stdio \<Rightarrow> file_env \<Rightarrow> string \<Rightarrow> LogFile \<times> 'k \<Rightarrow> (LogFile \<times> 'k) outcome option" where
  "append_unlocked io env logline s = (case s of (lf, k) \<Rightarrow> with_file lf (\<lambda>f.
     (case AppendFile_append io logline f k of None \<Rightarrow> None | Some (f, k) \<Rightarrow>
        let lf = lf\<lparr>lf_file := Some f\<rparr>
        in if af_writtenBytes f > lf_rollSize lf then Some (andThen (rollFile io env (lf, k)) (\<lambda>(rolled, s). Inr s))
           else let lf = lf\<lparr>lf_count := lf_count lf + 1\<rparr>
             in if lf_count lf \<ge> lf_checkEveryN lf then
                  let lf = lf\<lparr>lf_count := 0\<rparr>;
                      now = fe_time env;
                      thisPeriod = now sdiv kRollPerSeconds * kRollPerSeconds
                  in if thisPeriod \<noteq> lf_startOfPeriod lf then Some (andThen (rollFile io env (lf, k)) (\<lambda>(rolled, s). Inr s))
                     else if now - lf_lastFlush lf > lf_flushInterval lf
                     then Some (Inr (lf\<lparr>lf_lastFlush := now\<rparr>, AppendFile_flush io f k))
                     else Some (Inr (lf, k))
                else Some (Inr (lf, k)))))"

text \<open>With or without the mutex, the same is done.\<close>

definition LogFile_append :: "'k stdio \<Rightarrow> file_env \<Rightarrow> string \<Rightarrow> LogFile \<times> 'k \<Rightarrow> (LogFile \<times> 'k) outcome option" where
  "LogFile_append io env logline s = (if lf_threadSafe (fst s) then append_unlocked io env logline s else append_unlocked io env logline s)"

section \<open>What is in the files\<close>

text \<open>
  The documented behaviour of the streams, for files in a world without errors: \<open>log\<close> is all that was written, in order. A
  stream that is open takes all bytes; opening and closing other streams leaves it open.
\<close>

definition stdio_ok :: "'k stdio \<Rightarrow> ('k \<Rightarrow> string) \<Rightarrow> ('k \<Rightarrow> nat \<Rightarrow> bool) \<Rightarrow> bool" where
  "stdio_ok io log is_open \<longleftrightarrow>
     (\<forall>name k. \<exists>fp k'. io_fopen io name k = (Some fp, k') \<and> log k' = log k \<and> is_open k' fp \<and> \<not> is_open k fp \<and> (\<forall>g. is_open k g \<longrightarrow> is_open k' g))
     \<and> (\<forall>fp x k. is_open k fp \<longrightarrow> (\<exists>k'. io_fwrite io fp x k = (length x, k') \<and> log k' = log k @ x \<and> (\<forall>g. is_open k' g = is_open k g)))
     \<and> (\<forall>fp k. log (io_fflush io fp k) = log k \<and> (\<forall>g. is_open (io_fflush io fp k) g = is_open k g))
     \<and> (\<forall>fp k. log (io_fclose io fp k) = log k \<and> (\<forall>g. g \<noteq> fp \<longrightarrow> is_open (io_fclose io fp k) g = is_open k g))"

definition lf_ok :: "('k \<Rightarrow> nat \<Rightarrow> bool) \<Rightarrow> LogFile \<times> 'k \<Rightarrow> bool" where
  "lf_ok is_open s \<longleftrightarrow> (\<exists>f. lf_file (fst s) = Some f \<and> is_open (snd s) (af_fp f))"

lemma append_file_writes:
  assumes "stdio_ok io log is_open" and "is_open k (af_fp f)"
  shows "\<exists>k'. AppendFile_append io x f k = Some (f\<lparr>af_writtenBytes := af_writtenBytes f + int (length x)\<rparr>, k')
    \<and> log k' = log k @ x \<and> is_open k' (af_fp f)"
proof -
  from assms obtain k' where k': "io_fwrite io (af_fp f) x k = (length x, k')" "log k' = log k @ x" "is_open k' (af_fp f)"
    unfolding stdio_ok_def by blast
  have "append_loop io f x (length x) j = Some (length x, j)" for j by (subst append_loop.simps) simp
  moreover have "append_loop io f x 0 k = (if x = [] then Some (0, k) else append_loop io f x (length x) k')"
    by (subst append_loop.simps) (simp add: AppendFile_write_def k'(1))
  ultimately show ?thesis using k' assms(2) by (cases "x = []") (simp_all add: AppendFile_append_def)
qed

lemma rollFile_keeps:
  assumes io: "stdio_ok io log is_open" and ok: "lf_ok is_open (lf, k)"
  shows "\<exists>b lf' k'. rollFile io env (lf, k) = Inr (b, lf', k') \<and> lf_ok is_open (lf', k') \<and> log k' = log k"
proof -
  obtain f where f: "lf_file lf = Some f" "is_open k (af_fp f)" using ok by (auto simp: lf_ok_def)
  obtain name now where n: "getLogFileName env (lf_basename lf) = (name, now)" by fastforce
  obtain fp k' where o1: "io_fopen io name k = (Some fp, k')" "log k' = log k" "is_open k' fp" "\<not> is_open k fp"
    using io unfolding stdio_ok_def by blast
  have ne: "fp \<noteq> af_fp f" using o1(4) f(2) by auto
  have c: "log (io_fclose io (af_fp f) k') = log k'" "is_open (io_fclose io (af_fp f) k') fp"
    using io ne o1(3) unfolding stdio_ok_def by blast+
  show ?thesis using f n o1 c ok by (auto simp: rollFile_def AppendFile_new_def AppendFile_delete_def lf_ok_def)
qed

text \<open>A file that was opened keeps everything appended to it: whichever way an append goes, it adds the line to what was written.\<close>

lemma log_file_append:
  assumes io: "stdio_ok io log is_open" and ok: "lf_ok is_open s"
  shows "\<exists>s'. LogFile_append io env x s = Some (Inr s') \<and> lf_ok is_open s' \<and> log (snd s') = log (snd s) @ x"
proof -
  obtain lf k f where s: "s = (lf, k)" "lf_file lf = Some f" "is_open k (af_fp f)" using ok by (cases s) (auto simp: lf_ok_def)
  define g where "g = f\<lparr>af_writtenBytes := af_writtenBytes f + int (length x)\<rparr>"
  from append_file_writes [OF io s(3), of x] obtain k' where k': "AppendFile_append io x f k = Some (g, k')" "log k' = log k @ x" "is_open k' (af_fp g)"
    by (auto simp: g_def)
  have roll: "\<exists>s'. andThen (rollFile io env (lf', k')) (\<lambda>(rolled, s). Inr s) = Inr s' \<and> lf_ok is_open s' \<and> log (snd s') = log k @ x"
    if "lf_file lf' = Some g" for lf'
    using rollFile_keeps [OF io, of lf' k' env] that k' by (auto simp: lf_ok_def)
  have flush: "log (io_fflush io fp k') = log k @ x" "is_open (io_fflush io fp k') (af_fp g)" for fp
    using io k'(2,3) unfolding stdio_ok_def by auto
  show ?thesis
    unfolding LogFile_append_def append_unlocked_def s(1) prod.case with_file_def s(2) option.case k'(1) Let_def AppendFile_flush_def
    using roll flush k'(2,3) by (simp add: lf_ok_def)
qed

lemma log_file_flush:
  assumes io: "stdio_ok io log is_open" and ok: "lf_ok is_open s"
  shows "\<exists>s'. LogFile_flush io s = Some (Inr s') \<and> lf_ok is_open s' \<and> log (snd s') = log (snd s)"
proof -
  obtain lf k f where s: "s = (lf, k)" "lf_file lf = Some f" "is_open k (af_fp f)" using ok by (cases s) (auto simp: lf_ok_def)
  have "log (io_fflush io fp k) = log k" "is_open (io_fflush io fp k) (af_fp f)" for fp
    using io s(3) unfolding stdio_ok_def by auto
  with s show ?thesis by (simp add: LogFile_flush_def with_file_def lf_ok_def AppendFile_flush_def)
qed

section \<open>ReadSmallFile\<close>

text \<open>
  \<^verbatim>\<open>open\<close>, \<^verbatim>\<open>close\<close>, \<^verbatim>\<open>fstat\<close>, \<^verbatim>\<open>read\<close> and \<^verbatim>\<open>pread\<close> at offset 0. A call gives the error number on the left; a read gives the
  bytes read.
\<close>

record file_stat =
  st_regular :: bool
  st_directory :: bool
  st_size :: int
  st_mtime :: int
  st_ctime :: int

record 'k files =
  fs_open :: "string \<Rightarrow> 'k \<Rightarrow> (int + nat) \<times> 'k"
  fs_close :: "nat \<Rightarrow> 'k \<Rightarrow> 'k"
  fs_fstat :: "nat \<Rightarrow> 'k \<Rightarrow> int + file_stat"
  fs_read :: "nat \<Rightarrow> nat \<Rightarrow> 'k \<Rightarrow> (int + string) \<times> 'k"
  fs_pread :: "nat \<Rightarrow> nat \<Rightarrow> 'k \<Rightarrow> int + string"

definition EISDIR :: int where "EISDIR = 21"

definition kBufferSize :: nat where "kBufferSize = 64 * 1024"

record ReadSmallFile =
  rs_fd :: "nat option"
  rs_err :: int
  rs_buf :: string

definition ReadSmallFile_new :: "'k files \<Rightarrow> string \<Rightarrow> string \<Rightarrow> 'k \<Rightarrow> ReadSmallFile \<times> 'k" where
  "ReadSmallFile_new fs raw filename k = (case fs_open fs filename k of
     (Inl e, k) \<Rightarrow> (\<lparr>rs_fd = None, rs_err = e, rs_buf = raw[0 := CHR 0x00]\<rparr>, k)
   | (Inr fd, k) \<Rightarrow> (\<lparr>rs_fd = Some fd, rs_err = 0, rs_buf = raw[0 := CHR 0x00]\<rparr>, k))"

definition ReadSmallFile_delete :: "'k files \<Rightarrow> ReadSmallFile \<Rightarrow> 'k \<Rightarrow> 'k" where
  "ReadSmallFile_delete fs f k = (case rs_fd f of None \<Rightarrow> k | Some fd \<Rightarrow> fs_close fs fd k)"

text \<open>The loop that reads until there are \<open>limit\<close> bytes, the end of the file or an error.\<close>

function read_loop :: "'k files \<Rightarrow> nat \<Rightarrow> nat \<Rightarrow> string \<Rightarrow> int \<Rightarrow> string \<Rightarrow> 'k \<Rightarrow> string \<times> int \<times> string \<times> 'k" where
  "read_loop fs fd limit content err buf k =
     (if length content < limit then
        let toRead = min (limit - length content) kBufferSize
        in case fs_read fs fd toRead k of
             (Inl e, k') \<Rightarrow> (content, e, buf, k')
           | (Inr bs, k') \<Rightarrow>
               if bs \<noteq> [] then read_loop fs fd limit (content @ bs) err (bs @ drop (length bs) buf) k'
               else (content, err, buf, k')
      else (content, err, buf, k))"
  by pat_completeness auto
termination by (relation "measure (\<lambda>(fs, fd, limit, content, err, buf, k). limit - length content)") (auto intro!: diff_less_mono2)

declare read_loop.simps [simp del]

text \<open>
  What \<^verbatim>\<open>readToString\<close> stores through its pointers; the flags say which of the pointers are not null. \<^verbatim>\<open>reserve\<close> with a negative number
  asks for more than a string can hold.
\<close>

record read_result =
  rr_err :: int
  rr_content :: string
  rr_fileSize :: "int option"
  rr_modifyTime :: "int option"
  rr_createTime :: "int option"

definition stat_part :: "'k files \<Rightarrow> nat \<Rightarrow> int \<Rightarrow> bool \<Rightarrow> bool \<Rightarrow> bool \<Rightarrow> 'k \<Rightarrow> read_result \<Rightarrow> read_result outcome" where
  "stat_part fs fd maxSize fileSize modifyTime createTime k r =
     (if fileSize then case fs_fstat fs fd k of
        Inl e \<Rightarrow> Inr (r\<lparr>rr_err := e\<rparr>)
      | Inr st \<Rightarrow>
          if st_regular st \<and> min maxSize (st_size st) < 0 then Inl Length_error else
          let r1 = (if st_regular st then r\<lparr>rr_fileSize := Some (st_size st)\<rparr>
                    else if st_directory st then r\<lparr>rr_err := EISDIR\<rparr> else r);
              r2 = (if modifyTime then r1\<lparr>rr_modifyTime := Some (st_mtime st)\<rparr> else r1)
          in Inr (if createTime then r2\<lparr>rr_createTime := Some (st_ctime st)\<rparr> else r2)
      else Inr r)"

definition readToString :: "'k files \<Rightarrow> int \<Rightarrow> bool \<Rightarrow> bool \<Rightarrow> bool \<Rightarrow> string \<Rightarrow> ReadSmallFile \<Rightarrow> 'k \<Rightarrow> (read_result \<times> ReadSmallFile \<times> 'k) outcome" where
  "readToString fs maxSize fileSize modifyTime createTime content f k =
     (let r = \<lparr>rr_err = rs_err f, rr_content = content, rr_fileSize = None, rr_modifyTime = None, rr_createTime = None\<rparr>
      in case rs_fd f of None \<Rightarrow> Inr (r, f, k)
       | Some fd \<Rightarrow> andThen (stat_part fs fd maxSize fileSize modifyTime createTime k (r\<lparr>rr_content := []\<rparr>)) (\<lambda>r.
           case read_loop fs fd (int_to_size maxSize) [] (rr_err r) (rs_buf f) k of (content, err, buf, k) \<Rightarrow>
             Inr (r\<lparr>rr_content := content, rr_err := err\<rparr>, f\<lparr>rs_buf := buf\<rparr>, k)))"

text \<open>The size is stored when the read succeeds; the text in the buffer is closed with a null character.\<close>

definition readToBuffer :: "'k files \<Rightarrow> ReadSmallFile \<Rightarrow> 'k \<Rightarrow> int \<times> int option \<times> ReadSmallFile" where
  "readToBuffer fs f k = (case rs_fd f of None \<Rightarrow> (rs_err f, None, f)
     | Some fd \<Rightarrow> (case fs_pread fs fd (kBufferSize - 1) k of
         Inl e \<Rightarrow> (e, None, f)
       | Inr bs \<Rightarrow> (rs_err f, Some (int (length bs)), f\<lparr>rs_buf := bs @ CHR 0x00 # drop (Suc (length bs)) (rs_buf f)\<rparr>)))"

definition readFile :: "'k files \<Rightarrow> string \<Rightarrow> string \<Rightarrow> int \<Rightarrow> bool \<Rightarrow> bool \<Rightarrow> bool \<Rightarrow> string \<Rightarrow> 'k \<Rightarrow> (read_result \<times> 'k) outcome" where
  "readFile fs raw filename maxSize fileSize modifyTime createTime content k =
     (case ReadSmallFile_new fs raw filename k of (f, k) \<Rightarrow>
        andThen (readToString fs maxSize fileSize modifyTime createTime content f k) (\<lambda>(r, f, k). Inr (r, ReadSmallFile_delete fs f k)))"

text \<open>
  A file that holds \<open>data\<close>: each read returns the next bytes, some of them unless the end is reached, and moves the position.
\<close>

definition reads_data :: "'k files \<Rightarrow> nat \<Rightarrow> string \<Rightarrow> ('k \<Rightarrow> nat) \<Rightarrow> bool" where
  "reads_data fs fd data pos \<longleftrightarrow> (\<forall>n k. \<exists>bs k'. fs_read fs fd n k = (Inr bs, k') \<and> length bs \<le> n
     \<and> bs = take (length bs) (drop (pos k) data) \<and> pos k' = pos k + length bs \<and> (0 < n \<and> pos k < length data \<longrightarrow> bs \<noteq> []))"

text \<open>The loop collects the first bytes of the file, whatever the sizes of the reads.\<close>

lemma read_loop_data:
  assumes "reads_data fs fd data pos" and "pos k = length content" and "content = take (length content) data" and "length content \<le> limit"
  shows "\<exists>buf' k'. read_loop fs fd limit content err buf k = (take limit data, err, buf', k')"
  using assms
proof (induction fs fd limit content err buf k rule: read_loop.induct)
  case (1 fs fd limit content err buf k)
  let ?n = "min (limit - length content) kBufferSize"
  obtain bs k' where r: "fs_read fs fd ?n k = (Inr bs, k')" "length bs \<le> ?n" "bs = take (length bs) (drop (pos k) data)"
    "pos k' = pos k + length bs" "0 < ?n \<and> pos k < length data \<longrightarrow> bs \<noteq> []"
    using 1(2) unfolding reads_data_def by blast
  show ?case
  proof (cases "length content < limit \<and> bs \<noteq> []")
    case True
    have c: "content @ bs = take (length (content @ bs)) data" using 1(3,4) r(3) by (metis take_add length_append)
    have n: "pos k' = length (content @ bs)" "length (content @ bs) \<le> limit" using True r(2,4) 1(3) by auto
    have "\<exists>buf' j. read_loop fs fd limit (content @ bs) err (bs @ drop (length bs) buf) k' = (take limit data, err, buf', j)"
      by (rule 1(1) [OF _ refl _ _ _ 1(2) n(1) c n(2)]) (use True r(1) in auto)
    with True r(1) show ?thesis by (subst read_loop.simps) (simp add: Let_def)
  next
    case False
    have "length content < limit \<Longrightarrow> length data \<le> length content" using False r(5) 1(3) by (auto simp: kBufferSize_def)
    then have "content = take limit data" using 1(4,5) by (cases "length content < limit") auto
    with False r(1) show ?thesis by (subst read_loop.simps) (auto simp: Let_def)
  qed
qed

lemma readFile_data:
  assumes "fs_open fs filename k = (Inr fd, k')" and "reads_data fs fd data pos" and "pos k' = 0" and "0 \<le> maxSize" and "maxSize < 2 ^ 31"
  shows "\<exists>k''. readFile fs raw filename maxSize False False False content k =
    Inr (\<lparr>rr_err = 0, rr_content = take (nat maxSize) data, rr_fileSize = None, rr_modifyTime = None, rr_createTime = None\<rparr>, k'')"
proof -
  have n: "int_to_size maxSize = nat maxSize" using assms(4,5) int_to_size_of_nat [of "nat maxSize"] by simp
  from read_loop_data [OF assms(2), of k' "[]" "nat maxSize" 0 "raw[0 := CHR 0x00]"] assms(3)
  obtain buf j where "read_loop fs fd (nat maxSize) [] 0 (raw[0 := CHR 0x00]) k' = (take (nat maxSize) data, 0, buf, j)" by auto
  then show ?thesis using assms(1) n
    by (simp add: readFile_def ReadSmallFile_new_def readToString_def stat_part_def Let_def)
qed

end
