(* ===== verification/Muduo_AsyncLogging.thy ===== *)
theory Muduo_AsyncLogging
  imports Muduo_LogFile
begin

text \<open>
  Asynchronous logging, \<^verbatim>\<open>base/AsyncLogging.cc\<close> and \<^verbatim>\<open>base/AsyncLogging.h\<close>. The threads that log and the thread that writes are a
  transition system: a call of \<^verbatim>\<open>append\<close>, which holds the mutex, is one step; the writing thread moves between the test of its
  loop, its critical section and the writing, during which the other threads go on. The wait for the condition ends by a
  notification, by the time limit or for no reason. What the thread prints on \<^verbatim>\<open>stderr\<close> when it throws buffers away is left out.
\<close>

section \<open>AsyncLogging\<close>

text \<open>A \<^verbatim>\<open>unique_ptr\<close> to a buffer is \<open>None\<close> when null or moved from.\<close>

type_synonym BufferPtr = "FixedBuffer option"

definition deref :: "BufferPtr \<Rightarrow> (FixedBuffer \<Rightarrow> 'a outcome) \<Rightarrow> 'a outcome" where
  "deref p f = (case p of None \<Rightarrow> Inl Bad_pointer | Some b \<Rightarrow> f b)"

record AsyncLogging =
  al_running :: bool
  al_currentBuffer :: BufferPtr
  al_nextBuffer :: BufferPtr
  al_buffers :: "BufferPtr list"

text \<open>\<open>raw\<close> are the bytes a new buffer holds; the first two buffers are cleared.\<close>

definition AsyncLogging_new :: "string \<Rightarrow> string \<Rightarrow> AsyncLogging" where
  "AsyncLogging_new raw1 raw2 = \<lparr>al_running = False, al_currentBuffer = Some (FixedBuffer_bzero (FixedBuffer_new raw1)),
     al_nextBuffer = Some (FixedBuffer_bzero (FixedBuffer_new raw2)), al_buffers = []\<rparr>"

definition AsyncLogging_append :: "string \<Rightarrow> string \<Rightarrow> int \<Rightarrow> AsyncLogging \<Rightarrow> AsyncLogging outcome" where
  "AsyncLogging_append raw logline len l = deref (al_currentBuffer l) (\<lambda>b.
     if fb_avail b > len then
       andThen (FixedBuffer_append logline (int_to_size len) b) (\<lambda>b. Inr (l\<lparr>al_currentBuffer := Some b\<rparr>))
     else
       let l1 = l\<lparr>al_buffers := al_buffers l @ [Some b], al_currentBuffer := None\<rparr>;
           l2 = (case al_nextBuffer l1 of
                   Some nb \<Rightarrow> l1\<lparr>al_currentBuffer := Some nb, al_nextBuffer := None\<rparr>
                 | None \<Rightarrow> l1\<lparr>al_currentBuffer := Some (FixedBuffer_new raw)\<rparr>)
       in deref (al_currentBuffer l2) (\<lambda>b.
            andThen (FixedBuffer_append logline (int_to_size len) b) (\<lambda>b. Inr (l2\<lparr>al_currentBuffer := Some b\<rparr>))))"

text \<open>\<^verbatim>\<open>start()\<close> and \<^verbatim>\<open>stop()\<close> up to their calls of the thread library; waking the writer is a step it can always take.\<close>

definition AsyncLogging_start :: "AsyncLogging \<Rightarrow> AsyncLogging" where
  "AsyncLogging_start l = l\<lparr>al_running := True\<rparr>"

definition AsyncLogging_stop :: "AsyncLogging \<Rightarrow> AsyncLogging" where
  "AsyncLogging_stop l = l\<lparr>al_running := False\<rparr>"

definition AsyncLogging_delete :: "AsyncLogging \<Rightarrow> AsyncLogging" where
  "AsyncLogging_delete l = (if al_running l then AsyncLogging_stop l else l)"

text \<open>
  The writing thread: at the test of its loop, about to take the mutex, waiting for the condition,
  past the critical section with buffers to write, and past the loop. \<open>as_lines\<close> is the history of the lines appended,
  and \<open>as_dropped\<close> whether buffers were ever thrown away.
\<close>

datatype writer_pc = At_test | At_lock | Waiting | Writing | Ended

record 'o async_sys =
  as_log :: AsyncLogging
  as_pc :: writer_pc
  as_new1 :: BufferPtr
  as_new2 :: BufferPtr
  as_toWrite :: "BufferPtr list"
  as_out :: 'o
  as_lines :: "string list"
  as_dropped :: bool

text \<open>The beginning of \<^verbatim>\<open>threadFunc\<close>, with the output file open.\<close>

definition threadFunc_init :: "string \<Rightarrow> string \<Rightarrow> AsyncLogging \<Rightarrow> 'o \<Rightarrow> 'o async_sys outcome" where
  "threadFunc_init raw1 raw2 l out = assert_that (al_running l) ''running_ == true''
     (Inr \<lparr>as_log = l, as_pc = At_test, as_new1 = Some (FixedBuffer_bzero (FixedBuffer_new raw1)),
        as_new2 = Some (FixedBuffer_bzero (FixedBuffer_new raw2)), as_toWrite = [], as_out = out, as_lines = [], as_dropped = False\<rparr>)"

definition empty_buffer :: "BufferPtr \<Rightarrow> bool" where
  "empty_buffer p \<longleftrightarrow> (\<exists>b. p = Some b \<and> fb_length b = 0)"

definition threadFunc_test :: "('o \<Rightarrow> 'o outcome option) \<Rightarrow> 'o async_sys \<Rightarrow> 'o async_sys outcome option" where
  "threadFunc_test flush s = (if al_running (as_log s) then Some
       (assert_that (empty_buffer (as_new1 s)) ''newBuffer1 && newBuffer1->length() == 0''
         (assert_that (empty_buffer (as_new2 s)) ''newBuffer2 && newBuffer2->length() == 0''
           (assert_that (as_toWrite s = []) ''buffersToWrite.empty()'' (Inr (s\<lparr>as_pc := At_lock\<rparr>)))))
     else then_opt (flush (as_out s)) (\<lambda>out. Some (Inr (s\<lparr>as_out := out, as_pc := Ended\<rparr>))))"

definition threadFunc_swap :: "'o async_sys \<Rightarrow> 'o async_sys" where
  "threadFunc_swap s =
     (let l = as_log s;
          l1 = l\<lparr>al_buffers := al_buffers l @ [al_currentBuffer l], al_currentBuffer := as_new1 s\<rparr>;
          s1 = s\<lparr>as_new1 := None, as_toWrite := al_buffers l1\<rparr>;
          l2 = l1\<lparr>al_buffers := as_toWrite s\<rparr>
      in if al_nextBuffer l2 = None
         then s1\<lparr>as_log := l2\<lparr>al_nextBuffer := as_new2 s\<rparr>, as_new2 := None, as_pc := Writing\<rparr>
         else s1\<lparr>as_log := l2, as_pc := Writing\<rparr>)"

text \<open>Writing one buffer, and taking back the last of the buffers written.\<close>

definition write_buffer :: "('e \<Rightarrow> string \<Rightarrow> 'o \<Rightarrow> 'o outcome option) \<Rightarrow> 'e \<Rightarrow> BufferPtr \<Rightarrow> 'o \<Rightarrow> 'o outcome option" where
  "write_buffer app env p out = then_opt (Some (deref p FixedBuffer_toString)) (\<lambda>x. app env x out)"

definition take_back :: "BufferPtr \<Rightarrow> BufferPtr list \<Rightarrow> (BufferPtr \<times> BufferPtr list) outcome" where
  "take_back p bs = (if p = None
     then assert_that (bs \<noteq> []) ''!buffersToWrite.empty()'' (deref (last bs) (\<lambda>b. Inr (Some (FixedBuffer_reset b), butlast bs)))
     else Inr (p, bs))"

definition drop_note :: "string \<Rightarrow> nat \<Rightarrow> string" where
  "drop_note now n = snprintf 256 (''Dropped log messages at '' @ now @ '', '' @ dec_nat n @ '' larger buffers'' @ [CHR 0x0A])"

definition threadFunc_write ::
  "('e \<Rightarrow> string \<Rightarrow> 'o \<Rightarrow> 'o outcome option) \<Rightarrow> ('o \<Rightarrow> 'o outcome option) \<Rightarrow> 'e \<Rightarrow> (int \<Rightarrow> struct_tm) \<Rightarrow> Timestamp
     \<Rightarrow> 'o async_sys \<Rightarrow> 'o async_sys outcome option" where
  "threadFunc_write app flush env gmtime now s =
     (if as_toWrite s = [] then Some (Inl (Assert_failed ''!buffersToWrite.empty()'')) else
      let overload = length (as_toWrite s) > 25 in
      then_opt (if overload then app env (drop_note (toFormattedString gmtime True now) (length (as_toWrite s) - 2)) (as_out s)
                else Some (Inr (as_out s))) (\<lambda>out.
      let bs = (if overload then take 2 (as_toWrite s) else as_toWrite s) in
      then_opt (for_each_opt (write_buffer app env) bs out) (\<lambda>out.
      let bs = (if length bs > 2 then take 2 bs else bs) in
      then_opt (Some (take_back (as_new1 s) bs)) (\<lambda>(new1, bs).
      then_opt (Some (take_back (as_new2 s) bs)) (\<lambda>(new2, bs).
      then_opt (flush out) (\<lambda>out.
      Some (Inr (s\<lparr>as_new1 := new1, as_new2 := new2, as_toWrite := [], as_out := out, as_pc := At_test,
         as_dropped := (as_dropped s \<or> overload)\<rparr>))))))))"

inductive async_step :: "('e \<Rightarrow> string \<Rightarrow> 'o \<Rightarrow> 'o outcome option) \<Rightarrow> ('o \<Rightarrow> 'o outcome option) \<Rightarrow> 'o async_sys \<Rightarrow> 'o async_sys \<Rightarrow> bool"
  for app flush where
  Line: "length raw = kLargeBuffer \<Longrightarrow> length x < 2 ^ 31 \<Longrightarrow> AsyncLogging_append raw x (int (length x)) (as_log s) = Inr l \<Longrightarrow>
    async_step app flush s (s\<lparr>as_log := l, as_lines := (if length x < kLargeBuffer then as_lines s @ [x] else as_lines s)\<rparr>)"
| Stop: "async_step app flush s (s\<lparr>as_log := AsyncLogging_stop (as_log s)\<rparr>)"
| Test: "as_pc s = At_test \<Longrightarrow> threadFunc_test flush s = Some (Inr s') \<Longrightarrow> async_step app flush s s'"
| Sleep: "as_pc s = At_lock \<Longrightarrow> al_buffers (as_log s) = [] \<Longrightarrow> async_step app flush s (s\<lparr>as_pc := Waiting\<rparr>)"
| Swap: "as_pc s = At_lock \<Longrightarrow> al_buffers (as_log s) \<noteq> [] \<Longrightarrow> async_step app flush s (threadFunc_swap s)"
| Wake: "as_pc s = Waiting \<Longrightarrow> async_step app flush s (threadFunc_swap s)"
| Write: "as_pc s = Writing \<Longrightarrow> threadFunc_write app flush env gmtime now s = Some (Inr s') \<Longrightarrow> async_step app flush s s'"

section \<open>Where the lines are\<close>

definition ptr_holds :: "BufferPtr \<Rightarrow> string \<Rightarrow> bool" where
  "ptr_holds p t \<longleftrightarrow> (\<exists>b. p = Some b \<and> fb_holds kLargeBuffer b t)"

definition ptr_text :: "BufferPtr \<Rightarrow> string" where
  "ptr_text p = (case p of None \<Rightarrow> [] | Some b \<Rightarrow> take (fb_cur b) (fb_data b))"

abbreviation ptr_ok :: "BufferPtr \<Rightarrow> bool" where
  "ptr_ok p \<equiv> ptr_holds p (ptr_text p)"

lemma ptr_holds_text: "ptr_holds p t \<Longrightarrow> ptr_text p = t"
  by (auto simp: ptr_holds_def ptr_text_def fb_holds_def)

lemma ptr_holds_ok: "ptr_holds p t \<Longrightarrow> ptr_ok p"
  using ptr_holds_text by metis

lemma ptr_holds_new: "length raw = kLargeBuffer \<Longrightarrow> ptr_holds (Some (FixedBuffer_new raw)) []"
  using fb_holds_new [of raw] by (simp add: ptr_holds_def kLargeBuffer_def)

lemma ptr_holds_bzero: "length raw = kLargeBuffer \<Longrightarrow> ptr_holds (Some (FixedBuffer_bzero (FixedBuffer_new raw))) []"
  by (simp add: ptr_holds_def fb_holds_def FixedBuffer_bzero_def FixedBuffer_new_def kLargeBuffer_def)

lemma ptr_holds_reset: "ptr_ok p \<Longrightarrow> \<exists>b. p = Some b \<and> ptr_holds (Some (FixedBuffer_reset b)) []"
  using fb_holds_reset by (auto simp: ptr_holds_def)

lemma ptr_holds_empty: "ptr_holds p [] \<Longrightarrow> empty_buffer p"
  by (auto simp: ptr_holds_def empty_buffer_def fb_holds_def fb_length_def)

text \<open>The text that waits in the buffers, and the invariant of the buffers.\<close>

definition pending :: "AsyncLogging \<Rightarrow> string" where
  "pending l = concat (map ptr_text (al_buffers l)) @ ptr_text (al_currentBuffer l)"

definition buffers_ok :: "AsyncLogging \<Rightarrow> bool" where
  "buffers_ok l \<longleftrightarrow> ptr_ok (al_currentBuffer l) \<and> (\<forall>p \<in> set (al_buffers l). ptr_ok p)
     \<and> (if al_nextBuffer l = None then al_buffers l \<noteq> [] else ptr_holds (al_nextBuffer l) [])"

lemma buffers_ok_new: "length raw1 = kLargeBuffer \<Longrightarrow> length raw2 = kLargeBuffer \<Longrightarrow> buffers_ok (AsyncLogging_new raw1 raw2) \<and> pending (AsyncLogging_new raw1 raw2) = []"
  using ptr_holds_bzero [of raw1] ptr_holds_bzero [of raw2] ptr_holds_ok [OF ptr_holds_bzero, of raw1] ptr_holds_text [OF ptr_holds_bzero, of raw1]
  by (simp add: buffers_ok_def AsyncLogging_new_def pending_def)

lemma append_ptr:
  assumes "ptr_holds p t" and "length x < 2 ^ 31"
  shows "\<exists>b. deref p (\<lambda>b. andThen (FixedBuffer_append x (int_to_size (int (length x))) b) k) = k b
    \<and> ptr_holds (Some b) (text_append kLargeBuffer x t)"
proof -
  obtain b where b: "p = Some b" "fb_holds kLargeBuffer b t" using assms(1) by (auto simp: ptr_holds_def)
  have "int_to_size (int (length x)) = length x" using assms(2) by simp
  with append_holds [OF b(2), of "length x" x] b(1) show ?thesis by (auto simp: deref_def ptr_holds_def)
qed

lemma AsyncLogging_append_ok:
  assumes ok: "buffers_ok l" and raw: "length raw = kLargeBuffer" and x: "length x < 2 ^ 31"
  shows "\<exists>l'. AsyncLogging_append raw x (int (length x)) l = Inr l' \<and> buffers_ok l' \<and> al_running l' = al_running l
    \<and> pending l' = pending l @ (if length x < kLargeBuffer then x else [])"
proof -
  define t where "t = ptr_text (al_currentBuffer l)"
  from ok obtain b where b: "al_currentBuffer l = Some b" "fb_holds kLargeBuffer b t"
    unfolding buffers_ok_def t_def by (auto simp: ptr_holds_def)
  show ?thesis
  proof (cases "length t + length x < kLargeBuffer")
    case True
    then have av: "fb_avail b > int (length x)" using fb_avail_holds [OF b(2)] by simp
    from append_ptr [of "Some b" t x "\<lambda>b. Inr (l\<lparr>al_currentBuffer := Some b\<rparr>)"] b(2) x obtain b' where
      b': "deref (Some b) (\<lambda>b. andThen (FixedBuffer_append x (int_to_size (int (length x))) b) (\<lambda>b. Inr (l\<lparr>al_currentBuffer := Some b\<rparr>))) = Inr (l\<lparr>al_currentBuffer := Some b'\<rparr>)"
      "ptr_holds (Some b') (t @ x)" using True by (auto simp: ptr_holds_def text_append_def)
    have "AsyncLogging_append raw x (int (length x)) l = Inr (l\<lparr>al_currentBuffer := Some b'\<rparr>)"
      using b'(1) av b(1) by (simp add: AsyncLogging_append_def deref_def)
    then show ?thesis using ok b'(2) True ptr_holds_ok [OF b'(2)] ptr_holds_text [OF b'(2)] b(1)
      by (auto simp: buffers_ok_def pending_def t_def)
  next
    case False
    then have av: "\<not> fb_avail b > int (length x)" using fb_avail_holds [OF b(2)] by auto
    define l2 where "l2 = l\<lparr>al_buffers := al_buffers l @ [Some b],
      al_currentBuffer := (case al_nextBuffer l of Some nb \<Rightarrow> Some nb | None \<Rightarrow> Some (FixedBuffer_new raw)), al_nextBuffer := None\<rparr>"
    have c: "ptr_holds (al_currentBuffer l2) []"
      using ok ptr_holds_new [OF raw] by (auto simp: l2_def buffers_ok_def split: option.splits)
    have ta: "text_append kLargeBuffer x [] = (if length x < kLargeBuffer then x else [])" by (simp add: text_append_def)
    from append_ptr [OF c x, of "\<lambda>b. Inr (l2\<lparr>al_currentBuffer := Some b\<rparr>)"] obtain b' where
      b': "deref (al_currentBuffer l2) (\<lambda>b. andThen (FixedBuffer_append x (int_to_size (int (length x))) b) (\<lambda>b. Inr (l2\<lparr>al_currentBuffer := Some b\<rparr>))) = Inr (l2\<lparr>al_currentBuffer := Some b'\<rparr>)"
      "ptr_holds (Some b') (if length x < kLargeBuffer then x else [])" unfolding ta by blast
    have l2: "(case al_nextBuffer l of Some nb \<Rightarrow> l\<lparr>al_buffers := al_buffers l @ [Some b], al_currentBuffer := Some nb, al_nextBuffer := None\<rparr>
        | None \<Rightarrow> l\<lparr>al_buffers := al_buffers l @ [Some b], al_currentBuffer := Some (FixedBuffer_new raw)\<rparr>) = l2"
      by (cases l) (simp add: l2_def split: option.split)
    have "AsyncLogging_append raw x (int (length x)) l = Inr (l2\<lparr>al_currentBuffer := Some b'\<rparr>)"
      using b'(1) av l2 b(1) by (simp add: AsyncLogging_append_def deref_def Let_def cong: option.case_cong)
    moreover have "ptr_ok (Some b)" using b ok by (simp add: buffers_ok_def)
    ultimately show ?thesis using ok b(1) ptr_holds_ok [OF b'(2)] ptr_holds_text [OF b'(2)]
      by (auto simp: buffers_ok_def pending_def l2_def)
  qed
qed

section \<open>What the writer needs of its file\<close>

text \<open>
  The contract between the writer and its output: appending and flushing return, and the text of the output is
  what was appended.
\<close>

locale log_sink =
  fixes app :: "'e \<Rightarrow> string \<Rightarrow> 'o \<Rightarrow> 'o outcome option"
    and flush :: "'o \<Rightarrow> 'o outcome option"
    and sink_text :: "'o \<Rightarrow> string"
    and sink_ok :: "'o \<Rightarrow> bool"
  assumes sink_append: "sink_ok out \<Longrightarrow> \<exists>out'. app env x out = Some (Inr out') \<and> sink_ok out' \<and> sink_text out' = sink_text out @ x"
    and sink_flush: "sink_ok out \<Longrightarrow> \<exists>out'. flush out = Some (Inr out') \<and> sink_ok out' \<and> sink_text out' = sink_text out"

text \<open>The invariant of the system of threads.\<close>

definition async_inv :: "('o \<Rightarrow> string) \<Rightarrow> ('o \<Rightarrow> bool) \<Rightarrow> 'o async_sys \<Rightarrow> bool" where
  "async_inv sink_text sink_ok s \<longleftrightarrow> buffers_ok (as_log s) \<and> sink_ok (as_out s)
     \<and> (if as_pc s = Writing
        then as_new1 s = None \<and> as_toWrite s \<noteq> [] \<and> (\<forall>p \<in> set (as_toWrite s). ptr_ok p)
             \<and> (if as_new2 s = None then 2 \<le> length (as_toWrite s) else ptr_holds (as_new2 s) [])
        else ptr_holds (as_new1 s) [] \<and> ptr_holds (as_new2 s) [] \<and> as_toWrite s = [])
     \<and> (\<not> as_dropped s \<longrightarrow> concat (as_lines s) = sink_text (as_out s) @ concat (map ptr_text (as_toWrite s)) @ pending (as_log s))"

lemma take_back_ok:
  assumes "p = None \<longrightarrow> bs \<noteq> []" and "p \<noteq> None \<longrightarrow> ptr_holds p []" and "\<forall>q \<in> set bs. ptr_ok q"
  shows "\<exists>q. take_back p bs = Inr (q, if p = None then butlast bs else bs) \<and> ptr_holds q []"
proof (cases p)
  case None
  with assms(1,3) have "ptr_ok (last bs)" by simp
  from ptr_holds_reset [OF this] obtain b where "last bs = Some b" "ptr_holds (Some (FixedBuffer_reset b)) []" by blast
  with None assms(1) show ?thesis by (simp add: take_back_def deref_def)
qed (use assms(2) in \<open>simp add: take_back_def\<close>)

lemma swap_inv:
  assumes "async_inv sink_text sink_ok s" and "as_pc s = At_lock \<or> as_pc s = Waiting"
  shows "async_inv sink_text sink_ok (threadFunc_swap s)"
proof -
  let ?l = "as_log s"
  have s: "buffers_ok ?l" "sink_ok (as_out s)" "ptr_holds (as_new1 s) []" "ptr_holds (as_new2 s) []" "as_toWrite s = []"
    "\<not> as_dropped s \<longrightarrow> concat (as_lines s) = sink_text (as_out s) @ pending ?l"
    using assms by (auto simp: async_inv_def)
  have n1: "ptr_ok (as_new1 s)" "ptr_text (as_new1 s) = []" "as_new2 s \<noteq> None"
    using ptr_holds_ok [OF s(3)] ptr_holds_text [OF s(3)] s(4) by (auto simp: ptr_holds_def)
  have w: "\<forall>p \<in> set (al_buffers ?l @ [al_currentBuffer ?l]). ptr_ok p" using s(1) by (auto simp: buffers_ok_def)
  show ?thesis
  proof (cases "al_nextBuffer ?l = None")
    case True
    then have "al_buffers ?l \<noteq> []" using s(1) by (simp add: buffers_ok_def)
    then have "2 \<le> length (al_buffers ?l @ [al_currentBuffer ?l])" by (cases "al_buffers ?l") auto
    with True s n1 w show ?thesis by (auto simp: threadFunc_swap_def Let_def async_inv_def buffers_ok_def pending_def)
  next
    case False
    then have "ptr_holds (al_nextBuffer ?l) []" using s(1) by (simp add: buffers_ok_def)
    with False s n1 w show ?thesis by (auto simp: threadFunc_swap_def Let_def async_inv_def buffers_ok_def pending_def)
  qed
qed

lemma write_buffer_ptr: "ptr_ok p \<Longrightarrow> write_buffer app env p out = app env (ptr_text p) out"
  by (auto simp: ptr_holds_def write_buffer_def deref_def fb_holds_toString)

context log_sink
begin

lemma write_all:
  assumes "\<forall>p \<in> set bs. ptr_ok p" and "sink_ok out"
  shows "\<exists>out'. for_each_opt (write_buffer app env) bs out = Some (Inr out') \<and> sink_ok out' \<and> sink_text out' = sink_text out @ concat (map ptr_text bs)"
  using assms
proof (induction bs arbitrary: out)
  case (Cons p bs)
  from sink_append [OF Cons.prems(2), of env "ptr_text p"] obtain out1
    where o1: "app env (ptr_text p) out = Some (Inr out1)" "sink_ok out1" "sink_text out1 = sink_text out @ ptr_text p" by blast
  from Cons.IH [OF _ o1(2)] Cons.prems(1) o1 write_buffer_ptr [of p app env out] show ?case by auto
qed simp

lemma test_ok:
  assumes "async_inv sink_text sink_ok s" and "as_pc s = At_test"
  shows "\<exists>s'. threadFunc_test flush s = Some (Inr s') \<and> async_inv sink_text sink_ok s'"
proof (cases "al_running (as_log s)")
  case True
  have "empty_buffer (as_new1 s)" "empty_buffer (as_new2 s)" "as_toWrite s = []"
    using assms ptr_holds_empty by (auto simp: async_inv_def)
  with True assms show ?thesis by (simp add: threadFunc_test_def async_inv_def)
next
  case False
  from assms(1) have "sink_ok (as_out s)" by (simp add: async_inv_def)
  from sink_flush [OF this] obtain out where "flush (as_out s) = Some (Inr out)" "sink_ok out" "sink_text out = sink_text (as_out s)" by blast
  with False assms show ?thesis by (simp add: threadFunc_test_def async_inv_def)
qed

lemma write_ok:
  assumes inv: "async_inv sink_text sink_ok s" and pc: "as_pc s = Writing"
  shows "\<exists>s'. threadFunc_write app flush env gmtime now s = Some (Inr s') \<and> async_inv sink_text sink_ok s'"
proof -
  let ?w = "as_toWrite s" and ?over = "length (as_toWrite s) > 25"
  have s: "buffers_ok (as_log s)" "sink_ok (as_out s)" "as_new1 s = None" "?w \<noteq> []" "\<forall>p \<in> set ?w. ptr_ok p"
    "if as_new2 s = None then 2 \<le> length ?w else ptr_holds (as_new2 s) []"
    "\<not> as_dropped s \<longrightarrow> concat (as_lines s) = sink_text (as_out s) @ concat (map ptr_text ?w) @ pending (as_log s)"
    using inv pc by (auto simp: async_inv_def)
  define msg where "msg = drop_note (toFormattedString gmtime True now) (length ?w - 2)"
  define bs where "bs = (if ?over then take 2 ?w else ?w)"
  define cs where "cs = (if length bs > 2 then take 2 bs else bs)"
  have "\<exists>out. (if ?over then app env msg (as_out s) else Some (Inr (as_out s))) = Some (Inr out) \<and> sink_ok out \<and> (\<not> ?over \<longrightarrow> sink_text out = sink_text (as_out s))"
    using sink_append [OF s(2), of env msg] s(2) by auto
  then obtain out1 where o1: "(if ?over then app env msg (as_out s) else Some (Inr (as_out s))) = Some (Inr out1)" "sink_ok out1"
    "\<not> ?over \<longrightarrow> sink_text out1 = sink_text (as_out s)" by blast
  have bs: "\<forall>p \<in> set bs. ptr_ok p" using s(5) by (auto simp: bs_def dest: in_set_takeD)
  from write_all [OF bs o1(2), of env] obtain out2 where o2: "for_each_opt (write_buffer app env) bs out1 = Some (Inr out2)" "sink_ok out2"
    "sink_text out2 = sink_text out1 @ concat (map ptr_text bs)" by blast
  have cs: "\<forall>p \<in> set cs. ptr_ok p" "cs \<noteq> []" "2 \<le> length ?w \<longrightarrow> length cs = 2"
    using bs s(4) by (auto simp: cs_def bs_def dest: in_set_takeD)
  from take_back_ok [of "as_new1 s" cs] cs s(3) obtain new1 where t1: "take_back (as_new1 s) cs = Inr (new1, butlast cs)" "ptr_holds new1 []" by auto
  have "butlast cs \<noteq> []" if "as_new2 s = None" using that s(6) cs(3) by (cases cs rule: rev_cases) auto
  with take_back_ok [of "as_new2 s" "butlast cs"] s(6) cs(1) obtain new2 bs' where t2: "take_back (as_new2 s) (butlast cs) = Inr (new2, bs')" "ptr_holds new2 []"
    by (auto simp: in_set_butlastD split: if_splits)
  from sink_flush [OF o2(2)] obtain out3 where o3: "flush out2 = Some (Inr out3)" "sink_ok out3" "sink_text out3 = sink_text out2" by blast
  have "threadFunc_write app flush env gmtime now s = Some (Inr (s\<lparr>as_new1 := new1, as_new2 := new2, as_toWrite := [], as_out := out3,
      as_pc := At_test, as_dropped := (as_dropped s \<or> ?over)\<rparr>))"
    unfolding threadFunc_write_def Let_def msg_def [symmetric] o1(1) bs_def [symmetric]
    using s(4) by (simp add: o2(1) cs_def [symmetric] t1(1) t2(1) o3(1))
  with s(1,7) t1(2) t2(2) o1(3) o2(3) o3 show ?thesis by (auto simp: async_inv_def bs_def)
qed

lemma async_inv_step:
  assumes "async_step app flush s s'" and "async_inv sink_text sink_ok s"
  shows "async_inv sink_text sink_ok s'"
  using assms
proof (cases rule: async_step.cases)
  case (Line raw x l)
  from AsyncLogging_append_ok [OF _ Line(2,3), of "as_log s"] Line(4) assms(2)
  have "buffers_ok l" "pending l = pending (as_log s) @ (if length x < kLargeBuffer then x else [])" by (auto simp: async_inv_def)
  with Line(1) assms(2) show ?thesis by (auto simp: async_inv_def)
next
  case Stop
  then show ?thesis using assms(2) by (simp add: async_inv_def AsyncLogging_stop_def buffers_ok_def pending_def)
next
  case Test
  then show ?thesis using test_ok [OF assms(2)] by auto
next
  case Sleep
  then show ?thesis using assms(2) by (simp add: async_inv_def)
next
  case Swap
  then show ?thesis using swap_inv [OF assms(2)] by simp
next
  case Wake
  then show ?thesis using swap_inv [OF assms(2)] by simp
next
  case (Write env gmtime now)
  then show ?thesis using write_ok [OF assms(2), of env gmtime now] by auto
qed

lemma async_inv_reachable:
  assumes "(async_step app flush)\<^sup>*\<^sup>* s s'" and "async_inv sink_text sink_ok s"
  shows "async_inv sink_text sink_ok s'"
  using assms by (induction rule: rtranclp_induct) (auto intro: async_inv_step)

end

lemma async_inv_init:
  assumes "threadFunc_init raw1 raw2 (AsyncLogging_start (AsyncLogging_new raw3 raw4)) out = Inr s" and "sink_ok out" and "sink_text out = []"
    and "length raw1 = kLargeBuffer" "length raw2 = kLargeBuffer" "length raw3 = kLargeBuffer" "length raw4 = kLargeBuffer"
  shows "async_inv sink_text sink_ok s"
  using assms buffers_ok_new [of raw3 raw4]
  by (auto simp: threadFunc_init_def assert_that_def async_inv_def ptr_holds_bzero AsyncLogging_start_def buffers_ok_def pending_def split: if_splits)

section \<open>Log files as the output of the writer\<close>

lemma log_file_is_sink:
  "stdio_ok io log is_open \<Longrightarrow> log_sink (LogFile_append io) (LogFile_flush io) (\<lambda>s. log (snd s)) (lf_ok is_open)"
  using log_file_append log_file_flush by unfold_locales blast+

lemma log_file_new:
  assumes io: "stdio_ok io log is_open" and new: "LogFile_new io env basename rollSize ts fi n k = Inr out" and t: "0 < fe_rollTime env"
  shows "lf_ok is_open out \<and> log (snd out) = log k"
proof -
  obtain name where n: "getLogFileName env basename = (name, fe_rollTime env)" by (simp add: getLogFileName_def Let_def)
  obtain fp k' where "io_fopen io name k = (Some fp, k')" "log k' = log k" "is_open k' fp" using io unfolding stdio_ok_def by blast
  with n t new show ?thesis
    by (auto simp: LogFile_new_def rollFile_def AppendFile_new_def lf_ok_def assert_that_def split: if_splits)
qed

text \<open>Streams in memory: what was written, and the number of streams opened.\<close>

definition memory_stdio :: "(string \<times> nat) stdio" where
  "memory_stdio = \<lparr>io_fopen = (\<lambda>name (log, n). (Some n, (log, Suc n))), io_fwrite = (\<lambda>fp x (log, n). (length x, (log @ x, n))),
     io_ferror = (\<lambda>fp k. False), io_fflush = (\<lambda>fp k. k), io_fclose = (\<lambda>fp k. k)\<rparr>"

lemma memory_stdio_ok: "stdio_ok memory_stdio fst (\<lambda>k fp. fp < snd k)"
  by (auto simp: stdio_ok_def memory_stdio_def split: prod.splits)

interpretation memory_log: log_sink "LogFile_append memory_stdio" "LogFile_flush memory_stdio" "\<lambda>s. fst (snd s)" "lf_ok (\<lambda>k fp. fp < snd k)"
  by (rule log_file_is_sink [OF memory_stdio_ok])

text \<open>
  A logger that was started: the thread has opened its file, with the intervals the constructor of \<^verbatim>\<open>LogFile\<close> has by default,
  and is at the beginning of its loop. \<open>raws\<close> are the bytes its four buffers were allocated with.
\<close>

definition async_start :: "'k stdio \<Rightarrow> file_env \<Rightarrow> string \<Rightarrow> int \<Rightarrow> string list \<Rightarrow> 'k \<Rightarrow> (LogFile \<times> 'k) async_sys outcome" where
  "async_start io env basename rollSize raws k =
     andThen (LogFile_new io env basename rollSize False 3 1024 k)
       (threadFunc_init (raws ! 2) (raws ! 3) (AsyncLogging_start (AsyncLogging_new (raws ! 0) (raws ! 1))))"

definition raws_ok :: "string list \<Rightarrow> bool" where
  "raws_ok raws \<longleftrightarrow> length raws = 4 \<and> (\<forall>r \<in> set raws. length r = kLargeBuffer)"

lemma async_start_inv:
  assumes io: "stdio_ok io log is_open" and start: "async_start io env basename rollSize raws k = Inr s"
    and raws: "raws_ok raws" and t: "0 < fe_rollTime env" and k: "log k = []"
  shows "async_inv (\<lambda>s. log (snd s)) (lf_ok is_open) s"
proof -
  obtain out where out: "LogFile_new io env basename rollSize False 3 1024 k = Inr out"
    "threadFunc_init (raws ! 2) (raws ! 3) (AsyncLogging_start (AsyncLogging_new (raws ! 0) (raws ! 1))) out = Inr s"
    using start by (auto simp: async_start_def andThen_eq_Inr)
  have r: "length (raws ! 0) = kLargeBuffer" "length (raws ! 1) = kLargeBuffer" "length (raws ! 2) = kLargeBuffer" "length (raws ! 3) = kLargeBuffer"
    using raws by (auto simp: raws_ok_def)
  from log_file_new [OF io out(1) t] k have "lf_ok is_open out" "log (snd out) = []" by auto
  then show ?thesis using async_inv_init [where sink_ok = "lf_ok is_open" and sink_text = "\<lambda>s. log (snd s)", OF out(2)] r by simp
qed

lemma async_log_inv:
  assumes io: "stdio_ok io log is_open" and "async_start io env basename rollSize raws k = Inr s0" "raws_ok raws" "0 < fe_rollTime env" "log k = []"
    and "(async_step (LogFile_append io) (LogFile_flush io))\<^sup>*\<^sup>* s0 s"
  shows "async_inv (\<lambda>s. log (snd s)) (lf_ok is_open) s"
  by (rule log_sink.async_inv_reachable [OF log_file_is_sink [OF io] assms(6)]) (rule async_start_inv [OF io assms(2-5)])

text \<open>
  C14. Asynchronous logging keeps the lines in order. Whatever the interleaving of the threads that log with the thread that writes,
  no assertion of the writing thread fails and no null or moved buffer is used: every step it or a logging thread comes to
  succeeds. And unless buffers were thrown away because more than 25 were full at once, the lines appended so far that fit a
  buffer, in order, are the text in the log files followed by the text of the buffers being written and of the buffers in front.
  The hypothesis on the streams is that they open and write what they are given.
\<close>

theorem async_log_in_order:
  assumes io: "stdio_ok io log is_open" and start: "async_start io env basename rollSize raws k = Inr s0"
    and pre: "raws_ok raws" "0 < fe_rollTime env" "log k = []"
    and reach: "(async_step (LogFile_append io) (LogFile_flush io))\<^sup>*\<^sup>* s0 s"
  shows "(\<not> as_dropped s \<longrightarrow> concat (as_lines s) = log (snd (as_out s)) @ concat (map ptr_text (as_toWrite s)) @ pending (as_log s))
    \<and> (\<forall>raw x. length raw = kLargeBuffer \<longrightarrow> length x < 2 ^ 31 \<longrightarrow> (\<exists>l. AsyncLogging_append raw x (int (length x)) (as_log s) = Inr l))
    \<and> (as_pc s = At_test \<longrightarrow> (\<exists>s'. threadFunc_test (LogFile_flush io) s = Some (Inr s')))
    \<and> (as_pc s = Writing \<longrightarrow> (\<forall>env gmtime now. \<exists>s'. threadFunc_write (LogFile_append io) (LogFile_flush io) env gmtime now s = Some (Inr s')))"
proof -
  note sink = log_file_is_sink [OF io]
  have inv: "async_inv (\<lambda>s. log (snd s)) (lf_ok is_open) s" by (rule async_log_inv [OF io start pre reach])
  then have "buffers_ok (as_log s)" by (simp add: async_inv_def)
  then have "\<forall>raw x. length raw = kLargeBuffer \<longrightarrow> length x < 2 ^ 31 \<longrightarrow> (\<exists>l. AsyncLogging_append raw x (int (length x)) (as_log s) = Inr l)"
    using AsyncLogging_append_ok by blast
  moreover have "as_pc s = At_test \<longrightarrow> (\<exists>s'. threadFunc_test (LogFile_flush io) s = Some (Inr s'))"
    using log_sink.test_ok [OF sink inv] by blast
  moreover have "as_pc s = Writing \<longrightarrow> (\<forall>env gmtime now. \<exists>s'. threadFunc_write (LogFile_append io) (LogFile_flush io) env gmtime now s = Some (Inr s'))"
    using log_sink.write_ok [OF sink inv] by blast
  ultimately show ?thesis using inv by (simp add: async_inv_def)
qed

text \<open>A logger on streams in memory, at work.\<close>

definition example_env :: file_env where
  "example_env = \<lparr>fe_time = 1, fe_rollTime = 1, fe_gmtime = (\<lambda>t. toUtcTime t True), fe_hostname = ''host'', fe_pid = 7\<rparr>"

definition example_raws :: "string list" where
  "example_raws = replicate 4 (replicate kLargeBuffer (CHR 0x00))"

lemma example_start:
  "\<exists>s. async_start memory_stdio example_env ''app'' 1000 example_raws ([], 0) = Inr s"
  "raws_ok example_raws" "0 < fe_rollTime example_env" "fst ([] :: string, 0 :: nat) = []"
proof -
  have "\<exists>out. LogFile_new memory_stdio example_env ''app'' 1000 False 3 1024 ([], 0) = Inr out"
    by (simp add: LogFile_new_def rollFile_def getLogFileName_def Let_def example_env_def AppendFile_new_def memory_stdio_def assert_that_def)
  then show "\<exists>s. async_start memory_stdio example_env ''app'' 1000 example_raws ([], 0) = Inr s"
    by (auto simp: async_start_def threadFunc_init_def AsyncLogging_start_def assert_that_def)
qed (simp_all add: raws_ok_def example_raws_def example_env_def)

theorem async_log_in_order_witness:
  "\<exists>s0 s. async_start memory_stdio example_env ''app'' 1000 example_raws ([], 0) = Inr s0
     \<and> (async_step (LogFile_append memory_stdio) (LogFile_flush memory_stdio))\<^sup>*\<^sup>* s0 s
     \<and> (as_pc s = At_test \<longrightarrow> (\<exists>s'. threadFunc_test (LogFile_flush memory_stdio) s = Some (Inr s')))"
proof -
  obtain s0 where s0: "async_start memory_stdio example_env ''app'' 1000 example_raws ([], 0) = Inr s0" using example_start(1) by blast
  then show ?thesis using async_log_in_order [OF memory_stdio_ok s0 example_start(2-4) rtranclp.rtrancl_refl] by blast
qed

section \<open>The last lines\<close>

lemma then_opt_eq: "then_opt r f = Some (Inr y) \<longleftrightarrow> (\<exists>x. r = Some (Inr x) \<and> f x = Some (Inr y))"
  by (cases "(r, f)" rule: then_opt.cases) auto

lemma write_keeps:
  assumes "threadFunc_write app flush env gmtime now s = Some (Inr s')"
  shows "as_pc s' = At_test \<and> as_log s' = as_log s \<and> as_lines s' = as_lines s \<and> as_toWrite s' = []
    \<and> (as_dropped s' \<longleftrightarrow> as_dropped s \<or> 25 < length (as_toWrite s))"
  using assms by (auto simp: threadFunc_write_def Let_def then_opt_eq split: if_splits)

lemma ended_step:
  assumes "async_step app flush s s'" and "as_pc s = Ended"
  shows "as_pc s' = Ended \<and> as_out s' = as_out s"
  using assms by (cases rule: async_step.cases) auto

lemma ended_stays:
  assumes "(async_step app flush)\<^sup>*\<^sup>* s s'" and "as_pc s = Ended"
  shows "as_pc s' = Ended \<and> as_out s' = as_out s"
  using assms by (induction rule: rtranclp_induct) (use ended_step in metis)+

text \<open>A first round of the writing thread up to the writing, with nothing logged.\<close>

lemma idle_round:
  assumes start: "async_start io env basename rollSize raws k = Inr s0" and sink: "log_sink (LogFile_append io) (LogFile_flush io) st ok" 
    and inv: "async_inv st ok s0"
  shows "\<exists>s. (async_step (LogFile_append io) (LogFile_flush io))\<^sup>*\<^sup>* s0 s \<and> as_pc s = Writing \<and> as_lines s = [] \<and> \<not> as_dropped s
    \<and> length (as_toWrite s) = 1 \<and> al_running (as_log s)"
proof -
  let ?step = "async_step (LogFile_append io) (LogFile_flush io)"
  have s0: "as_pc s0 = At_test" "al_running (as_log s0)" "al_buffers (as_log s0) = []" "as_lines s0 = []" "\<not> as_dropped s0" 
    using start by (auto simp: async_start_def andThen_eq_Inr threadFunc_init_def assert_that_def AsyncLogging_start_def AsyncLogging_new_def split: if_splits)
  obtain s' where s': "threadFunc_test (LogFile_flush io) s0 = Some (Inr s')" using log_sink.test_ok [OF sink inv s0(1)] by blast
  then have t: "s' = s0\<lparr>as_pc := At_lock\<rparr>" using s0(2) by (auto simp: threadFunc_test_def assert_that_def split: if_splits)
  define w where "w = s0\<lparr>as_pc := Waiting\<rparr>"
  have "?step s0 s'" using async_step.Test [OF s0(1) s'] .
  moreover have "?step s' w" using async_step.Sleep [of s'] t s0(3) by (simp add: w_def)
  moreover have "?step w (threadFunc_swap w)" by (rule async_step.Wake) (simp add: w_def)
  ultimately have "?step\<^sup>*\<^sup>* s0 (threadFunc_swap w)" by (meson rtranclp.rtrancl_into_rtrancl rtranclp.rtrancl_refl)
  moreover have "as_pc (threadFunc_swap w) = Writing \<and> as_lines (threadFunc_swap w) = [] \<and> \<not> as_dropped (threadFunc_swap w)
    \<and> length (as_toWrite (threadFunc_swap w)) = 1 \<and> al_running (as_log (threadFunc_swap w))"
    using s0 by (simp add: threadFunc_swap_def w_def Let_def)
  ultimately show ?thesis by blast
qed

text \<open>
  C39. Lines logged before \<^verbatim>\<open>stop()\<close> can be lost: the writing thread tests \<^verbatim>\<open>running_\<close> before it looks at the buffers. There is a run
  in which a line is appended while the logger runs, the logger is then stopped, the writing thread ends its loop, and the log
  files hold nothing, then and at any later time.
\<close>

theorem async_log_loses_tail:
  assumes io: "stdio_ok io log is_open" and start: "async_start io env basename rollSize raws k = Inr s0"
    and pre: "raws_ok raws" "0 < fe_rollTime env" "log k = []" and x: "length x < kLargeBuffer"
  shows "\<exists>s' s. (async_step (LogFile_append io) (LogFile_flush io))\<^sup>*\<^sup>* s0 s' \<and> al_running (as_log s') \<and> as_lines s' = [x]
    \<and> (async_step (LogFile_append io) (LogFile_flush io))\<^sup>*\<^sup>* s' s \<and> as_pc s = Ended \<and> as_lines s = [x]
    \<and> (\<forall>t. (async_step (LogFile_append io) (LogFile_flush io))\<^sup>*\<^sup>* s t \<longrightarrow> log (snd (as_out t)) = [])"
proof -
  let ?step = "async_step (LogFile_append io) (LogFile_flush io)"
  note sink = log_file_is_sink [OF io]
  have inv: "async_inv (\<lambda>s. log (snd s)) (lf_ok is_open) s" if "?step\<^sup>*\<^sup>* s0 s" for s by (rule async_log_inv [OF io start pre that])
  have reach: "?step\<^sup>*\<^sup>* s0 s'" if "?step\<^sup>*\<^sup>* s0 s" "?step s s'" for s s' using that by (rule rtranclp.rtrancl_into_rtrancl)
  obtain s1 where s1: "?step\<^sup>*\<^sup>* s0 s1" "as_pc s1 = Writing" "as_lines s1 = []" "\<not> as_dropped s1" "length (as_toWrite s1) = 1" "al_running (as_log s1)"
    using idle_round [OF start sink inv [OF rtranclp.rtrancl_refl]] by blast
  have p1: "pending (as_log s1) = []" "buffers_ok (as_log s1)" using inv [OF s1(1)] s1 by (auto simp: async_inv_def)
  have r: "length (raws ! 0) = kLargeBuffer" using pre(1) by (auto simp: raws_ok_def)
  have x': "length x < 2 ^ 31" using x by (simp add: kLargeBuffer_def)
  obtain l where l: "AsyncLogging_append (raws ! 0) x (int (length x)) (as_log s1) = Inr l" "pending l = x" "al_running l"
    using AsyncLogging_append_ok [OF p1(2) r x'] x p1(1) s1(6) by auto
  define s2 where "s2 = s1\<lparr>as_log := l, as_lines := [x]\<rparr>"
  define s3 where "s3 = s2\<lparr>as_log := AsyncLogging_stop l\<rparr>"
  have r2: "?step\<^sup>*\<^sup>* s0 s2" using reach [OF s1(1) async_step.Line [OF r x' l(1)]] x s1(3) by (simp add: s2_def)
  have st3: "?step s2 s3" using async_step.Stop [of _ _ s2] by (simp add: s3_def s2_def)
  have r3: "?step\<^sup>*\<^sup>* s0 s3" by (rule reach [OF r2 st3])
  have pc3: "as_pc s3 = Writing" by (simp add: s3_def s2_def s1(2))
  obtain s4 where w: "threadFunc_write (LogFile_append io) (LogFile_flush io) env undefined undefined s3 = Some (Inr s4)"
    using log_sink.write_ok [OF sink inv [OF r3] pc3] by blast
  have s4: "as_pc s4 = At_test" "as_log s4 = AsyncLogging_stop l" "as_lines s4 = [x]" "as_toWrite s4 = []" "\<not> as_dropped s4"
    using write_keeps [OF w] s1(4,5) by (simp_all add: s3_def s2_def)
  have st4: "?step s3 s4" by (rule async_step.Write [OF pc3 w])
  have r4: "?step\<^sup>*\<^sup>* s0 s4" by (rule reach [OF r3 st4])
  obtain s5 where t: "threadFunc_test (LogFile_flush io) s4 = Some (Inr s5)" using log_sink.test_ok [OF sink inv [OF r4] s4(1)] by blast
  have s5: "as_pc s5 = Ended" "as_log s5 = AsyncLogging_stop l" "as_lines s5 = [x]" "as_toWrite s5 = []" "\<not> as_dropped s5"
    using t s4 by (auto simp: threadFunc_test_def AsyncLogging_stop_def then_opt_eq)
  have st5: "?step s4 s5" by (rule async_step.Test [OF s4(1) t])
  have r5: "?step\<^sup>*\<^sup>* s0 s5" by (rule reach [OF r4 st5])
  have r25: "?step\<^sup>*\<^sup>* s2 s5" using st3 st4 st5 by (meson rtranclp.rtrancl_into_rtrancl rtranclp.rtrancl_refl)
  have "al_running (as_log s2)" "as_lines s2 = [x]" using l(3) by (simp_all add: s2_def)
  moreover have "log (snd (as_out s5)) = []"
    using inv [OF r5] s5 l(2) by (simp add: async_inv_def pending_def AsyncLogging_stop_def)
  ultimately show ?thesis using r2 r25 s5(1,3) ended_stays [OF _ s5(1)] by metis
qed

theorem async_log_loses_tail_witness:
  "\<exists>s0 s. async_start memory_stdio example_env ''app'' 1000 example_raws ([], 0) = Inr s0
     \<and> (async_step (LogFile_append memory_stdio) (LogFile_flush memory_stdio))\<^sup>*\<^sup>* s0 s \<and> as_lines s = [''lost'']
     \<and> as_pc s = Ended \<and> fst (snd (as_out s)) = []"
proof -
  obtain s0 where s0: "async_start memory_stdio example_env ''app'' 1000 example_raws ([], 0) = Inr s0" using example_start(1) by blast
  have "length ''lost'' < kLargeBuffer" by (simp add: kLargeBuffer_def)
  from async_log_loses_tail [OF memory_stdio_ok s0 example_start(2-4) this] obtain s' s
    where "(async_step (LogFile_append memory_stdio) (LogFile_flush memory_stdio))\<^sup>*\<^sup>* s0 s'"
      "(async_step (LogFile_append memory_stdio) (LogFile_flush memory_stdio))\<^sup>*\<^sup>* s' s" "as_pc s = Ended" "as_lines s = [''lost'']"
      "fst (snd (as_out s)) = []" by blast
  with s0 show ?thesis by (meson rtranclp_trans)
qed

end
