(* ===== verification/Muduo_Sockets.thy ===== *)
theory Muduo_Sockets
  imports Muduo_Endian
begin

text \<open>
  Sockets and addresses: \<^verbatim>\<open>net/SocketsOps.cc\<close>, \<^verbatim>\<open>net/Socket.cc\<close> and \<^verbatim>\<open>net/InetAddress.cc\<close>. The system
  calls are arguments, functions on a kernel state \<open>'k\<close>; what is modelled is what the library does
  with their results: which errors are fatal, which are passed on, and how addresses are stored and
  printed. A failing call returns a negative number and leaves its error in \<^verbatim>\<open>errno\<close>; the model
  returns the error in \<open>Inl\<close>. \<^verbatim>\<open>LOG_SYSERR\<close> lines have no effect and are left out.
\<close>

section \<open>Error numbers\<close>

text \<open>The Linux values of the error numbers the library tells apart.\<close>

type_synonym errno = int

definition EPERM :: errno where "EPERM = 1"
definition EINTR :: errno where "EINTR = 4"
definition EBADF :: errno where "EBADF = 9"
definition EAGAIN :: errno where "EAGAIN = 11"
definition EWOULDBLOCK :: errno where "EWOULDBLOCK = 11"
definition EACCES :: errno where "EACCES = 13"
definition EFAULT :: errno where "EFAULT = 14"
definition EMFILE :: errno where "EMFILE = 24"
definition EPIPE :: errno where "EPIPE = 32"
definition EPROTO :: errno where "EPROTO = 71"
definition ENOTSOCK :: errno where "ENOTSOCK = 88"
definition EAFNOSUPPORT :: errno where "EAFNOSUPPORT = 97"
definition EADDRINUSE :: errno where "EADDRINUSE = 98"
definition EADDRNOTAVAIL :: errno where "EADDRNOTAVAIL = 99"
definition ENETUNREACH :: errno where "ENETUNREACH = 101"
definition ECONNABORTED :: errno where "ECONNABORTED = 103"
definition ECONNRESET :: errno where "ECONNRESET = 104"
definition EISCONN :: errno where "EISCONN = 106"
definition ECONNREFUSED :: errno where "ECONNREFUSED = 111"
definition EALREADY :: errno where "EALREADY = 114"
definition EINPROGRESS :: errno where "EINPROGRESS = 115"

lemmas errno_defs = EPERM_def EINTR_def EBADF_def EAGAIN_def EWOULDBLOCK_def EACCES_def EFAULT_def EMFILE_def
  EPIPE_def EPROTO_def ENOTSOCK_def EAFNOSUPPORT_def EADDRINUSE_def EADDRNOTAVAIL_def ENETUNREACH_def
  ECONNABORTED_def ECONNRESET_def EISCONN_def ECONNREFUSED_def EALREADY_def EINPROGRESS_def

section \<open>Socket addresses\<close>

text \<open>
  An \<^verbatim>\<open>InetAddress\<close> is a union of \<^verbatim>\<open>sockaddr_in\<close> and \<^verbatim>\<open>sockaddr_in6\<close>, so it is modelled by its
  memory: the family and the port at offsets 0 and 2, the word at offset 4, which is \<^verbatim>\<open>sin_addr\<close> of
  the one and \<^verbatim>\<open>sin6_flowinfo\<close> of the other, and the two fields only \<^verbatim>\<open>sockaddr_in6\<close> has. The port and
  the addresses are in network byte order.
\<close>

record InetAddress =
  sa_family :: nat
  sa_port :: "16 word"
  sa_word4 :: "32 word"
  sin6_addr :: "128 word"
  sin6_scope_id :: "32 word"

definition AF_INET :: nat where "AF_INET = 2"
definition AF_INET6 :: nat where "AF_INET6 = 10"

definition memZero :: InetAddress where
  "memZero = \<lparr>sa_family = 0, sa_port = 0, sa_word4 = 0, sin6_addr = 0, sin6_scope_id = 0\<rparr>"

definition kInaddrAny :: "32 word" where "kInaddrAny = 0"
definition kInaddrLoopback :: "32 word" where "kInaddrLoopback = 0x7F000001"

text \<open>\<^verbatim>\<open>in6addr_loopback\<close> is the byte string of fifteen zeros and a one.\<close>

definition in6addr_any :: "128 word" where "in6addr_any = 0"

definition in6addr_loopback :: "endian \<Rightarrow> 128 word" where
  "in6addr_loopback e = load e (replicate 15 (CHR 0x00) @ [CHR 0x01])"

definition InetAddress_port :: "endian \<Rightarrow> 16 word \<Rightarrow> bool \<Rightarrow> bool \<Rightarrow> InetAddress" where
  "InetAddress_port e portArg loopbackOnly ipv6 =
     (if ipv6 then
        memZero\<lparr>sa_family := AF_INET6, sin6_addr := (if loopbackOnly then in6addr_loopback e else in6addr_any),
          sa_port := hostToNetwork16 e portArg\<rparr>
      else
        memZero\<lparr>sa_family := AF_INET,
          sa_word4 := hostToNetwork32 e (if loopbackOnly then kInaddrLoopback else kInaddrAny),
          sa_port := hostToNetwork16 e portArg\<rparr>)"

text \<open>
  \<^verbatim>\<open>inet_pton\<close> is an argument: it yields the address a text denotes, or fails, and then the address
  is left as it was.
\<close>

definition fromIpPort4 :: "endian \<Rightarrow> (string \<Rightarrow> 32 word option) \<Rightarrow> string \<Rightarrow> 16 word \<Rightarrow> InetAddress \<Rightarrow> InetAddress" where
  "fromIpPort4 e pton ip port a =
     (let a1 = a\<lparr>sa_family := AF_INET, sa_port := hostToNetwork16 e port\<rparr>
      in case pton ip of None \<Rightarrow> a1 | Some x \<Rightarrow> a1\<lparr>sa_word4 := x\<rparr>)"

definition fromIpPort6 :: "endian \<Rightarrow> (string \<Rightarrow> 128 word option) \<Rightarrow> string \<Rightarrow> 16 word \<Rightarrow> InetAddress \<Rightarrow> InetAddress" where
  "fromIpPort6 e pton ip port a =
     (let a1 = a\<lparr>sa_family := AF_INET6, sa_port := hostToNetwork16 e port\<rparr>
      in case pton ip of None \<Rightarrow> a1 | Some x \<Rightarrow> a1\<lparr>sin6_addr := x\<rparr>)"

definition InetAddress_ip ::
  "endian \<Rightarrow> (string \<Rightarrow> 32 word option) \<Rightarrow> (string \<Rightarrow> 128 word option) \<Rightarrow> string \<Rightarrow> 16 word \<Rightarrow> bool \<Rightarrow> InetAddress" where
  "InetAddress_ip e pton4 pton6 ip portArg ipv6 =
     (if ipv6 \<or> CHR '':'' \<in> set ip then fromIpPort6 e pton6 ip portArg memZero
      else fromIpPort4 e pton4 ip portArg memZero)"

definition port :: "endian \<Rightarrow> InetAddress \<Rightarrow> 16 word" where
  "port e a = networkToHost16 e (sa_port a)"

definition ipv4NetEndian :: "InetAddress \<Rightarrow> 32 word outcome" where
  "ipv4NetEndian a = assert_that (sa_family a = AF_INET) ''family() == AF_INET'' (Inr (sa_word4 a))"

definition setScopeId :: "32 word \<Rightarrow> InetAddress \<Rightarrow> InetAddress" where
  "setScopeId scope_id a = (if sa_family a = AF_INET6 then a\<lparr>sin6_scope_id := scope_id\<rparr> else a)"

text \<open>
  \<open>gethostbyname\<close> yields the address type, its length and the address of the host entry, if there is
  one. The address is stored at offset 4 whatever the family of the object is.
\<close>

definition resolve ::
  "(string \<Rightarrow> (nat \<times> nat \<times> 32 word) option) \<Rightarrow> string \<Rightarrow> InetAddress \<Rightarrow> (bool \<times> InetAddress) outcome" where
  "resolve gethostbyname hostname out = (case gethostbyname hostname of
       Some (h_addrtype, h_length, h_addr) \<Rightarrow>
         assert_that (h_addrtype = AF_INET \<and> h_length = 4)
           ''he->h_addrtype == AF_INET && he->h_length == sizeof(uint32_t)'' (Inr (True, out\<lparr>sa_word4 := h_addr\<rparr>))
     | None \<Rightarrow> Inr (False, out))"

section \<open>Printing addresses\<close>

text \<open>
  \<^verbatim>\<open>inet_ntop\<close> prints the four bytes of an IPv4 address in memory order; for IPv6 it is an argument.
  It writes nothing when the text and its terminator do not fit. \<^verbatim>\<open>snprintf\<close> truncates instead.
\<close>

definition dotted :: "endian \<Rightarrow> 32 word \<Rightarrow> string" where
  "dotted e x = (case map (\<lambda>c. dec_nat (of_char c)) (store e x) of
     [a, b, c, d] \<Rightarrow> a @ ''.'' @ b @ ''.'' @ c @ ''.'' @ d | _ \<Rightarrow> [])"

definition INET_ADDRSTRLEN :: nat where "INET_ADDRSTRLEN = 16"
definition INET6_ADDRSTRLEN :: nat where "INET6_ADDRSTRLEN = 46"

definition inet_ntop :: "nat \<Rightarrow> string \<Rightarrow> string" where
  "inet_ntop sz text = (if length text < sz then text else [])"

text \<open>The buffer is empty before: both callers clear it, and the first of them wrote one byte.\<close>

definition toIp :: "endian \<Rightarrow> (128 word \<Rightarrow> string) \<Rightarrow> nat \<Rightarrow> InetAddress \<Rightarrow> string outcome" where
  "toIp e ntop6 sz a =
     (if sa_family a = AF_INET then
        assert_that (sz \<ge> INET_ADDRSTRLEN) ''size >= INET_ADDRSTRLEN'' (Inr (inet_ntop sz (dotted e (sa_word4 a))))
      else if sa_family a = AF_INET6 then
        assert_that (sz \<ge> INET6_ADDRSTRLEN) ''size >= INET6_ADDRSTRLEN'' (Inr (inet_ntop sz (ntop6 (sin6_addr a))))
      else Inr [])"

definition toIpPort :: "endian \<Rightarrow> (128 word \<Rightarrow> string) \<Rightarrow> nat \<Rightarrow> InetAddress \<Rightarrow> string outcome" where
  "toIpPort e ntop6 sz a =
     (let number = dec_nat (unat (port e a)) in
      if sa_family a = AF_INET6 then
        andThen (toIp e ntop6 (sz - 1) a) (\<lambda>ip. let buf = CHR ''['' # ip; end = length buf
          in assert_that (sz > end) ''size > end'' (Inr (buf @ snprintf (sz - end) ('']:'' @ number))))
      else
        andThen (toIp e ntop6 sz a) (\<lambda>ip. let end = length ip
          in assert_that (sz > end) ''size > end'' (Inr (ip @ snprintf (sz - end) ('':'' @ number)))))"

definition InetAddress_toIp :: "endian \<Rightarrow> (128 word \<Rightarrow> string) \<Rightarrow> InetAddress \<Rightarrow> string outcome" where
  "InetAddress_toIp e ntop6 a = toIp e ntop6 64 a"

definition InetAddress_toIpPort :: "endian \<Rightarrow> (128 word \<Rightarrow> string) \<Rightarrow> InetAddress \<Rightarrow> string outcome" where
  "InetAddress_toIpPort e ntop6 a = toIpPort e ntop6 64 a"

section \<open>System calls\<close>

definition createNonblockingOrDie :: "(nat \<Rightarrow> 'k \<Rightarrow> (errno + int) \<times> 'k) \<Rightarrow> nat \<Rightarrow> 'k \<Rightarrow> (int \<times> 'k) outcome" where
  "createNonblockingOrDie socket family k = (case socket family k of
       (Inr sockfd, k') \<Rightarrow> Inr (sockfd, k')
     | (Inl e, k') \<Rightarrow> Inl (Log_fatal ''sockets::createNonblockingOrDie''))"

definition bindOrDie :: "(int \<Rightarrow> InetAddress \<Rightarrow> 'k \<Rightarrow> bool \<times> 'k) \<Rightarrow> int \<Rightarrow> InetAddress \<Rightarrow> 'k \<Rightarrow> 'k outcome" where
  "bindOrDie bind sockfd a k = (case bind sockfd a k of (ok, k') \<Rightarrow>
     if ok then Inr k' else Inl (Log_fatal ''sockets::bindOrDie''))"

definition listenOrDie :: "(int \<Rightarrow> 'k \<Rightarrow> bool \<times> 'k) \<Rightarrow> int \<Rightarrow> 'k \<Rightarrow> 'k outcome" where
  "listenOrDie listen sockfd k = (case listen sockfd k of (ok, k') \<Rightarrow>
     if ok then Inr k' else Inl (Log_fatal ''sockets::listenOrDie''))"

definition accept_expected :: "errno \<Rightarrow> bool" where
  "accept_expected e \<longleftrightarrow> e \<in> {EAGAIN, ECONNABORTED, EINTR, EPROTO, EPERM, EMFILE}"

text \<open>The descriptor of the connection and the peer's address, or the error when it is an expected one.\<close>

definition sockets_accept ::
  "(int \<Rightarrow> 'k \<Rightarrow> (errno + int \<times> InetAddress) \<times> 'k) \<Rightarrow> int \<Rightarrow> 'k \<Rightarrow> ((errno + int \<times> InetAddress) \<times> 'k) outcome" where
  "sockets_accept accept4 sockfd k = (case accept4 sockfd k of
       (Inr c, k') \<Rightarrow> Inr (Inr c, k')
     | (Inl e, k') \<Rightarrow> if accept_expected e then Inr (Inl e, k')
                      else Inl (Log_fatal ''unexpected error of ::accept''))"

definition getSocketError :: "(int \<Rightarrow> errno + int) \<Rightarrow> int \<Rightarrow> int" where
  "getSocketError getsockopt sockfd = (case getsockopt sockfd of Inl e \<Rightarrow> e | Inr optval \<Rightarrow> optval)"

definition getLocalAddr :: "(int \<Rightarrow> InetAddress option) \<Rightarrow> int \<Rightarrow> InetAddress" where
  "getLocalAddr getsockname sockfd = (case getsockname sockfd of None \<Rightarrow> memZero | Some a \<Rightarrow> a)"

definition getPeerAddr :: "(int \<Rightarrow> InetAddress option) \<Rightarrow> int \<Rightarrow> InetAddress" where
  "getPeerAddr getpeername sockfd = (case getpeername sockfd of None \<Rightarrow> memZero | Some a \<Rightarrow> a)"

definition isSelfConnect :: "(int \<Rightarrow> InetAddress option) \<Rightarrow> (int \<Rightarrow> InetAddress option) \<Rightarrow> int \<Rightarrow> bool" where
  "isSelfConnect getsockname getpeername sockfd =
     (let localaddr = getLocalAddr getsockname sockfd; peeraddr = getPeerAddr getpeername sockfd in
      if sa_family localaddr = AF_INET then
        sa_port localaddr = sa_port peeraddr \<and> sa_word4 localaddr = sa_word4 peeraddr
      else if sa_family localaddr = AF_INET6 then
        sa_port localaddr = sa_port peeraddr \<and> sin6_addr localaddr = sin6_addr peeraddr
      else False)"

section \<open>Socket\<close>

text \<open>Socket options are set through one argument, \<open>setsockopt\<close>; only \<^verbatim>\<open>setReusePort\<close> looks at its result.\<close>

datatype sock_option = TCP_NODELAY | SO_REUSEADDR | SO_REUSEPORT | SO_KEEPALIVE

type_synonym 'k setsockopt = "int \<Rightarrow> sock_option \<Rightarrow> int \<Rightarrow> 'k \<Rightarrow> int \<times> 'k"

definition setTcpNoDelay :: "'k setsockopt \<Rightarrow> int \<Rightarrow> bool \<Rightarrow> 'k \<Rightarrow> 'k" where
  "setTcpNoDelay setsockopt sockfd on k = snd (setsockopt sockfd TCP_NODELAY (if on then 1 else 0) k)"

definition setReuseAddr :: "'k setsockopt \<Rightarrow> int \<Rightarrow> bool \<Rightarrow> 'k \<Rightarrow> 'k" where
  "setReuseAddr setsockopt sockfd on k = snd (setsockopt sockfd SO_REUSEADDR (if on then 1 else 0) k)"

definition setReusePort :: "'k setsockopt \<Rightarrow> int \<Rightarrow> bool \<Rightarrow> 'k \<Rightarrow> 'k" where
  "setReusePort setsockopt sockfd on k = snd (setsockopt sockfd SO_REUSEPORT (if on then 1 else 0) k)"

definition setKeepAlive :: "'k setsockopt \<Rightarrow> int \<Rightarrow> bool \<Rightarrow> 'k \<Rightarrow> 'k" where
  "setKeepAlive setsockopt sockfd on k = snd (setsockopt sockfd SO_KEEPALIVE (if on then 1 else 0) k)"

definition Socket_accept ::
  "(int \<Rightarrow> 'k \<Rightarrow> (errno + int \<times> InetAddress) \<times> 'k) \<Rightarrow> int \<Rightarrow> InetAddress \<Rightarrow> 'k \<Rightarrow> ((errno + int) \<times> InetAddress \<times> 'k) outcome" where
  "Socket_accept accept4 sockfd peeraddr k = andThen (sockets_accept accept4 sockfd k) (\<lambda>r. case r of
       (Inr (connfd, a), k') \<Rightarrow> Inr (Inr connfd, a, k')
     | (Inl e, k') \<Rightarrow> Inr (Inl e, peeraddr, k'))"

record tcp_info =
  tcpi_retransmits :: nat
  tcpi_rto :: nat
  tcpi_ato :: nat
  tcpi_snd_mss :: nat
  tcpi_rcv_mss :: nat
  tcpi_lost :: nat
  tcpi_retrans :: nat
  tcpi_rtt :: nat
  tcpi_rttvar :: nat
  tcpi_snd_ssthresh :: nat
  tcpi_snd_cwnd :: nat
  tcpi_total_retrans :: nat

definition getTcpInfoString :: "tcp_info option \<Rightarrow> nat \<Rightarrow> string \<Rightarrow> bool \<times> string" where
  "getTcpInfoString info len buf = (case info of
       None \<Rightarrow> (False, buf)
     | Some t \<Rightarrow> (True, snprintf len (
         ''unrecovered='' @ dec_nat (tcpi_retransmits t) @ '' rto='' @ dec_nat (tcpi_rto t)
         @ '' ato='' @ dec_nat (tcpi_ato t) @ '' snd_mss='' @ dec_nat (tcpi_snd_mss t)
         @ '' rcv_mss='' @ dec_nat (tcpi_rcv_mss t) @ '' lost='' @ dec_nat (tcpi_lost t)
         @ '' retrans='' @ dec_nat (tcpi_retrans t) @ '' rtt='' @ dec_nat (tcpi_rtt t)
         @ '' rttvar='' @ dec_nat (tcpi_rttvar t) @ '' sshthresh='' @ dec_nat (tcpi_snd_ssthresh t)
         @ '' cwnd='' @ dec_nat (tcpi_snd_cwnd t) @ '' total_retrans='' @ dec_nat (tcpi_total_retrans t))))"

section \<open>Lengths of printed addresses\<close>

lemma length_dec_byte: "length (dec_nat (of_char c)) \<le> 3"
  using length_dec_nat [of "of_char c" 3] nat_of_char_less_256 [of c] by simp

lemma dotted_bytes:
  obtains a b c d where "store e (x :: 32 word) = [a, b, c, d]"
    and "dotted e x = dec_nat (of_char a) @ ''.'' @ dec_nat (of_char b) @ ''.'' @ dec_nat (of_char c) @ ''.'' @ dec_nat (of_char d)"
proof -
  have "length (store e x) = Suc (Suc (Suc (Suc 0)))" by simp
  then obtain a b c d where s: "store e x = [a, b, c, d]" unfolding length_Suc_conv by blast
  show ?thesis by (rule that [OF s]) (simp add: dotted_def s)
qed

lemma length_dotted: "length (dotted e x) \<le> 15"
proof -
  obtain a b c d where
    "dotted e x = dec_nat (of_char a) @ ''.'' @ dec_nat (of_char b) @ ''.'' @ dec_nat (of_char c) @ ''.'' @ dec_nat (of_char d)"
    by (rule dotted_bytes)
  with length_dec_byte [of a] length_dec_byte [of b] length_dec_byte [of c] length_dec_byte [of d] show ?thesis by simp
qed

lemma length_port: "length (dec_nat (unat (p :: 16 word))) \<le> 5"
  using unsigned_less [of p, where 'a = nat] by (intro length_dec_nat) simp_all

lemma load_store: "8 dvd LENGTH('a) \<Longrightarrow> load e (store e x) = (x :: 'a::len word)"
  using unat_less_256_pow [of x] by (simp add: load_def store_def nat_of_le_bytes_le split: endian.split)

lemma port_hostToNetwork16: "networkToHost16 e (hostToNetwork16 e p) = p"
  using betoh_load_store_htobe [of e e p] by (simp add: network_defs load_store)

lemma digits_dec_nat: "c \<in> set (dec_nat n) \<Longrightarrow> 48 \<le> (of_char c :: nat) \<and> (of_char c :: nat) \<le> 57"
proof (induction n rule: dec_nat.induct)
  case (1 n)
  from 1(2) show ?case
    by (subst (asm) dec_nat.simps) (use 1(1) in \<open>auto simp: digit_char_def split: if_splits\<close>)
qed

lemma not_in_dec_nat: "CHR '':'' \<notin> set (dec_nat n)" "CHR ''.'' \<notin> set (dec_nat n)"
  using digits_dec_nat [of "CHR '':''" n] digits_dec_nat [of "CHR ''.''" n] by auto

lemma colon_not_in_dotted: "CHR '':'' \<notin> set (dotted e x)"
  by (rule dotted_bytes [of e x]) (simp only: set_append, simp add: not_in_dec_nat)

definition address_text :: "endian \<Rightarrow> (128 word \<Rightarrow> string) \<Rightarrow> InetAddress \<Rightarrow> string" where
  "address_text e ntop6 a =
     (if sa_family a = AF_INET then dotted e (sa_word4 a) @ '':''
      else if sa_family a = AF_INET6 then ''['' @ ntop6 (sin6_addr a) @ '']:'' else '':'') @ dec_nat (unat (port e a))"

lemma toIpPort_text:
  assumes "\<And>a. length (ntop6 a) < INET6_ADDRSTRLEN"
  shows "InetAddress_toIpPort e ntop6 a = Inr (address_text e ntop6 a) \<and> length (address_text e ntop6 a) < 64"
  using assms [of "sin6_addr a"] length_dotted [of e "sa_word4 a"] length_port [of "port e a"]
  by (auto simp: InetAddress_toIpPort_def toIpPort_def toIp_def address_text_def inet_ntop_def snprintf_def
      INET_ADDRSTRLEN_def INET6_ADDRSTRLEN_def AF_INET_def AF_INET6_def Let_def)

text \<open>\<^verbatim>\<open>toIpPort\<close> fits in the 64 bytes the callers give it: its assertions hold for every address, and
  nothing is truncated. An IPv4 address prints as dotted decimal with the port after a colon, an
  IPv6 address in brackets. An address built from such a text and a port prints as them again.\<close>

theorem address_text_fits:
  assumes "\<And>a. length (ntop6 a) < INET6_ADDRSTRLEN"
    and "\<And>x. pton4 (dotted e x) = Some x"
  shows "InetAddress_toIpPort e ntop6 a = Inr (address_text e ntop6 a) \<and> length (address_text e ntop6 a) < 64
    \<and> InetAddress_toIpPort e ntop6 (InetAddress_ip e pton4 pton6 (dotted e x) p False)
        = Inr (dotted e x @ '':'' @ dec_nat (unat p))"
proof -
  have ip: "InetAddress_ip e pton4 pton6 (dotted e x) p False
      = memZero\<lparr>sa_family := AF_INET, sa_port := hostToNetwork16 e p, sa_word4 := x\<rparr>"
    by (simp add: InetAddress_ip_def colon_not_in_dotted fromIpPort4_def assms(2) memZero_def)
  show ?thesis
    using toIpPort_text [of ntop6 e a, OF assms(1)] toIpPort_text [of ntop6 e "InetAddress_ip e pton4 pton6 (dotted e x) p False", OF assms(1)]
    by (simp add: ip address_text_def port_def port_hostToNetwork16)
qed

text \<open>Address 127.0.0.1, port 80, with an \<^verbatim>\<open>inet_pton\<close> that inverts \<open>dotted\<close>.\<close>

fun split_dots :: "string \<Rightarrow> string list" where
  "split_dots [] = [[]]"
| "split_dots (c # s) = (if c = CHR ''.'' then [] # split_dots s
     else (case split_dots s of [] \<Rightarrow> [[c]] | w # ws \<Rightarrow> (c # w) # ws))"

definition pton_dotted :: "endian \<Rightarrow> string \<Rightarrow> 32 word option" where
  "pton_dotted e s = (if length (split_dots s) = 4 then Some (load e (map (char_of \<circ> undec) (split_dots s))) else None)"

lemma split_dots_simple: "CHR ''.'' \<notin> set s \<Longrightarrow> split_dots s = [s]"
  by (induction s) auto

lemma split_dots_append: "CHR ''.'' \<notin> set s \<Longrightarrow> split_dots (s @ CHR ''.'' # t) = s # split_dots t"
  by (induction s) auto

lemma pton_dotted: "pton_dotted e (dotted e x) = Some x"
proof -
  obtain a b c d where *: "store e x = [a, b, c, d]"
    "dotted e x = dec_nat (of_char a) @ ''.'' @ dec_nat (of_char b) @ ''.'' @ dec_nat (of_char c) @ ''.'' @ dec_nat (of_char d)"
    by (rule dotted_bytes)
  have "split_dots (dotted e x) = map (dec_nat \<circ> of_char) (store e x)"
    by (simp add: * split_dots_append split_dots_simple not_in_dec_nat)
  moreover have "map (char_of \<circ> undec) (map (dec_nat \<circ> of_char) cs) = cs" for cs
    by (induction cs) (simp_all add: undec_dec_nat)
  ultimately show ?thesis by (simp add: pton_dotted_def load_store)
qed

lemma dotted_loopback: "dotted Little 0x0100007F = ''127.0.0.1''"
  by (simp add: dotted_def store_def dec_nat.simps digit_chars)

lemma dec_80: "dec_nat 80 = ''80''"
  by (simp add: dec_nat.simps digit_chars)

theorem address_text_fits_witness:
  "InetAddress_toIpPort Little (\<lambda>a. ''::'') (InetAddress_ip Little (pton_dotted Little) (\<lambda>s. None) ''127.0.0.1'' 80 False)
     = Inr ''127.0.0.1:80''"
  using address_text_fits [of "\<lambda>a. ''::''" "pton_dotted Little" Little memZero "\<lambda>s. None" "0x0100007F" 80]
  by (simp add: pton_dotted INET6_ADDRSTRLEN_def dotted_loopback dec_80)

end
