(* ===== verification/Muduo_TcpConnection.thy ===== *)
theory Muduo_TcpConnection
  imports Muduo_EPoller Muduo_Buffer Muduo_Sockets Muduo_Timestamp
begin

text \<open>
  TCP connections (\<^verbatim>\<open>net/TcpConnection.h\<close>, \<^verbatim>\<open>net/TcpConnection.cc\<close>). A connection is its record, with
  its two buffers and its channel in the heap of channels; the state \<open>conn_sys\<close> around it has the
  poller it registers with, the functors it queued in its loop, and what the kernel has been handed.
  Members that may be called from any thread take a flag \<open>inLoop\<close>, whether the caller runs in the
  loop's thread. The kernel's \<^verbatim>\<open>write\<close> and \<^verbatim>\<open>readv\<close>, the loop's \<^verbatim>\<open>updateChannel\<close> and \<^verbatim>\<open>removeChannel\<close>, and
  the user's callbacks are arguments. Log lines and socket options are left out.
\<close>

section \<open>State\<close>

datatype StateE = kDisconnected | kConnecting | kConnected | kDisconnecting

record TcpConnection =
  tc_loop :: addr
  tc_name :: string
  tc_state :: StateE
  tc_reading :: bool
  tc_socket :: int
  tc_channel :: addr
  tc_localAddr :: InetAddress
  tc_peerAddr :: InetAddress
  tc_writeCompleteCallback :: bool
  tc_highWaterMarkCallback :: bool
  tc_highWaterMark :: nat
  tc_inputBuffer :: Buffer
  tc_outputBuffer :: Buffer

text \<open>The functors a connection queues, and the callbacks it calls.\<close>

datatype conn_functor =
    SendInLoop string
  | ShutdownInLoop
  | ForceCloseInLoop
  | StartReadInLoop
  | StopReadInLoop
  | WriteComplete
  | HighWaterMark nat

datatype conn_event =
    On_connection
  | On_message Timestamp
  | On_writeComplete
  | On_highWaterMark nat
  | On_close

text \<open>
  \<open>cs_written\<close> is the byte stream the kernel has taken and \<open>cs_fin\<close> the position in it at which the
  write side was shut down. \<open>cs_accepted\<close> and \<open>cs_calls\<close> are history: the bytes \<^verbatim>\<open>sendInLoop\<close> took over
  from its callers, and the callbacks called.
\<close>

record 'p conn_sys =
  cs_conn :: TcpConnection
  cs_poller :: 'p
  cs_chans :: chans
  cs_pending :: "conn_functor list"
  cs_delayed :: "seconds list"
  cs_written :: string
  cs_fin :: "nat option"
  cs_accepted :: string
  cs_calls :: "conn_event list"

type_synonym write_call = "string \<Rightarrow> errno + nat"
type_synonym 'p user_callbacks = "conn_event \<Rightarrow> 'p conn_sys \<Rightarrow> 'p conn_sys outcome"

abbreviation conn_state :: "'p conn_sys \<Rightarrow> StateE" where
  "conn_state s \<equiv> tc_state (cs_conn s)"

definition setState :: "StateE \<Rightarrow> 'p conn_sys \<Rightarrow> 'p conn_sys" where
  "setState st s = s\<lparr>cs_conn := (cs_conn s)\<lparr>tc_state := st\<rparr>\<rparr>"

definition connected :: "TcpConnection \<Rightarrow> bool" where
  "connected c \<longleftrightarrow> tc_state c = kConnected"

definition disconnected :: "TcpConnection \<Rightarrow> bool" where
  "disconnected c \<longleftrightarrow> tc_state c = kDisconnected"

definition stateToString :: "StateE \<Rightarrow> string" where
  "stateToString st = (case st of
       kDisconnected \<Rightarrow> ''kDisconnected'' | kConnecting \<Rightarrow> ''kConnecting''
     | kConnected \<Rightarrow> ''kConnected'' | kDisconnecting \<Rightarrow> ''kDisconnecting'')"

text \<open>The constructor; \<open>a\<close> is the address of the new channel.\<close>

definition TcpConnection_new ::
  "addr \<Rightarrow> string \<Rightarrow> int \<Rightarrow> InetAddress \<Rightarrow> InetAddress \<Rightarrow> addr \<Rightarrow> chans \<Rightarrow> (TcpConnection \<times> chans) outcome" where
  "TcpConnection_new loop nameArg sockfd localAddr peerAddr a h =
     andThen (Buffer_new kInitialSize) (\<lambda>b.
       Inr (\<lparr>tc_loop = loop, tc_name = nameArg, tc_state = kConnecting, tc_reading = True, tc_socket = sockfd,
              tc_channel = a, tc_localAddr = localAddr, tc_peerAddr = peerAddr, tc_writeCompleteCallback = False,
              tc_highWaterMarkCallback = False, tc_highWaterMark = 64 * 1024 * 1024, tc_inputBuffer = b,
              tc_outputBuffer = b\<rparr>,
            h(a \<mapsto> setErrorCallback (setCloseCallback (setWriteCallback (setReadCallback (Channel_new loop sockfd)))))))"

definition TcpConnection_delete :: "TcpConnection \<Rightarrow> unit outcome" where
  "TcpConnection_delete c = assert_that (tc_state c = kDisconnected) ''state_ == kDisconnected'' (Inr ())"

definition setWriteCompleteCallback :: "TcpConnection \<Rightarrow> TcpConnection" where
  "setWriteCompleteCallback c = c\<lparr>tc_writeCompleteCallback := True\<rparr>"

definition setHighWaterMarkCallback :: "nat \<Rightarrow> TcpConnection \<Rightarrow> TcpConnection" where
  "setHighWaterMarkCallback highWaterMark c = c\<lparr>tc_highWaterMarkCallback := True, tc_highWaterMark := highWaterMark\<rparr>"

definition defaultMessageCallback :: "Buffer \<Rightarrow> Buffer" where
  "defaultMessageCallback buf = retrieveAll buf"

text \<open>Queueing a functor, calling a callback, and calling a member of the channel.\<close>

definition queue_functor :: "conn_functor \<Rightarrow> 'p conn_sys \<Rightarrow> 'p conn_sys" where
  "queue_functor f s = s\<lparr>cs_pending := cs_pending s @ [f]\<rparr>"

definition call_user :: "'p user_callbacks \<Rightarrow> conn_event \<Rightarrow> 'p conn_sys \<Rightarrow> 'p conn_sys outcome" where
  "call_user user ev s = user ev (s\<lparr>cs_calls := cs_calls s @ [ev]\<rparr>)"

definition on_channel :: "'p chan_call \<Rightarrow> 'p conn_sys \<Rightarrow> 'p conn_sys outcome" where
  "on_channel f s = andThen (f (tc_channel (cs_conn s)) (cs_poller s, cs_chans s))
     (\<lambda>(p, h). Inr (s\<lparr>cs_poller := p, cs_chans := h\<rparr>))"

definition the_channel :: "'p conn_sys \<Rightarrow> (Channel \<Rightarrow> 'a outcome) \<Rightarrow> 'a outcome" where
  "the_channel s k = with_channel (tc_channel (cs_conn s)) (cs_chans s) k"

section \<open>Sending\<close>

text \<open>
  The direct write at the start of \<^verbatim>\<open>sendInLoop\<close>: how many bytes the kernel took, and whether the
  connection is broken.
\<close>

definition direct_write :: "write_call \<Rightarrow> string \<Rightarrow> 'p conn_sys \<Rightarrow> nat \<times> bool \<times> 'p conn_sys" where
  "direct_write wr data s = (case wr data of
       Inr nwrote \<Rightarrow>
         let s1 = s\<lparr>cs_written := cs_written s @ take nwrote data\<rparr>;
             remaining = size_sub (length data) nwrote
         in (nwrote, False, if remaining = 0 \<and> tc_writeCompleteCallback (cs_conn s) then queue_functor WriteComplete s1 else s1)
     | Inl err \<Rightarrow> (0, err \<noteq> EWOULDBLOCK \<and> (err = EPIPE \<or> err = ECONNRESET), s))"

text \<open>The rest of the data goes into the output buffer, and the channel starts to watch for writability.\<close>

definition buffer_rest :: "'p chan_call \<Rightarrow> string \<Rightarrow> nat \<Rightarrow> nat \<Rightarrow> 'p conn_sys \<Rightarrow> 'p conn_sys outcome" where
  "buffer_rest upd data nwrote remaining s =
     (let c = cs_conn s; oldLen = readableBytes (tc_outputBuffer c);
          s1 = (if size_add oldLen remaining \<ge> tc_highWaterMark c \<and> oldLen < tc_highWaterMark c \<and> tc_highWaterMarkCallback c
                then queue_functor (HighWaterMark (size_add oldLen remaining)) s else s)
      in andThen (Buffer_append (drop nwrote data) remaining (tc_outputBuffer c)) (\<lambda>b.
           let s2 = s1\<lparr>cs_conn := (cs_conn s1)\<lparr>tc_outputBuffer := b\<rparr>\<rparr>
           in the_channel s2 (\<lambda>ch. if \<not> isWriting ch then on_channel (enableWriting upd) s2 else Inr s2)))"

definition sendInLoop :: "bool \<Rightarrow> write_call \<Rightarrow> 'p chan_call \<Rightarrow> string \<Rightarrow> 'p conn_sys \<Rightarrow> 'p conn_sys outcome" where
  "sendInLoop inLoop wr upd data s = assertInLoopThread inLoop
     (if conn_state s = kDisconnected then Inr s
      else the_channel s (\<lambda>ch.
        let len = length data;
            (nwrote, faultError, s1) =
              (if \<not> isWriting ch \<and> readableBytes (tc_outputBuffer (cs_conn s)) = 0 then direct_write wr data s
               else (0, False, s));
            remaining = size_sub len nwrote;
            s2 = s1\<lparr>cs_accepted := cs_accepted s1 @ (if faultError then [] else data)\<rparr>
        in assert_that (remaining \<le> len) ''remaining <= len''
             (if \<not> faultError \<and> remaining > 0 then buffer_rest upd data nwrote remaining s2 else Inr s2)))"

definition send :: "bool \<Rightarrow> write_call \<Rightarrow> 'p chan_call \<Rightarrow> string \<Rightarrow> 'p conn_sys \<Rightarrow> 'p conn_sys outcome" where
  "send inLoop wr upd message s =
     (if conn_state s = kConnected then
        (if inLoop then sendInLoop inLoop wr upd message s else Inr (queue_functor (SendInLoop message) s))
      else Inr s)"

definition send_buffer ::
  "bool \<Rightarrow> write_call \<Rightarrow> 'p chan_call \<Rightarrow> Buffer \<Rightarrow> 'p conn_sys \<Rightarrow> (Buffer \<times> 'p conn_sys) outcome" where
  "send_buffer inLoop wr upd buf s =
     (if conn_state s = kConnected then
        (if inLoop then
           andThen (sendInLoop inLoop wr upd (bytes_between buf (peek buf) (peek buf + readableBytes buf)) s)
             (\<lambda>s'. Inr (retrieveAll buf, s'))
         else andThen (retrieveAllAsString buf) (\<lambda>(str, buf'). Inr (buf', queue_functor (SendInLoop str) s)))
      else Inr (buf, s))"

section \<open>Shutting down and closing\<close>

definition Socket_shutdownWrite :: "'p conn_sys \<Rightarrow> 'p conn_sys" where
  "Socket_shutdownWrite s = (case cs_fin s of None \<Rightarrow> s\<lparr>cs_fin := Some (length (cs_written s))\<rparr> | Some n \<Rightarrow> s)"

definition shutdownInLoop :: "bool \<Rightarrow> 'p conn_sys \<Rightarrow> 'p conn_sys outcome" where
  "shutdownInLoop inLoop s = assertInLoopThread inLoop
     (the_channel s (\<lambda>ch. Inr (if \<not> isWriting ch then Socket_shutdownWrite s else s)))"

definition shutdown :: "bool \<Rightarrow> 'p conn_sys \<Rightarrow> 'p conn_sys outcome" where
  "shutdown inLoop s =
     (if conn_state s = kConnected then
        let s1 = setState kDisconnecting s
        in (if inLoop then shutdownInLoop inLoop s1 else Inr (queue_functor ShutdownInLoop s1))
      else Inr s)"

definition handleClose :: "bool \<Rightarrow> 'p user_callbacks \<Rightarrow> 'p chan_call \<Rightarrow> 'p conn_sys \<Rightarrow> 'p conn_sys outcome" where
  "handleClose inLoop user upd s = assertInLoopThread inLoop
     (assert_that (conn_state s = kConnected \<or> conn_state s = kDisconnecting) ''state_ == kConnected || state_ == kDisconnecting''
       (andThen (on_channel (disableAll upd) (setState kDisconnected s)) (\<lambda>s1.
          andThen (call_user user On_connection s1) (\<lambda>s2. call_user user On_close s2))))"

definition forceClose :: "'p conn_sys \<Rightarrow> 'p conn_sys" where
  "forceClose s =
     (if conn_state s = kConnected \<or> conn_state s = kDisconnecting
      then queue_functor ForceCloseInLoop (setState kDisconnecting s) else s)"

definition forceCloseWithDelay :: "seconds \<Rightarrow> 'p conn_sys \<Rightarrow> 'p conn_sys" where
  "forceCloseWithDelay secs s =
     (if conn_state s = kConnected \<or> conn_state s = kDisconnecting
      then (setState kDisconnecting s)\<lparr>cs_delayed := cs_delayed s @ [secs]\<rparr> else s)"

definition forceCloseInLoop :: "bool \<Rightarrow> 'p user_callbacks \<Rightarrow> 'p chan_call \<Rightarrow> 'p conn_sys \<Rightarrow> 'p conn_sys outcome" where
  "forceCloseInLoop inLoop user upd s = assertInLoopThread inLoop
     (if conn_state s = kConnected \<or> conn_state s = kDisconnecting then handleClose inLoop user upd s else Inr s)"

section \<open>Reading on and off\<close>

definition startReadInLoop :: "bool \<Rightarrow> 'p chan_call \<Rightarrow> 'p conn_sys \<Rightarrow> 'p conn_sys outcome" where
  "startReadInLoop inLoop upd s = assertInLoopThread inLoop (the_channel s (\<lambda>ch.
     if \<not> tc_reading (cs_conn s) \<or> \<not> isReading ch then
       andThen (on_channel (enableReading upd) s) (\<lambda>s1. Inr (s1\<lparr>cs_conn := (cs_conn s1)\<lparr>tc_reading := True\<rparr>\<rparr>))
     else Inr s))"

definition stopReadInLoop :: "bool \<Rightarrow> 'p chan_call \<Rightarrow> 'p conn_sys \<Rightarrow> 'p conn_sys outcome" where
  "stopReadInLoop inLoop upd s = assertInLoopThread inLoop (the_channel s (\<lambda>ch.
     if tc_reading (cs_conn s) \<or> isReading ch then
       andThen (on_channel (disableReading upd) s) (\<lambda>s1. Inr (s1\<lparr>cs_conn := (cs_conn s1)\<lparr>tc_reading := False\<rparr>\<rparr>))
     else Inr s))"

definition startRead :: "bool \<Rightarrow> 'p chan_call \<Rightarrow> 'p conn_sys \<Rightarrow> 'p conn_sys outcome" where
  "startRead inLoop upd s = (if inLoop then startReadInLoop inLoop upd s else Inr (queue_functor StartReadInLoop s))"

definition stopRead :: "bool \<Rightarrow> 'p chan_call \<Rightarrow> 'p conn_sys \<Rightarrow> 'p conn_sys outcome" where
  "stopRead inLoop upd s = (if inLoop then stopReadInLoop inLoop upd s else Inr (queue_functor StopReadInLoop s))"

section \<open>Birth and death\<close>

text \<open>\<open>this\<close> is the address of the connection, to which its channel is tied.\<close>

definition tie_channel :: "addr \<Rightarrow> 'p conn_sys \<Rightarrow> 'p conn_sys outcome" where
  "tie_channel this s = the_channel s (\<lambda>ch.
     Inr (s\<lparr>cs_chans := (cs_chans s)(tc_channel (cs_conn s) \<mapsto> Channel_tie this ch)\<rparr>))"

definition connectEstablished ::
  "bool \<Rightarrow> 'p user_callbacks \<Rightarrow> 'p chan_call \<Rightarrow> addr \<Rightarrow> 'p conn_sys \<Rightarrow> 'p conn_sys outcome" where
  "connectEstablished inLoop user upd this s = assertInLoopThread inLoop
     (assert_that (conn_state s = kConnecting) ''state_ == kConnecting''
       (andThen (tie_channel this (setState kConnected s)) (\<lambda>s1.
          andThen (on_channel (enableReading upd) s1) (\<lambda>s2. call_user user On_connection s2))))"

definition connectDestroyed ::
  "bool \<Rightarrow> 'p user_callbacks \<Rightarrow> 'p chan_call \<Rightarrow> 'p chan_call \<Rightarrow> 'p conn_sys \<Rightarrow> 'p conn_sys outcome" where
  "connectDestroyed inLoop user upd rem s = assertInLoopThread inLoop
     (andThen
        (if conn_state s = kConnected
         then andThen (on_channel (disableAll upd) (setState kDisconnected s)) (call_user user On_connection)
         else Inr s)
        (on_channel (Channel_remove rem)))"

section \<open>Events\<close>

definition handleError :: "'p conn_sys \<Rightarrow> 'p conn_sys" where
  "handleError s = s"

definition handleRead ::
  "bool \<Rightarrow> readv_call \<Rightarrow> 'p user_callbacks \<Rightarrow> 'p chan_call \<Rightarrow> Timestamp \<Rightarrow> 'p conn_sys \<Rightarrow> 'p conn_sys outcome" where
  "handleRead inLoop rv user upd receiveTime s = assertInLoopThread inLoop
     (case readFd rv (tc_inputBuffer (cs_conn s)) of (n, r) \<Rightarrow>
        andThen r (\<lambda>b. let s1 = s\<lparr>cs_conn := (cs_conn s)\<lparr>tc_inputBuffer := b\<rparr>\<rparr> in
          case n of
            Inr k \<Rightarrow> if k > 0 then call_user user (On_message receiveTime) s1 else handleClose inLoop user upd s1
          | Inl savedErrno \<Rightarrow> Inr (handleError s1)))"

definition output_drained :: "'p chan_call \<Rightarrow> 'p conn_sys \<Rightarrow> 'p conn_sys outcome" where
  "output_drained upd s = andThen (on_channel (disableWriting upd) s) (\<lambda>s1.
     let s2 = (if tc_writeCompleteCallback (cs_conn s1) then queue_functor WriteComplete s1 else s1)
     in if conn_state s2 = kDisconnecting then shutdownInLoop True s2 else Inr s2)"

definition handleWrite :: "bool \<Rightarrow> write_call \<Rightarrow> 'p chan_call \<Rightarrow> 'p conn_sys \<Rightarrow> 'p conn_sys outcome" where
  "handleWrite inLoop wr upd s = assertInLoopThread inLoop (the_channel s (\<lambda>ch.
     if isWriting ch then
       let b = tc_outputBuffer (cs_conn s); data = bytes_between b (peek b) (peek b + readableBytes b)
       in (case wr data of
             Inl err \<Rightarrow> Inr s
           | Inr n \<Rightarrow>
               if n > 0 then
                 andThen (retrieve n b) (\<lambda>b'.
                   let s1 = s\<lparr>cs_conn := (cs_conn s)\<lparr>tc_outputBuffer := b'\<rparr>, cs_written := cs_written s @ take n data\<rparr>
                   in if readableBytes b' = 0 then output_drained upd s1 else Inr s1)
               else Inr s)
     else Inr s))"

text \<open>What the loop runs for a queued functor.\<close>

fun run_functor ::
  "write_call \<Rightarrow> 'p user_callbacks \<Rightarrow> 'p chan_call \<Rightarrow> conn_functor \<Rightarrow> 'p conn_sys \<Rightarrow> 'p conn_sys outcome" where
  "run_functor wr user upd (SendInLoop message) s = sendInLoop True wr upd message s"
| "run_functor wr user upd ShutdownInLoop s = shutdownInLoop True s"
| "run_functor wr user upd ForceCloseInLoop s = forceCloseInLoop True user upd s"
| "run_functor wr user upd StartReadInLoop s = startReadInLoop True upd s"
| "run_functor wr user upd StopReadInLoop s = stopReadInLoop True upd s"
| "run_functor wr user upd WriteComplete s = call_user user On_writeComplete s"
| "run_functor wr user upd (HighWaterMark n) s = call_user user (On_highWaterMark n) s"

text \<open>The callbacks the constructor installs in the channel.\<close>

fun conn_callback ::
  "readv_call \<Rightarrow> write_call \<Rightarrow> 'p user_callbacks \<Rightarrow> 'p chan_call \<Rightarrow> callback \<Rightarrow> 'p conn_sys \<Rightarrow> 'p conn_sys outcome" where
  "conn_callback rv wr user upd (ReadCallback t) s = handleRead True rv user upd t s"
| "conn_callback rv wr user upd WriteCallback s = handleWrite True wr upd s"
| "conn_callback rv wr user upd CloseCallback s = handleClose True user upd s"
| "conn_callback rv wr user upd ErrorCallback s = Inr (handleError s)"

section \<open>Outcomes short of memory exhaustion\<close>

text \<open>
  The output buffer grows without bound, so every operation that appends to it can throw
  \<^verbatim>\<open>std::length_error\<close>. \<open>safely P r\<close> says that \<open>r\<close> is that failure or a result with \<open>P\<close>; no other failure.
\<close>

definition safely :: "('a \<Rightarrow> bool) \<Rightarrow> 'a outcome \<Rightarrow> bool" where
  "safely P r = (case r of Inl e \<Rightarrow> e = Length_error | Inr x \<Rightarrow> P x)"

lemma safely_simps [simp]: "safely P (Inr x) = P x" "safely P (Inl e) = (e = Length_error)"
  by (simp_all add: safely_def)

lemma safely_andThen: "safely P r \<Longrightarrow> (\<And>x. P x \<Longrightarrow> safely Q (f x)) \<Longrightarrow> safely Q (andThen r f)"
  by (cases r) simp_all

lemma safely_mono: "safely P r \<Longrightarrow> (\<And>x. P x \<Longrightarrow> Q x) \<Longrightarrow> safely Q r"
  by (cases r) simp_all

lemma safely_InrD: "safely P r \<Longrightarrow> r = Inr x \<Longrightarrow> P x"
  by simp

lemma safely_append:
  assumes "buf_inv b" and "n \<le> length data" and "n \<le> vector_max_size"
  shows "safely (\<lambda>b'. buf_inv b' \<and> content b' = content b @ take n data) (Buffer_append data n b)"
proof (cases "has_room n b")
  case True
  from append_ok [OF assms(1) True assms(2)] show ?thesis by auto
qed (simp add: append_no_room assms)

lemma safely_readFd:
  assumes "buf_inv b" and "readv_ok rv" and "readFd rv b = (n, r)"
  shows "safely buf_inv r"
proof (cases "rv (readFd_iov b)")
  case (Inr d)
  let ?w = "length (buffer b) - writerIndex b"
  show ?thesis
  proof (cases "length d \<le> ?w")
    case True
    with write_at_end [OF assms(1) True] assms(1,3) Inr show ?thesis by (auto simp: readFd_def Let_def)
  next
    case False
    let ?b = "b\<lparr>buffer := copy_at (writerIndex b) (take ?w d) (buffer b), writerIndex := length (buffer b)\<rparr>"
    have tw: "length (take ?w d) = ?w" "writerIndex b \<le> length (buffer b)" using False assms(1) by (auto simp: buf_inv_def)
    then have len: "length (copy_at (writerIndex b) (take ?w d) (buffer b)) = length (buffer b)" by simp
    have w: "buf_inv ?b" using write_at_end [OF assms(1), of "take ?w d"] tw by auto
    have "length d \<le> sum_list (readFd_iov b)" using assms(2) Inr by (simp add: readv_ok_def)
    then have "length d - ?w \<le> sizeof_extrabuf" using assms(1) sum_readFd_iov [of b] by (simp split: if_splits)
    then have "length d - ?w \<le> vector_max_size" by (simp add: sizeof_extrabuf_def vector_max_size_def)
    with safely_append [OF w, of "length d - ?w" "drop ?w d"] have "safely buf_inv (Buffer_append (drop ?w d) (length d - ?w) ?b)"
      by (auto elim: safely_mono)
    then show ?thesis using False assms(1,3) Inr len by (auto simp: readFd_def Let_def)
  qed
qed (use assms in \<open>auto simp: readFd_error\<close>)

section \<open>Users of a connection\<close>

text \<open>
  What user code does to a connection, from its callbacks or from another thread: it calls the public
  members, and it takes bytes out of the input buffer. \<open>Consume b\<close> leaves \<open>b\<close> as the input buffer.
\<close>

datatype conn_api =
    Send write_call string
  | Shutdown
  | Force_close
  | Force_close_delayed seconds
  | Start_read
  | Stop_read
  | Consume Buffer

fun api_call :: "bool \<Rightarrow> 'p chan_call \<Rightarrow> conn_api \<Rightarrow> 'p conn_sys \<Rightarrow> 'p conn_sys outcome" where
  "api_call inLoop upd (Send wr message) s = send inLoop wr upd message s"
| "api_call inLoop upd Shutdown s = shutdown inLoop s"
| "api_call inLoop upd Force_close s = Inr (forceClose s)"
| "api_call inLoop upd (Force_close_delayed secs) s = Inr (forceCloseWithDelay secs s)"
| "api_call inLoop upd Start_read s = startRead inLoop upd s"
| "api_call inLoop upd Stop_read s = stopRead inLoop upd s"
| "api_call inLoop upd (Consume b) s = Inr (s\<lparr>cs_conn := (cs_conn s)\<lparr>tc_inputBuffer := b\<rparr>\<rparr>)"

text \<open>What \<^verbatim>\<open>write(2)\<close> documents: it never takes more bytes than it is given.\<close>

definition write_ok :: "write_call \<Rightarrow> bool" where
  "write_ok wr \<longleftrightarrow> (\<forall>d n. wr d = Inr n \<longrightarrow> n \<le> length d)"

definition fits :: "string \<Rightarrow> bool" where
  "fits d \<longleftrightarrow> length d \<le> vector_max_size"

text \<open>
  The calls a careful user makes: messages that fit in a string, a well-formed rest in the input
  buffer, and no \<^verbatim>\<open>startRead\<close> on a closed connection.
\<close>

fun api_allowed :: "conn_api \<Rightarrow> 'p conn_sys \<Rightarrow> bool" where
  "api_allowed (Send wr message) s \<longleftrightarrow> write_ok wr \<and> fits message"
| "api_allowed Start_read s \<longleftrightarrow> conn_state s \<noteq> kDisconnected"
| "api_allowed (Consume b) s \<longleftrightarrow> buf_inv b"
| "api_allowed c s \<longleftrightarrow> True"

fun calls_allowed :: "'p chan_call \<Rightarrow> conn_api list \<Rightarrow> 'p conn_sys \<Rightarrow> bool" where
  "calls_allowed upd [] s \<longleftrightarrow> True"
| "calls_allowed upd (c # cs) s \<longleftrightarrow> api_allowed c s \<and>
     (case api_call True upd c s of Inl e \<Rightarrow> True | Inr t \<Rightarrow> calls_allowed upd cs t)"

text \<open>A callback makes some sequence of such calls, which may depend on all it sees.\<close>

definition user_ok :: "'p chan_call \<Rightarrow> 'p user_callbacks \<Rightarrow> bool" where
  "user_ok upd user \<longleftrightarrow>
     (\<forall>ev s. \<exists>calls. calls_allowed upd calls s \<and> user ev s = for_each (api_call True upd) calls s)"

text \<open>
  The steps of a connection: it is established, another thread calls a public member, the loop runs
  the next functor, the channel delivers an event, or a delayed \<^verbatim>\<open>forceClose\<close> falls due. The channel
  delivers no read or close event to a closed connection.
\<close>

inductive conn_step :: "'p user_callbacks \<Rightarrow> 'p chan_call \<Rightarrow> 'p conn_sys \<Rightarrow> 'p conn_sys \<Rightarrow> bool" for user upd where
  established: "connectEstablished True user upd this s = Inr s' \<Longrightarrow> conn_step user upd s s'"
| other_thread: "conn_state s \<noteq> kConnecting \<Longrightarrow> api_allowed c s \<Longrightarrow> (\<And>b. c \<noteq> Consume b) \<Longrightarrow>
    api_call False upd c s = Inr s' \<Longrightarrow> conn_step user upd s s'"
| run_next: "conn_state s \<noteq> kConnecting \<Longrightarrow> cs_pending s = f # fs \<Longrightarrow> write_ok wr \<Longrightarrow>
    f = StartReadInLoop \<longrightarrow> conn_state s \<noteq> kDisconnected \<Longrightarrow>
    run_functor wr user upd f (s\<lparr>cs_pending := fs\<rparr>) = Inr s' \<Longrightarrow> conn_step user upd s s'"
| event: "conn_state s \<in> {kConnected, kDisconnecting} \<or> (conn_state s = kDisconnected \<and> cb \<in> {WriteCallback, ErrorCallback}) \<Longrightarrow>
    readv_ok rv \<Longrightarrow> write_ok wr \<Longrightarrow> conn_callback rv wr user upd cb s = Inr s' \<Longrightarrow> conn_step user upd s s'"
| delay_over: "conn_state s \<noteq> kConnecting \<Longrightarrow> cs_delayed s = ds @ d # ds' \<Longrightarrow>
    conn_step user upd s (forceClose (s\<lparr>cs_delayed := ds @ ds'\<rparr>))"

section \<open>Invariant\<close>

definition watched :: "Channel \<Rightarrow> Buffer \<Rightarrow> bool" where
  "watched ch b \<longleftrightarrow> (isWriting ch \<longleftrightarrow> content b \<noteq> [])"

definition calls_of :: "StateE \<Rightarrow> conn_event list" where
  "calls_of st = (case st of kConnecting \<Rightarrow> [] | kConnected \<Rightarrow> [On_connection] | kDisconnecting \<Rightarrow> [On_connection]
     | kDisconnected \<Rightarrow> [On_connection, On_connection, On_close])"

definition lifecycle_calls :: "'p conn_sys \<Rightarrow> conn_event list" where
  "lifecycle_calls s = filter (\<lambda>e. e = On_connection \<or> e = On_close) (cs_calls s)"

text \<open>What calls of the public members leave alone.\<close>

definition api_frame :: "'p conn_sys \<Rightarrow> 'p conn_sys \<Rightarrow> bool" where
  "api_frame s s' \<longleftrightarrow> cs_calls s' = cs_calls s
     \<and> (conn_state s' = conn_state s \<or> conn_state s \<in> {kConnected, kDisconnecting} \<and> conn_state s' = kDisconnecting)"

lemma api_frame_refl [simp]: "api_frame s s"
  by (simp add: api_frame_def)

lemma api_frame_trans: "api_frame s t \<Longrightarrow> api_frame t u \<Longrightarrow> api_frame s u"
  by (auto simp: api_frame_def)

text \<open>
  The write side is shut down at most once, and by calls of public members only when everything accepted
  has been written; nothing is accepted from them afterwards.
\<close>

definition fin_step :: "'p conn_sys \<Rightarrow> 'p conn_sys \<Rightarrow> bool" where
  "fin_step s s' \<longleftrightarrow>
     (cs_fin s \<noteq> None \<longrightarrow> cs_fin s' = cs_fin s \<and> cs_accepted s' = cs_accepted s \<and> cs_written s' = cs_written s)
   \<and> (cs_fin s = None \<and> cs_fin s' \<noteq> None \<longrightarrow> cs_fin s' = Some (length (cs_accepted s')) \<and> cs_written s' = cs_accepted s')"

lemma fin_step_refl [simp]: "fin_step s s"
  unfolding fin_step_def by blast

lemma fin_step_trans: "fin_step s t \<Longrightarrow> fin_step t u \<Longrightarrow> fin_step s u"
  unfolding fin_step_def by metis

text \<open>
  The part of the invariant that does not speak of the poller. While the write side is open, what was
  accepted is what the kernel has plus what is buffered.
\<close>

definition stream_inv :: "'p conn_sys \<Rightarrow> bool" where
  "stream_inv s \<longleftrightarrow> buf_inv (tc_outputBuffer (cs_conn s)) \<and> buf_inv (tc_inputBuffer (cs_conn s))
     \<and> cs_written s @ content (tc_outputBuffer (cs_conn s)) = cs_accepted s
     \<and> (\<forall>m. SendInLoop m \<in> set (cs_pending s) \<longrightarrow> fits m)
     \<and> (ShutdownInLoop \<in> set (cs_pending s) \<longrightarrow> conn_state s \<in> {kDisconnecting, kDisconnected})
     \<and> (\<forall>n. cs_fin s = Some n \<longrightarrow> n \<le> length (cs_written s) \<and> conn_state s \<in> {kDisconnecting, kDisconnected})"

context poller begin

definition chan_inv :: "'p conn_sys \<Rightarrow> bool" where
  "chan_inv s \<longleftrightarrow> (let c = cs_conn s; p = cs_poller s; h = cs_chans s; a = tc_channel c; fd = tc_socket c in
     inv p h \<and> (\<exists>ch. h a = Some ch \<and> ch_fd ch = fd \<and> event_mask (ch_events ch) \<and>
       (case tc_state c of
          kConnecting \<Rightarrow> 0 \<le> fd \<and> ch_index ch = -1 \<and> ch_events ch = 0 \<and> channels p fd = None \<and> content (tc_outputBuffer c) = []
        | kDisconnected \<Rightarrow> channels p fd = Some a \<and> ch_events ch = 0 \<and> removable p h a
        | _ \<Rightarrow> channels p fd = Some a \<and> watched ch (tc_outputBuffer c))))"

definition conn_inv :: "'p conn_sys \<Rightarrow> bool" where
  "conn_inv s \<longleftrightarrow> chan_inv s \<and> stream_inv s"

text \<open>Changing the events of a registered channel.\<close>

lemma on_channel_live:
  assumes "inv (cs_poller s) (cs_chans s)" and "cs_chans s (tc_channel (cs_conn s)) = Some ch"
    and "channels (cs_poller s) (ch_fd ch) = Some (tc_channel (cs_conn s))" and "event_mask (f (ch_events ch))"
  shows "\<exists>p' h' ch'. on_channel (with_events f upd) s = Inr (s\<lparr>cs_poller := p', cs_chans := h'\<rparr>) \<and> inv p' h'
    \<and> channels p' = channels (cs_poller s) \<and> h' (tc_channel (cs_conn s)) = Some ch' \<and> ch_fd ch' = ch_fd ch
    \<and> ch_events ch' = f (ch_events ch) \<and> (ch_events ch' = 0 \<longrightarrow> removable p' h' (tc_channel (cs_conn s)))"
proof -
  let ?a = "tc_channel (cs_conn s)"
  let ?h1 = "(cs_chans s)(?a \<mapsto> ch\<lparr>ch_events := f (ch_events ch), ch_addedToLoop := True\<rparr>)"
  from update_existing [OF assms(1,2,3,4), of ?h1 True] obtain p' h' where
    u: "upd ?a (cs_poller s, ?h1) = Inr (p', h')" "inv p' h'" "channels p' = channels (cs_poller s)" "reindexed {?a} ?h1 h'"
      "f (ch_events ch) = 0 \<longrightarrow> removable p' h' ?a" by blast
  from reindexed_Some [OF u(4), of ?a] obtain i where
    "h' ?a = Some (ch\<lparr>ch_events := f (ch_events ch), ch_addedToLoop := True, ch_index := i\<rparr>)" by auto
  with u assms(2) show ?thesis
    by (intro exI [of _ p'] exI [of _ h']) (simp add: on_channel_def with_events_def Channel_update_def)
qed

lemma on_channel_new:
  assumes "inv (cs_poller s) (cs_chans s)" and "cs_chans s (tc_channel (cs_conn s)) = Some ch" and "ch_index ch = -1"
    and "channels (cs_poller s) (ch_fd ch) = None" and "0 \<le> ch_fd ch" and "event_mask (f (ch_events ch))"
  shows "\<exists>p' h' ch'. on_channel (with_events f upd) s = Inr (s\<lparr>cs_poller := p', cs_chans := h'\<rparr>) \<and> inv p' h'
    \<and> channels p' (ch_fd ch) = Some (tc_channel (cs_conn s)) \<and> h' (tc_channel (cs_conn s)) = Some ch'
    \<and> ch_fd ch' = ch_fd ch \<and> ch_events ch' = f (ch_events ch)"
proof -
  let ?a = "tc_channel (cs_conn s)"
  let ?h1 = "(cs_chans s)(?a \<mapsto> ch\<lparr>ch_events := f (ch_events ch), ch_addedToLoop := True\<rparr>)"
  from update_new [OF assms(1,2,3,4,5,6), of ?h1 True] obtain p' h' where
    u: "upd ?a (cs_poller s, ?h1) = Inr (p', h')" "inv p' h'" "channels p' = (channels (cs_poller s))(ch_fd ch \<mapsto> ?a)"
      "reindexed {?a} ?h1 h'" by blast
  from reindexed_Some [OF u(4), of ?a] obtain i where
    "h' ?a = Some (ch\<lparr>ch_events := f (ch_events ch), ch_addedToLoop := True, ch_index := i\<rparr>)" by auto
  with u assms(2) show ?thesis
    by (intro exI [of _ p'] exI [of _ h']) (simp add: on_channel_def with_events_def Channel_update_def)
qed

end

lemma writing_masks:
  assumes "event_mask e"
  shows "(e OR kReadEvent) AND kWriteEvent \<noteq> 0 \<longleftrightarrow> e AND kWriteEvent \<noteq> 0"
    and "(e AND NOT kReadEvent) AND kWriteEvent \<noteq> 0 \<longleftrightarrow> e AND kWriteEvent \<noteq> 0"
    and "(e OR kWriteEvent) AND kWriteEvent \<noteq> 0"
    and "(e AND NOT kWriteEvent) AND kWriteEvent = 0"
  using assms unfolding event_mask_iff by (auto simp: event_masks)

lemma the_channel_Some: "cs_chans s (tc_channel (cs_conn s)) = Some ch \<Longrightarrow> the_channel s k = k ch"
  by (simp add: the_channel_def)

lemma queue_functor_simps [simp]:
  "cs_conn (queue_functor f s) = cs_conn s" "cs_poller (queue_functor f s) = cs_poller s"
  "cs_chans (queue_functor f s) = cs_chans s" "cs_pending (queue_functor f s) = cs_pending s @ [f]"
  "cs_delayed (queue_functor f s) = cs_delayed s" "cs_written (queue_functor f s) = cs_written s"
  "cs_fin (queue_functor f s) = cs_fin s" "cs_accepted (queue_functor f s) = cs_accepted s"
  "cs_calls (queue_functor f s) = cs_calls s"
  by (simp_all add: queue_functor_def)

lemma api_frame_left: "api_frame t u \<Longrightarrow> cs_calls t = cs_calls s \<Longrightarrow> conn_state t = conn_state s \<Longrightarrow> api_frame s u"
  by (simp add: api_frame_def)

context poller begin

lemma conn_inv_live:
  assumes "conn_inv s" and "conn_state s \<in> {kConnected, kDisconnecting}"
  obtains ch where "inv (cs_poller s) (cs_chans s)" "cs_chans s (tc_channel (cs_conn s)) = Some ch"
    "ch_fd ch = tc_socket (cs_conn s)" "event_mask (ch_events ch)"
    "channels (cs_poller s) (tc_socket (cs_conn s)) = Some (tc_channel (cs_conn s))" "watched ch (tc_outputBuffer (cs_conn s))"
    "stream_inv s"
  using assms that by (auto simp: conn_inv_def chan_inv_def Let_def split: StateE.splits)

lemma conn_invI:
  assumes "inv (cs_poller s) (cs_chans s)" "cs_chans s (tc_channel (cs_conn s)) = Some ch"
    "ch_fd ch = tc_socket (cs_conn s)" "event_mask (ch_events ch)"
    "channels (cs_poller s) (tc_socket (cs_conn s)) = Some (tc_channel (cs_conn s))" "watched ch (tc_outputBuffer (cs_conn s))"
    "stream_inv s" "conn_state s \<in> {kConnected, kDisconnecting}"
  shows "conn_inv s"
  using assms by (auto simp: conn_inv_def chan_inv_def Let_def split: StateE.splits)

lemma conn_inv_closedD:
  assumes "conn_inv s" and "conn_state s = kDisconnected"
  shows "\<exists>ch. inv (cs_poller s) (cs_chans s) \<and> cs_chans s (tc_channel (cs_conn s)) = Some ch
    \<and> ch_fd ch = tc_socket (cs_conn s) \<and> ch_events ch = 0
    \<and> channels (cs_poller s) (tc_socket (cs_conn s)) = Some (tc_channel (cs_conn s))
    \<and> removable (cs_poller s) (cs_chans s) (tc_channel (cs_conn s)) \<and> stream_inv s"
  using assms by (auto simp: conn_inv_def chan_inv_def Let_def)

lemma conn_inv_closedI:
  assumes "inv (cs_poller s) (cs_chans s)" "cs_chans s (tc_channel (cs_conn s)) = Some ch"
    "ch_fd ch = tc_socket (cs_conn s)" "ch_events ch = 0"
    "channels (cs_poller s) (tc_socket (cs_conn s)) = Some (tc_channel (cs_conn s))"
    "removable (cs_poller s) (cs_chans s) (tc_channel (cs_conn s))" "stream_inv s" "conn_state s = kDisconnected"
  shows "conn_inv s"
  using assms by (auto simp: conn_inv_def chan_inv_def Let_def)

text \<open>
  A registered, live connection before its output buffer and its channel are brought in line again:
  \<open>data\<close> has been accepted and is neither written nor buffered yet.
\<close>

definition owing :: "Channel \<Rightarrow> string \<Rightarrow> 'p conn_sys \<Rightarrow> bool" where
  "owing ch data s \<longleftrightarrow> inv (cs_poller s) (cs_chans s) \<and> cs_chans s (tc_channel (cs_conn s)) = Some ch
     \<and> ch_fd ch = tc_socket (cs_conn s) \<and> event_mask (ch_events ch)
     \<and> channels (cs_poller s) (tc_socket (cs_conn s)) = Some (tc_channel (cs_conn s))
     \<and> conn_state s \<in> {kConnected, kDisconnecting}
     \<and> buf_inv (tc_outputBuffer (cs_conn s)) \<and> buf_inv (tc_inputBuffer (cs_conn s))
     \<and> cs_written s @ content (tc_outputBuffer (cs_conn s)) @ data = cs_accepted s
     \<and> (\<forall>m. SendInLoop m \<in> set (cs_pending s) \<longrightarrow> fits m)
     \<and> (ShutdownInLoop \<in> set (cs_pending s) \<longrightarrow> conn_state s \<in> {kDisconnecting, kDisconnected})
     \<and> (\<forall>n. cs_fin s = Some n \<longrightarrow> n \<le> length (cs_written s) \<and> conn_state s \<in> {kDisconnecting, kDisconnected})"

lemma owing_nothing: "owing ch [] s \<Longrightarrow> watched ch (tc_outputBuffer (cs_conn s)) \<Longrightarrow> conn_inv s"
  by (rule conn_invI [of _ ch]) (simp_all add: owing_def stream_inv_def)

lemma owing_events:
  assumes "owing ch data s" and "event_mask (f (ch_events ch))"
  shows "\<exists>p' h' ch'. on_channel (with_events f upd) s = Inr (s\<lparr>cs_poller := p', cs_chans := h'\<rparr>)
    \<and> owing ch' data (s\<lparr>cs_poller := p', cs_chans := h'\<rparr>) \<and> ch_events ch' = f (ch_events ch)
    \<and> (ch_events ch' = 0 \<longrightarrow> removable p' h' (tc_channel (cs_conn s)))"
proof -
  from on_channel_live [of s ch f] assms obtain p' h' ch' where
    "on_channel (with_events f upd) s = Inr (s\<lparr>cs_poller := p', cs_chans := h'\<rparr>)" "inv p' h'"
    "channels p' = channels (cs_poller s)" "h' (tc_channel (cs_conn s)) = Some ch'" "ch_fd ch' = ch_fd ch"
    "ch_events ch' = f (ch_events ch)" "ch_events ch' = 0 \<longrightarrow> removable p' h' (tc_channel (cs_conn s))"
    by (auto simp: owing_def)
  with assms show ?thesis
    by (intro exI [of _ p'] exI [of _ h'] exI [of _ ch']) (simp add: owing_def)
qed

text \<open>Appending to the output buffer.\<close>

lemma start_writing_safe:
  assumes "owing ch [] s" and "content (tc_outputBuffer (cs_conn s)) \<noteq> []"
  shows "safely (\<lambda>s'. conn_inv s' \<and> api_frame s s' \<and> cs_fin s' = cs_fin s)
    (the_channel s (\<lambda>ch. if \<not> isWriting ch then on_channel (enableWriting upd) s else Inr s))"
proof -
  from assms(1) have ch: "cs_chans s (tc_channel (cs_conn s)) = Some ch" "event_mask (ch_events ch)"
    by (simp_all add: owing_def)
  show ?thesis
  proof (cases "isWriting ch")
    case True
    with assms owing_nothing [OF assms(1)] show ?thesis by (simp add: the_channel_Some [OF ch(1)] watched_def)
  next
    case False
    from owing_events [OF assms(1), of "\<lambda>e. e OR kWriteEvent"] event_mask_closed(3) [OF ch(2)] obtain p' h' ch' where
      o: "on_channel (enableWriting upd) s = Inr (s\<lparr>cs_poller := p', cs_chans := h'\<rparr>)"
        "owing ch' [] (s\<lparr>cs_poller := p', cs_chans := h'\<rparr>)" "ch_events ch' = ch_events ch OR kWriteEvent"
      by (auto simp: enableWriting_def)
    have "conn_inv (s\<lparr>cs_poller := p', cs_chans := h'\<rparr>)"
      by (rule owing_nothing [OF o(2)]) (use assms(2) o(3) writing_masks(3) [OF ch(2)] in \<open>simp add: watched_def isWriting_def\<close>)
    with False o(1) show ?thesis by (simp add: the_channel_Some [OF ch(1)] api_frame_def)
  qed
qed

lemma owing_queue [simp]:
  "owing ch data (queue_functor (HighWaterMark n) s) = owing ch data s"
  "owing ch data (queue_functor WriteComplete s) = owing ch data s"
  by (simp_all add: owing_def)

lemma buffer_rest_safe:
  assumes "owing ch (drop nwrote data) s" and len: "nwrote < length data" "length data \<le> vector_max_size"
  shows "safely (\<lambda>s'. conn_inv s' \<and> api_frame s s' \<and> cs_fin s' = cs_fin s) (buffer_rest upd data nwrote (length data - nwrote) s)"
proof -
  let ?P = "\<lambda>s'. conn_inv s' \<and> api_frame s s' \<and> cs_fin s' = cs_fin s"
  have app: "safely (\<lambda>b. buf_inv b \<and> content b = content (tc_outputBuffer (cs_conn s)) @ drop nwrote data)
      (Buffer_append (drop nwrote data) (length data - nwrote) (tc_outputBuffer (cs_conn s)))"
    using safely_append [of "tc_outputBuffer (cs_conn s)" "length data - nwrote" "drop nwrote data"] assms
    by (simp add: owing_def)
  have step: "safely ?P (let s2 = t\<lparr>cs_conn := (cs_conn t)\<lparr>tc_outputBuffer := b\<rparr>\<rparr>
       in the_channel s2 (\<lambda>ch. if \<not> isWriting ch then on_channel (enableWriting upd) s2 else Inr s2))"
    if b: "buf_inv b" "content b = content (tc_outputBuffer (cs_conn s)) @ drop nwrote data"
      and t: "owing ch (drop nwrote data) t" "cs_conn t = cs_conn s" "cs_calls t = cs_calls s" "cs_fin t = cs_fin s" for b t
  proof -
    from b t have "owing ch [] (t\<lparr>cs_conn := (cs_conn t)\<lparr>tc_outputBuffer := b\<rparr>\<rparr>)" by (simp add: owing_def)
    from start_writing_safe [OF this] show ?thesis
      unfolding Let_def by (rule safely_mono) (use b(2) len t in \<open>auto simp: api_frame_def\<close>)
  qed
  show ?thesis
    unfolding buffer_rest_def Let_def
    by (rule safely_andThen [OF app], rule step [unfolded Let_def])
      (use assms(1) in auto)
qed

text \<open>Sending.\<close>

lemma conn_inv_owing:
  assumes "conn_inv s" and "conn_state s \<in> {kConnected, kDisconnecting}"
  shows "\<exists>ch. owing ch [] s \<and> watched ch (tc_outputBuffer (cs_conn s))"
  by (rule conn_inv_live [OF assms]) (use assms(2) in \<open>auto simp: owing_def stream_inv_def\<close>)

lemma accept_safe:
  assumes "owing ch (drop n data) s" and "n \<le> length data" and "fits data"
    and "content (tc_outputBuffer (cs_conn s)) \<noteq> [] \<longleftrightarrow> isWriting ch"
  shows "safely (\<lambda>s'. conn_inv s' \<and> api_frame s s' \<and> cs_fin s' = cs_fin s)
    (if size_sub (length data) n > 0 then buffer_rest upd data n (size_sub (length data) n) s else Inr s)"
proof -
  have len: "length data < 2 ^ 64" "length data \<le> vector_max_size" using assms(3) by (simp_all add: fits_def vector_max_size_def)
  show ?thesis
  proof (cases "n < length data")
    case True
    with buffer_rest_safe [OF assms(1) True len(2)] len(1) show ?thesis by simp
  next
    case False
    with assms have "owing ch [] s" by simp
    from owing_nothing [OF this] assms(4) False assms(2) len(1) show ?thesis by (simp add: watched_def)
  qed
qed

lemma sendInLoop_safe:
  assumes "conn_inv s" and "conn_state s \<noteq> kConnecting" and "write_ok wr" and "fits data"
  shows "safely (\<lambda>s'. conn_inv s' \<and> api_frame s s' \<and> cs_fin s' = cs_fin s) (sendInLoop True wr upd data s)"
    (is "safely ?P _")
proof (cases "conn_state s = kDisconnected")
  case True
  with assms show ?thesis by (simp add: sendInLoop_def)
next
  case False
  with assms(2) have live: "conn_state s \<in> {kConnected, kDisconnecting}" by (cases "conn_state s") auto
  from conn_inv_owing [OF assms(1) live] obtain ch where ch: "owing ch [] s" "watched ch (tc_outputBuffer (cs_conn s))" by blast
  then have h: "cs_chans s (tc_channel (cs_conn s)) = Some ch" and b: "buf_inv (tc_outputBuffer (cs_conn s))" by (simp_all add: owing_def)
  have w: "content (tc_outputBuffer (cs_conn s)) \<noteq> [] \<longleftrightarrow> isWriting ch" using ch(2) by (simp add: watched_def)
  have empty: "\<not> isWriting ch \<and> readableBytes (tc_outputBuffer (cs_conn s)) = 0 \<longleftrightarrow> content (tc_outputBuffer (cs_conn s)) = []"
    using readableBytes_content [OF b] w by auto
  have go: "safely ?P (if size_sub (length data) n > 0 then buffer_rest upd data n (size_sub (length data) n) t else Inr t)"
    if "owing ch (drop n data) t" "n \<le> length data" "cs_conn t = cs_conn s" "cs_calls t = cs_calls s" "cs_fin t = cs_fin s" for n t
    by (rule safely_mono [OF accept_safe]) (use that assms(4) w in \<open>auto intro: api_frame_left\<close>)
  have bound: "size_sub (length data) n \<le> length data" if "n \<le> length data" for n
    using that assms(4) by (simp add: fits_def vector_max_size_def)
  show ?thesis
  proof (cases "content (tc_outputBuffer (cs_conn s)) = []")
    case False
    have "owing ch (drop 0 data) (s\<lparr>cs_accepted := cs_accepted s @ data\<rparr>)" using ch(1) by (simp add: owing_def)
    from go [OF this] bound [of 0] False empty \<open>conn_state s \<noteq> kDisconnected\<close> show ?thesis
      by (auto simp: sendInLoop_def the_channel_Some [OF h] Let_def)
  next
    case True
    show ?thesis
    proof (cases "wr data")
      case (Inl err)
      have "owing ch (drop 0 data) (s\<lparr>cs_accepted := cs_accepted s @ data\<rparr>)" using ch(1) by (simp add: owing_def)
      from go [OF this] bound [of 0] True empty assms(1) Inl \<open>conn_state s \<noteq> kDisconnected\<close> show ?thesis
        by (auto simp: sendInLoop_def direct_write_def the_channel_Some [OF h] Let_def)
    next
      case (Inr n)
      with assms(3) have n: "n \<le> length data" by (simp add: write_ok_def)
      let ?s1 = "s\<lparr>cs_written := cs_written s @ take n data\<rparr>"
      let ?t = "if size_sub (length data) n = 0 \<and> tc_writeCompleteCallback (cs_conn s) then queue_functor WriteComplete ?s1 else ?s1"
      have "owing ch (drop n data) (?t\<lparr>cs_accepted := cs_accepted ?t @ data\<rparr>)"
        using ch(1) True by (auto simp: owing_def)
      from go [OF this n] bound [OF n] True empty Inr \<open>conn_state s \<noteq> kDisconnected\<close> show ?thesis
        by (simp add: sendInLoop_def direct_write_def the_channel_Some [OF h] Let_def cong: if_cong)
    qed
  qed
qed

end

definition api_post :: "'p conn_sys \<Rightarrow> 'p conn_sys \<Rightarrow> bool" where
  "api_post s s' \<longleftrightarrow> api_frame s s' \<and> fin_step s s'"

lemma api_post_refl [simp]: "api_post s s"
  by (simp add: api_post_def)

lemma api_post_trans: "api_post s t \<Longrightarrow> api_post t u \<Longrightarrow> api_post s u"
  by (auto simp: api_post_def intro: api_frame_trans fin_step_trans)

lemma setState_simps [simp]:
  "cs_poller (setState st s) = cs_poller s" "cs_chans (setState st s) = cs_chans s"
  "cs_conn (setState st s) = (cs_conn s)\<lparr>tc_state := st\<rparr>" "cs_pending (setState st s) = cs_pending s"
  "cs_delayed (setState st s) = cs_delayed s" "cs_written (setState st s) = cs_written s" "cs_fin (setState st s) = cs_fin s"
  "cs_accepted (setState st s) = cs_accepted s" "cs_calls (setState st s) = cs_calls s"
  by (simp_all add: setState_def)

lemma fin_connected: "stream_inv s \<Longrightarrow> conn_state s = kConnected \<Longrightarrow> cs_fin s = None"
  by (cases "cs_fin s") (auto simp: stream_inv_def)

context poller begin

lemma conn_inv_stream: "conn_inv s \<Longrightarrow> stream_inv s"
  by (simp add: conn_inv_def)

text \<open>\<open>conn_inv\<close> reads the phase, not the exact state, of a live connection.\<close>

lemma conn_inv_disconnecting:
  assumes "conn_inv s" and "conn_state s \<in> {kConnected, kDisconnecting}"
  shows "conn_inv (setState kDisconnecting s)"
  using assms by (rule conn_inv_live) (rule conn_invI; auto simp: stream_inv_def)

lemma conn_inv_queue:
  assumes "conn_inv s" and "\<And>m. f = SendInLoop m \<Longrightarrow> fits m"
    and "f = ShutdownInLoop \<Longrightarrow> conn_state s \<in> {kDisconnecting, kDisconnected}"
  shows "conn_inv (queue_functor f s)"
  using assms by (auto simp: conn_inv_def chan_inv_def stream_inv_def Let_def split: StateE.splits)

lemma shutdownInLoop_safe:
  assumes "conn_inv s" and "conn_state s \<in> {kDisconnecting, kDisconnected}"
  shows "\<exists>s'. shutdownInLoop True s = Inr s' \<and> conn_inv s' \<and> api_frame s s' \<and> (conn_state s = kDisconnecting \<longrightarrow> fin_step s s')"
proof -
  from assms obtain ch where ch: "cs_chans s (tc_channel (cs_conn s)) = Some ch"
    "conn_state s = kDisconnecting \<longrightarrow> watched ch (tc_outputBuffer (cs_conn s))"
    by (auto simp: conn_inv_def chan_inv_def Let_def)
  have "conn_inv (Socket_shutdownWrite s)"
    using assms by (auto simp: Socket_shutdownWrite_def conn_inv_def chan_inv_def stream_inv_def Let_def split: option.splits StateE.splits)
  moreover have "fin_step s (Socket_shutdownWrite s)" if "\<not> isWriting ch" "conn_state s = kDisconnecting"
    using that ch(2) conn_inv_stream [OF assms(1)]
    by (auto simp: Socket_shutdownWrite_def fin_step_def stream_inv_def watched_def split: option.splits)
  moreover have "api_frame s (Socket_shutdownWrite s)"
    by (simp add: Socket_shutdownWrite_def api_frame_def split: option.splits)
  ultimately show ?thesis using assms(1) by (auto simp: shutdownInLoop_def the_channel_Some [OF ch(1)])
qed

lemma shutdown_safe:
  assumes "conn_inv s"
  shows "\<exists>s'. shutdown inLoop s = Inr s' \<and> conn_inv s' \<and> api_post s s'"
proof (cases "conn_state s = kConnected")
  case True
  then have d: "conn_inv (setState kDisconnecting s)" using conn_inv_disconnecting [OF assms] by simp
  have fin: "cs_fin s = None" using fin_connected [OF conn_inv_stream [OF assms] True] .
  show ?thesis
  proof (cases inLoop)
    case T: True
    from shutdownInLoop_safe [OF d] obtain s' where
      s': "shutdownInLoop True (setState kDisconnecting s) = Inr s'" "conn_inv s'"
        "api_frame (setState kDisconnecting s) s'" "fin_step (setState kDisconnecting s) s'" by auto
    then have "api_post s s'" using True by (simp add: api_post_def api_frame_def fin_step_def)
    with T True s' show ?thesis by (simp add: shutdown_def)
  next
    case False
    with True conn_inv_queue [OF d, of ShutdownInLoop] fin show ?thesis
      by (simp add: shutdown_def api_post_def api_frame_def fin_step_def)
  qed
qed (simp add: shutdown_def assms)

lemma forceClose_safe:
  assumes "conn_inv s"
  shows "conn_inv (forceClose s) \<and> api_post s (forceClose s)"
proof (cases "conn_state s \<in> {kConnected, kDisconnecting}")
  case True
  with conn_inv_queue [OF conn_inv_disconnecting [OF assms True], of ForceCloseInLoop] show ?thesis
    by (auto simp: forceClose_def api_post_def api_frame_def fin_step_def)
qed (use assms in \<open>auto simp: forceClose_def\<close>)

lemma conn_inv_cong:
  "conn_inv s \<Longrightarrow> conn_inv (s\<lparr>cs_delayed := d\<rparr>)" "conn_inv s \<Longrightarrow> conn_inv (s\<lparr>cs_calls := l\<rparr>)"
  "conn_inv s \<Longrightarrow> set fs \<subseteq> set (cs_pending s) \<Longrightarrow> conn_inv (s\<lparr>cs_pending := fs\<rparr>)"
  "conn_inv s \<Longrightarrow> buf_inv b \<Longrightarrow> conn_inv (s\<lparr>cs_conn := (cs_conn s)\<lparr>tc_inputBuffer := b\<rparr>\<rparr>)"
  "conn_inv s \<Longrightarrow> conn_inv (s\<lparr>cs_conn := (cs_conn s)\<lparr>tc_reading := r\<rparr>\<rparr>)"
  by (auto simp: conn_inv_def chan_inv_def stream_inv_def Let_def split: StateE.splits)

lemma forceCloseWithDelay_safe:
  assumes "conn_inv s"
  shows "conn_inv (forceCloseWithDelay secs s) \<and> api_post s (forceCloseWithDelay secs s)"
proof (cases "conn_state s \<in> {kConnected, kDisconnecting}")
  case True
  with conn_inv_cong(1) [OF conn_inv_disconnecting [OF assms True]] show ?thesis
    by (auto simp: forceCloseWithDelay_def api_post_def api_frame_def fin_step_def)
qed (use assms in \<open>auto simp: forceCloseWithDelay_def\<close>)

text \<open>Switching reading on or off changes neither whether the channel is writing nor the buffers.\<close>

lemma read_switch_live:
  assumes "conn_inv s" and "conn_state s \<in> {kConnected, kDisconnecting}"
    and "\<And>e. event_mask e \<Longrightarrow> event_mask (f e) \<and> (f e AND kWriteEvent \<noteq> 0 \<longleftrightarrow> e AND kWriteEvent \<noteq> 0)"
  shows "\<exists>p h. on_channel (with_events f upd) s = Inr (s\<lparr>cs_poller := p, cs_chans := h\<rparr>) \<and> conn_inv (s\<lparr>cs_poller := p, cs_chans := h\<rparr>)"
proof -
  from conn_inv_owing [OF assms(1,2)] obtain ch where ch: "owing ch [] s" "watched ch (tc_outputBuffer (cs_conn s))" by blast
  then have m: "event_mask (ch_events ch)" by (simp add: owing_def)
  from owing_events [OF ch(1), of f] assms(3) [OF m] obtain p h ch' where
    o: "on_channel (with_events f upd) s = Inr (s\<lparr>cs_poller := p, cs_chans := h\<rparr>)"
      "owing ch' [] (s\<lparr>cs_poller := p, cs_chans := h\<rparr>)" "ch_events ch' = f (ch_events ch)" by blast
  have "conn_inv (s\<lparr>cs_poller := p, cs_chans := h\<rparr>)"
    by (rule owing_nothing [OF o(2)]) (use ch(2) o(3) assms(3) [OF m] in \<open>simp add: watched_def isWriting_def\<close>)
  with o(1) show ?thesis by blast
qed

lemma read_off_closed:
  assumes "conn_inv s" and "conn_state s = kDisconnected"
  shows "\<exists>p h. on_channel (disableReading upd) s = Inr (s\<lparr>cs_poller := p, cs_chans := h\<rparr>) \<and> conn_inv (s\<lparr>cs_poller := p, cs_chans := h\<rparr>)"
proof -
  from conn_inv_closedD [OF assms] obtain ch where ch: "inv (cs_poller s) (cs_chans s)"
    "cs_chans s (tc_channel (cs_conn s)) = Some ch" "ch_fd ch = tc_socket (cs_conn s)" "ch_events ch = 0"
    "channels (cs_poller s) (tc_socket (cs_conn s)) = Some (tc_channel (cs_conn s))" "stream_inv s" by blast
  from on_channel_live [of s ch "\<lambda>e. e AND NOT kReadEvent"] ch obtain p h ch' where
    o: "on_channel (disableReading upd) s = Inr (s\<lparr>cs_poller := p, cs_chans := h\<rparr>)" "inv p h" "channels p = channels (cs_poller s)"
      "h (tc_channel (cs_conn s)) = Some ch'" "ch_fd ch' = ch_fd ch" "ch_events ch' = 0" "removable p h (tc_channel (cs_conn s))"
    by (auto simp: disableReading_def)
  have "conn_inv (s\<lparr>cs_poller := p, cs_chans := h\<rparr>)"
    by (rule conn_inv_closedI [of _ ch']) (use o ch assms(2) in \<open>simp_all add: stream_inv_def\<close>)
  with o(1) show ?thesis by blast
qed

lemma conn_inv_channel:
  assumes "conn_inv s"
  shows "\<exists>ch. cs_chans s (tc_channel (cs_conn s)) = Some ch"
  using assms by (auto simp: conn_inv_def chan_inv_def Let_def)

lemma startReadInLoop_safe:
  assumes "conn_inv s" and "conn_state s \<in> {kConnected, kDisconnecting}"
  shows "\<exists>s'. startReadInLoop True upd s = Inr s' \<and> conn_inv s' \<and> api_post s s'"
proof -
  from conn_inv_channel [OF assms(1)] obtain ch where ch: "cs_chans s (tc_channel (cs_conn s)) = Some ch" by blast
  from read_switch_live [OF assms, of "\<lambda>e. e OR kReadEvent"] event_mask_closed(1) writing_masks(1) obtain p h where
    o: "on_channel (enableReading upd) s = Inr (s\<lparr>cs_poller := p, cs_chans := h\<rparr>)" "conn_inv (s\<lparr>cs_poller := p, cs_chans := h\<rparr>)"
    unfolding enableReading_def by blast
  from conn_inv_cong(5) [OF o(2), of True] o(1) assms(1) show ?thesis
    by (auto simp: startReadInLoop_def the_channel_Some [OF ch] api_post_def api_frame_def fin_step_def)
qed

lemma stopReadInLoop_safe:
  assumes "conn_inv s" and "conn_state s \<noteq> kConnecting"
  shows "\<exists>s'. stopReadInLoop True upd s = Inr s' \<and> conn_inv s' \<and> api_post s s'"
proof -
  from conn_inv_channel [OF assms(1)] obtain ch where ch: "cs_chans s (tc_channel (cs_conn s)) = Some ch" by blast
  have "\<exists>p h. on_channel (disableReading upd) s = Inr (s\<lparr>cs_poller := p, cs_chans := h\<rparr>) \<and> conn_inv (s\<lparr>cs_poller := p, cs_chans := h\<rparr>)"
  proof (cases "conn_state s = kDisconnected")
    case False
    with assms(2) have "conn_state s \<in> {kConnected, kDisconnecting}" by (cases "conn_state s") auto
    from read_switch_live [OF assms(1) this, of "\<lambda>e. e AND NOT kReadEvent"] event_mask_closed(2) writing_masks(2)
    show ?thesis unfolding disableReading_def by blast
  qed (rule read_off_closed [OF assms(1)])
  then obtain p h where
    o: "on_channel (disableReading upd) s = Inr (s\<lparr>cs_poller := p, cs_chans := h\<rparr>)" "conn_inv (s\<lparr>cs_poller := p, cs_chans := h\<rparr>)"
    by blast
  from conn_inv_cong(5) [OF o(2), of False] o(1) assms(1) show ?thesis
    by (auto simp: stopReadInLoop_def the_channel_Some [OF ch] api_post_def api_frame_def fin_step_def)
qed

end

lemma fin_step_same: "cs_fin t = cs_fin s \<Longrightarrow> cs_accepted t = cs_accepted s \<Longrightarrow> cs_written t = cs_written s \<Longrightarrow> fin_step s t"
  unfolding fin_step_def by metis

text \<open>The order of the states, and what every step of a connection keeps.\<close>

fun state_rank :: "StateE \<Rightarrow> nat" where
  "state_rank kConnecting = 0"
| "state_rank kConnected = 1"
| "state_rank kDisconnecting = 2"
| "state_rank kDisconnected = 3"

definition log_inv :: "'p conn_sys \<Rightarrow> bool" where
  "log_inv s \<longleftrightarrow> lifecycle_calls s = calls_of (conn_state s)"

definition drained :: "'p conn_sys \<Rightarrow> 'p conn_sys \<Rightarrow> bool" where
  "drained s s' \<longleftrightarrow> (cs_fin s \<noteq> None \<longrightarrow> cs_fin s' = cs_fin s)
     \<and> (cs_fin s = None \<and> cs_fin s' \<noteq> None \<longrightarrow> cs_fin s' = Some (length (cs_accepted s')) \<and> cs_written s' = cs_accepted s')"

definition step_post :: "'p conn_sys \<Rightarrow> 'p conn_sys \<Rightarrow> bool" where
  "step_post s s' \<longleftrightarrow> (log_inv s \<longrightarrow> log_inv s') \<and> state_rank (conn_state s) \<le> state_rank (conn_state s')
     \<and> (conn_state s \<noteq> kDisconnected \<longrightarrow> drained s s')"

lemma fin_step_drained: "fin_step s s' \<Longrightarrow> drained s s'"
  unfolding fin_step_def drained_def by metis

lemma drained_same: "cs_fin s' = cs_fin s \<Longrightarrow> drained s s'"
  by (cases "cs_fin s") (simp_all add: drained_def)

lemma log_inv_frame:
  assumes "log_inv s" and "lifecycle_calls s' = lifecycle_calls s"
    and "conn_state s' = conn_state s \<or> conn_state s \<in> {kConnected, kDisconnecting} \<and> conn_state s' = kDisconnecting"
  shows "log_inv s'"
  using assms by (auto simp: log_inv_def calls_of_def)

lemma api_frame_post: "api_frame s s' \<Longrightarrow> drained s s' \<Longrightarrow> step_post s s'"
  unfolding step_post_def
  by (auto simp: api_frame_def lifecycle_calls_def intro: log_inv_frame)

lemma api_post_step: "api_post s s' \<Longrightarrow> step_post s s'"
  using api_frame_post fin_step_drained unfolding api_post_def by blast

text \<open>A callback other than those of the life cycle.\<close>

definition logged :: "conn_event \<Rightarrow> 'p conn_sys \<Rightarrow> 'p conn_sys" where
  "logged ev s = s\<lparr>cs_calls := cs_calls s @ [ev]\<rparr>"

lemma logged_simps [simp]:
  "cs_conn (logged ev s) = cs_conn s" "cs_fin (logged ev s) = cs_fin s" "cs_calls (logged ev s) = cs_calls s @ [ev]"
  "cs_accepted (logged ev s) = cs_accepted s" "cs_written (logged ev s) = cs_written s" "cs_poller (logged ev s) = cs_poller s"
  "cs_chans (logged ev s) = cs_chans s" "cs_pending (logged ev s) = cs_pending s"
  by (simp_all add: logged_def)

lemma api_post_logged:
  assumes "api_post (logged ev s) s'" and "ev \<noteq> On_connection" and "ev \<noteq> On_close"
  shows "step_post s s'"
proof -
  from assms(1) have f: "api_frame (logged ev s) s'" "drained (logged ev s) s'"
    using fin_step_drained by (auto simp: api_post_def)
  then have "drained s s'" by (simp add: drained_def)
  with f(1) assms(2,3) show ?thesis
    unfolding step_post_def by (auto simp: api_frame_def lifecycle_calls_def intro: log_inv_frame)
qed

context poller begin

lemma api_call_safe:
  assumes "conn_inv s" and "conn_state s \<noteq> kConnecting" and "api_allowed c s"
  shows "safely (\<lambda>s'. conn_inv s' \<and> api_post s s') (api_call inLoop upd c s)"
proof (cases c)
  case (Send wr m)
  show ?thesis
  proof (cases "conn_state s = kConnected \<and> inLoop")
    case True
    then have "cs_fin s = None" using fin_connected [OF conn_inv_stream [OF assms(1)]] by simp
    with sendInLoop_safe [OF assms(1,2), of wr m] assms(3) True Send show ?thesis
      by (auto simp: send_def api_post_def fin_step_def elim!: safely_mono)
  next
    case False
    with conn_inv_queue [OF assms(1), of "SendInLoop m"] assms Send show ?thesis
      by (auto simp: send_def api_post_def api_frame_def intro!: fin_step_same)
  qed
next
  case Shutdown
  with shutdown_safe [OF assms(1), of inLoop] show ?thesis by auto
next
  case Start_read
  with assms have live: "conn_state s \<in> {kConnected, kDisconnecting}" by (cases "conn_state s") auto
  show ?thesis
  proof (cases inLoop)
    case True
    with startReadInLoop_safe [OF assms(1) live] Start_read show ?thesis by (auto simp: startRead_def)
  next
    case False
    with conn_inv_queue [OF assms(1), of StartReadInLoop] Start_read show ?thesis
      by (auto simp: startRead_def api_post_def api_frame_def intro!: fin_step_same)
  qed
next
  case Stop_read
  show ?thesis
  proof (cases inLoop)
    case True
    with stopReadInLoop_safe [OF assms(1,2)] Stop_read show ?thesis by (auto simp: stopRead_def)
  next
    case False
    with conn_inv_queue [OF assms(1), of StopReadInLoop] Stop_read show ?thesis
      by (auto simp: stopRead_def api_post_def api_frame_def intro!: fin_step_same)
  qed
next
  case (Consume b)
  with conn_inv_cong(4) [OF assms(1), of b] assms(3) show ?thesis
    by (auto simp: api_post_def api_frame_def intro!: fin_step_same)
qed (use forceClose_safe [OF assms(1)] forceCloseWithDelay_safe [OF assms(1)] in simp_all)

lemma calls_safe:
  "calls_allowed upd cs s \<Longrightarrow> conn_inv s \<Longrightarrow> conn_state s \<noteq> kConnecting \<Longrightarrow>
    safely (\<lambda>s'. conn_inv s' \<and> api_post s s') (for_each (api_call True upd) cs s)"
proof (induction cs arbitrary: s)
  case Nil
  then show ?case by simp
next
  case (Cons c cs)
  then have "safely (\<lambda>t. conn_inv t \<and> api_post s t) (api_call True upd c s)" by (intro api_call_safe) simp_all
  then show ?case
  proof (cases "api_call True upd c s")
    case (Inr t)
    with \<open>safely _ _\<close> have t: "conn_inv t" "api_post s t" by simp_all
    with Cons.prems(3) have "conn_state t \<noteq> kConnecting" by (auto simp: api_post_def api_frame_def)
    with Cons.IH [of t] Cons.prems(1) t Inr api_post_trans show ?thesis by (auto elim!: safely_mono)
  qed simp
qed

lemma call_user_safe:
  assumes "user_ok upd user" and "conn_inv s" and "conn_state s \<noteq> kConnecting"
  shows "safely (\<lambda>s'. conn_inv s' \<and> api_post (logged ev s) s') (call_user user ev s)"
proof -
  from assms(1) obtain cs where "calls_allowed upd cs (logged ev s)"
    "call_user user ev s = for_each (api_call True upd) cs (logged ev s)"
    unfolding user_ok_def call_user_def logged_def by blast
  with calls_safe [of cs "logged ev s"] conn_inv_cong(2) [OF assms(2)] assms(3) show ?thesis by (simp add: logged_def)
qed

lemma close_channel:
  assumes "conn_inv s" and "conn_state s \<in> {kConnected, kDisconnecting}"
  shows "\<exists>p h. on_channel (disableAll upd) (setState kDisconnected s) = Inr ((setState kDisconnected s)\<lparr>cs_poller := p, cs_chans := h\<rparr>)
    \<and> conn_inv ((setState kDisconnected s)\<lparr>cs_poller := p, cs_chans := h\<rparr>)"
proof -
  let ?s = "setState kDisconnected s"
  from conn_inv_owing [OF assms] obtain ch where "owing ch [] s" by blast
  then have ch: "inv (cs_poller ?s) (cs_chans ?s)" "cs_chans ?s (tc_channel (cs_conn ?s)) = Some ch"
    "channels (cs_poller ?s) (ch_fd ch) = Some (tc_channel (cs_conn ?s))" "ch_fd ch = tc_socket (cs_conn s)"
    by (simp_all add: owing_def)
  from on_channel_live [OF ch(1,2,3), of "\<lambda>e. kNoneEvent"] obtain p h ch' where
    o: "on_channel (disableAll upd) ?s = Inr (?s\<lparr>cs_poller := p, cs_chans := h\<rparr>)" "inv p h" "channels p = channels (cs_poller s)"
      "h (tc_channel (cs_conn s)) = Some ch'" "ch_fd ch' = ch_fd ch" "ch_events ch' = 0" "removable p h (tc_channel (cs_conn s))"
    by (auto simp: disableAll_def kNoneEvent_def)
  have "conn_inv (?s\<lparr>cs_poller := p, cs_chans := h\<rparr>)"
    by (rule conn_inv_closedI [of _ ch']) (use o ch conn_inv_stream [OF assms(1)] in \<open>auto simp: stream_inv_def\<close>)
  with o(1) show ?thesis by blast
qed

lemma handleClose_safe:
  assumes "user_ok upd user" and "conn_inv s" and "conn_state s \<in> {kConnected, kDisconnecting}"
  shows "safely (\<lambda>s'. conn_inv s' \<and> step_post s s' \<and> conn_state s' = kDisconnected) (handleClose True user upd s)"
proof -
  from close_channel [OF assms(2,3)] obtain p h where
    1: "on_channel (disableAll upd) (setState kDisconnected s) = Inr ((setState kDisconnected s)\<lparr>cs_poller := p, cs_chans := h\<rparr>)"
      "conn_inv ((setState kDisconnected s)\<lparr>cs_poller := p, cs_chans := h\<rparr>)" by blast
  let ?s1 = "(setState kDisconnected s)\<lparr>cs_poller := p, cs_chans := h\<rparr>"
  have two: "safely (\<lambda>s'. conn_inv s' \<and> step_post s s' \<and> conn_state s' = kDisconnected) (call_user user On_close s2)"
    if s2: "conn_inv s2" "api_post (logged On_connection ?s1) s2" for s2
  proof -
    from s2(2) have st: "conn_state s2 = kDisconnected" "cs_calls s2 = cs_calls s @ [On_connection]" and f2: "fin_step s s2"
      by (auto simp: api_post_def api_frame_def fin_step_def)
    have "step_post s s' \<and> conn_state s' = kDisconnected" if "api_post (logged On_close s2) s'" for s'
    proof -
      from that st have s': "conn_state s' = kDisconnected" "cs_calls s' = cs_calls s @ [On_connection, On_close]"
        and "fin_step s2 s'" by (auto simp: api_post_def api_frame_def fin_step_def)
      from fin_step_trans [OF f2 this(3)] have "drained s s'" by (rule fin_step_drained)
      with s' assms(3) show ?thesis by (auto simp: step_post_def log_inv_def lifecycle_calls_def calls_of_def)
    qed
    with call_user_safe [OF assms(1) s2(1), of On_close] st(1) show ?thesis by (auto elim!: safely_mono)
  qed
  have "safely (\<lambda>s'. conn_inv s' \<and> api_post (logged On_connection ?s1) s') (call_user user On_connection ?s1)"
    by (rule call_user_safe [OF assms(1) 1(2)]) simp
  from safely_andThen [OF this, of _ "call_user user On_close"] two assms(3) show ?thesis
    by (auto simp: handleClose_def 1(1))
qed

end

context poller begin

lemma handleRead_safe:
  assumes "user_ok upd user" and "conn_inv s" and "conn_state s \<in> {kConnected, kDisconnecting}" and "readv_ok rv"
  shows "safely (\<lambda>s'. conn_inv s' \<and> step_post s s') (handleRead True rv user upd t s)"
proof -
  obtain n r where nr: "readFd rv (tc_inputBuffer (cs_conn s)) = (n, r)" by fastforce
  have "buf_inv (tc_inputBuffer (cs_conn s))" using conn_inv_stream [OF assms(2)] by (simp add: stream_inv_def)
  from safely_readFd [OF this assms(4) nr] have r: "safely buf_inv r" .
  have "safely (\<lambda>s'. conn_inv s' \<and> step_post s s')
      (let s1 = s\<lparr>cs_conn := (cs_conn s)\<lparr>tc_inputBuffer := b\<rparr>\<rparr> in
        case n of Inr k \<Rightarrow> if k > 0 then call_user user (On_message t) s1 else handleClose True user upd s1
        | Inl e \<Rightarrow> Inr (handleError s1))" if "buf_inv b" for b
  proof -
    let ?s1 = "s\<lparr>cs_conn := (cs_conn s)\<lparr>tc_inputBuffer := b\<rparr>\<rparr>"
    have s1: "conn_inv ?s1" "conn_state ?s1 \<in> {kConnected, kDisconnecting}" "conn_state ?s1 \<noteq> kConnecting"
      using conn_inv_cong(4) [OF assms(2) that] assms(3) by auto
    have post: "step_post s u" if "step_post ?s1 u" for u
      using that by (simp add: step_post_def log_inv_def lifecycle_calls_def drained_def)
    have "safely (\<lambda>s'. conn_inv s' \<and> step_post s s') (call_user user (On_message t) ?s1)"
      using call_user_safe [OF assms(1) s1(1,3), of "On_message t"] by (rule safely_mono) (use api_post_logged post in blast)
    moreover have "safely (\<lambda>s'. conn_inv s' \<and> step_post s s') (handleClose True user upd ?s1)"
      using handleClose_safe [OF assms(1) s1(1,2)] by (rule safely_mono) (use post in blast)
    moreover have "step_post s ?s1" by (rule post) (simp add: api_post_step)
    ultimately show ?thesis using s1(1) by (auto simp: Let_def handleError_def split: sum.split)
  qed
  from safely_andThen [OF r this] show ?thesis by (simp add: handleRead_def nr)
qed

lemma output_drained_safe:
  assumes "owing ch [] s" and "content (tc_outputBuffer (cs_conn s)) = []"
  shows "\<exists>s'. output_drained upd s = Inr s' \<and> conn_inv s' \<and> step_post s s'
    \<and> conn_state s' = conn_state s \<and> cs_accepted s' = cs_accepted s \<and> tc_outputBuffer (cs_conn s') = tc_outputBuffer (cs_conn s)
    \<and> (conn_state s = kDisconnecting \<and> cs_fin s = None \<longrightarrow> cs_fin s' = Some (length (cs_accepted s)))"
proof -
  from assms have m: "event_mask (ch_events ch)" and live: "conn_state s \<in> {kConnected, kDisconnecting}"
    and w: "cs_written s = cs_accepted s" by (simp_all add: owing_def)
  from owing_events [OF assms(1), of "\<lambda>e. e AND NOT kWriteEvent"] event_mask_closed(4) [OF m] obtain p h ch' where
    o: "on_channel (disableWriting upd) s = Inr (s\<lparr>cs_poller := p, cs_chans := h\<rparr>)"
      "owing ch' [] (s\<lparr>cs_poller := p, cs_chans := h\<rparr>)" "ch_events ch' = ch_events ch AND NOT kWriteEvent"
    by (auto simp: disableWriting_def)
  let ?s1 = "s\<lparr>cs_poller := p, cs_chans := h\<rparr>"
  let ?s2 = "if tc_writeCompleteCallback (cs_conn ?s1) then queue_functor WriteComplete ?s1 else ?s1"
  have nw: "\<not> isWriting ch'" using o(3) writing_masks(4) [OF m] by (simp add: isWriting_def)
  have s2: "owing ch' [] ?s2" using o(2) by simp
  have inv2: "conn_inv ?s2" by (rule owing_nothing [OF s2]) (use nw assms(2) in \<open>simp add: watched_def\<close>)
  have fr: "api_frame s ?s2" "cs_fin ?s2 = cs_fin s" "cs_written ?s2 = cs_written s" "cs_accepted ?s2 = cs_accepted s"
    "conn_state ?s2 = conn_state s" by (simp_all add: api_frame_def)
  show ?thesis
  proof (cases "conn_state s = kDisconnecting")
    case False
    with o(1) inv2 api_frame_post [OF fr(1) drained_same [OF fr(2)]] show ?thesis by (auto simp: output_drained_def Let_def)
  next
    case True
    from shutdownInLoop_safe [OF inv2] True fr(5) obtain s' where
      s': "shutdownInLoop True ?s2 = Inr s'" "conn_inv s'" "api_frame ?s2 s'" "fin_step ?s2 s'" by auto
    have eq: "s' = Socket_shutdownWrite ?s2"
      using s'(1) nw s2 by (simp add: shutdownInLoop_def the_channel_def owing_def)
    have "api_frame s s'" "drained s s'"
      using api_frame_trans [OF fr(1) s'(3)] fin_step_drained [OF s'(4)] fr unfolding drained_def by auto
    then have "step_post s s'" by (rule api_frame_post)
    moreover have "cs_fin s' = Some (length (cs_accepted s))" if "cs_fin s = None"
      using that fr w by (simp add: eq Socket_shutdownWrite_def)
    moreover have "cs_conn s' = cs_conn s" "cs_accepted s' = cs_accepted s"
      by (simp_all add: eq Socket_shutdownWrite_def split: option.split)
    ultimately show ?thesis using o(1) s'(1,2) True by (auto simp: output_drained_def Let_def)
  qed
qed

text \<open>One write event: the kernel takes a prefix of the output buffer.\<close>

lemma handleWrite_step:
  assumes "conn_inv s" and "conn_state s \<in> {kConnected, kDisconnecting}" and "write_ok wr"
    and ne: "content (tc_outputBuffer (cs_conn s)) \<noteq> []"
    and n: "wr (content (tc_outputBuffer (cs_conn s))) = Inr n" "0 < n"
  shows "\<exists>s'. handleWrite True wr upd s = Inr s' \<and> conn_inv s' \<and> step_post s s'
    \<and> conn_state s' = conn_state s \<and> cs_accepted s' = cs_accepted s
    \<and> content (tc_outputBuffer (cs_conn s')) = drop n (content (tc_outputBuffer (cs_conn s)))
    \<and> (n < length (content (tc_outputBuffer (cs_conn s))) \<longrightarrow> cs_fin s' = cs_fin s)
    \<and> (n = length (content (tc_outputBuffer (cs_conn s))) \<and> conn_state s = kDisconnecting \<and> cs_fin s = None
         \<longrightarrow> cs_fin s' = Some (length (cs_accepted s)))"
proof -
  let ?b = "tc_outputBuffer (cs_conn s)"
  from conn_inv_owing [OF assms(1,2)] obtain ch where ch: "owing ch [] s" "watched ch ?b" by blast
  then have h: "cs_chans s (tc_channel (cs_conn s)) = Some ch" and b: "buf_inv ?b" by (simp_all add: owing_def)
  have le: "n \<le> length (content ?b)" using assms(3) n(1) by (simp add: write_ok_def)
  from retrieve_ok [OF b le] obtain b' where b': "retrieve n ?b = Inr b'" "buf_inv b'" "content b' = drop n (content ?b)" by blast
  let ?s1 = "s\<lparr>cs_conn := (cs_conn s)\<lparr>tc_outputBuffer := b'\<rparr>, cs_written := cs_written s @ take n (content ?b)\<rparr>"
  have owe: "owing ch [] ?s1" using ch(1) b' by (auto simp: owing_def)
  have w: "isWriting ch" using ch(2) ne by (simp add: watched_def)
  have data: "bytes_between ?b (peek ?b) (peek ?b + readableBytes ?b) = content ?b"
    using bytes_from_peek [OF b, of "length (content ?b)"] readableBytes_content [OF b] by simp
  have run: "handleWrite True wr upd s = (if content b' = [] then output_drained upd ?s1 else Inr ?s1)"
    using w n b'(1) readableBytes_content [OF b'(2)] by (simp add: handleWrite_def the_channel_Some [OF h] Let_def data)
  have post: "step_post s u" if "step_post ?s1 u" for u
    using that by (simp add: step_post_def log_inv_def lifecycle_calls_def drained_def)
  show ?thesis
  proof (cases "content b' = []")
    case True
    with b'(3) le have full: "n = length (content ?b)" by simp
    from output_drained_safe [OF owe] True obtain s' where
      "output_drained upd ?s1 = Inr s'" "conn_inv s'" "step_post ?s1 s'" "conn_state s' = conn_state s"
      "cs_accepted s' = cs_accepted s" "tc_outputBuffer (cs_conn s') = b'"
      "conn_state s = kDisconnecting \<and> cs_fin s = None \<longrightarrow> cs_fin s' = Some (length (cs_accepted s))" by auto
    with run True post full b'(3) show ?thesis by simp
  next
    case False
    then have "conn_inv ?s1" by (intro owing_nothing [OF owe]) (simp add: w watched_def)
    moreover have "step_post s ?s1" by (rule post) (simp add: api_post_step)
    moreover have "n < length (content ?b)" using False b'(3) by simp
    ultimately show ?thesis using run False b'(3) by simp
  qed
qed

lemma handleWrite_safe:
  assumes "conn_inv s" and "conn_state s \<noteq> kConnecting" and "write_ok wr"
  shows "\<exists>s'. handleWrite True wr upd s = Inr s' \<and> conn_inv s' \<and> step_post s s'"
proof (cases "conn_state s = kDisconnected")
  case True
  from conn_inv_closedD [OF assms(1) True] obtain ch where
    "cs_chans s (tc_channel (cs_conn s)) = Some ch" "ch_events ch = 0" by blast
  with assms(1) show ?thesis by (simp add: handleWrite_def the_channel_Some isWriting_def api_post_step)
next
  case False
  with assms(2) have live: "conn_state s \<in> {kConnected, kDisconnecting}" by (cases "conn_state s") auto
  let ?b = "tc_outputBuffer (cs_conn s)"
  from conn_inv_owing [OF assms(1) live] obtain ch where ch: "owing ch [] s" "watched ch ?b" by blast
  then have h: "cs_chans s (tc_channel (cs_conn s)) = Some ch" and b: "buf_inv ?b" by (simp_all add: owing_def)
  have data: "bytes_between ?b (peek ?b) (peek ?b + readableBytes ?b) = content ?b"
    using bytes_from_peek [OF b, of "length (content ?b)"] readableBytes_content [OF b] by simp
  show ?thesis
  proof (cases "content ?b \<noteq> [] \<and> (\<exists>n > 0. wr (content ?b) = Inr n)")
    case True
    with handleWrite_step [OF assms(1) live assms(3)] show ?thesis by blast
  next
    case no: False
    have "handleWrite True wr upd s = Inr s"
    proof (cases "isWriting ch")
      case True
      with ch(2) no show ?thesis
        by (cases "wr (content ?b)") (simp_all add: handleWrite_def the_channel_Some [OF h] Let_def data watched_def)
    qed (simp add: handleWrite_def the_channel_Some [OF h])
    with assms(1) show ?thesis by (simp add: api_post_step)
  qed
qed

end

context poller begin

lemma connectEstablished_safe:
  assumes "user_ok upd user" and "conn_inv s" and "conn_state s = kConnecting"
  shows "safely (\<lambda>s'. conn_inv s' \<and> step_post s s') (connectEstablished True user upd this s)"
proof -
  let ?a = "tc_channel (cs_conn s)" and ?fd = "tc_socket (cs_conn s)"
  from assms(2,3) obtain ch where ch: "inv (cs_poller s) (cs_chans s)" "cs_chans s ?a = Some ch" "ch_fd ch = ?fd"
    "event_mask (ch_events ch)" "0 \<le> ?fd" "ch_index ch = -1" "ch_events ch = 0" "channels (cs_poller s) ?fd = None"
    "content (tc_outputBuffer (cs_conn s)) = []" and st: "stream_inv s"
    by (auto simp: conn_inv_def chan_inv_def Let_def)
  let ?s1 = "(setState kConnected s)\<lparr>cs_chans := (cs_chans s)(?a \<mapsto> Channel_tie this ch)\<rparr>"
  have tie: "tie_channel this (setState kConnected s) = Inr ?s1" using ch(2) by (simp add: tie_channel_def the_channel_def)
  have "inv (cs_poller ?s1) (cs_chans ?s1)"
    using inv_cong [OF ch(1), of "cs_chans ?s1"] ch(2) by (auto simp: registration_def Channel_tie_def)
  from on_channel_new [OF this, of "Channel_tie this ch" "\<lambda>e. e OR kReadEvent"] ch obtain p h ch' where
    o: "on_channel (enableReading upd) ?s1 = Inr (?s1\<lparr>cs_poller := p, cs_chans := h\<rparr>)" "inv p h" "channels p ?fd = Some ?a"
      "h ?a = Some ch'" "ch_fd ch' = ?fd" "ch_events ch' = kReadEvent"
    by (auto simp: enableReading_def Channel_tie_def event_mask_def)
  let ?s2 = "?s1\<lparr>cs_poller := p, cs_chans := h\<rparr>"
  have "conn_inv ?s2"
    by (rule conn_invI [of _ ch'])
      (use o ch(9) st assms(3) in \<open>auto simp: watched_def isWriting_def event_mask_def event_masks stream_inv_def\<close>)
  from call_user_safe [OF assms(1) this, of On_connection]
  have "safely (\<lambda>s'. conn_inv s' \<and> step_post s s') (call_user user On_connection ?s2)"
  proof (rule safely_mono)
    fix s' assume a: "conn_inv s' \<and> api_post (logged On_connection ?s2) s'"
    then have s': "conn_state s' \<in> {kConnected, kDisconnecting}" "cs_calls s' = cs_calls s @ [On_connection]" "fin_step s s'"
      by (auto simp: api_post_def api_frame_def fin_step_def)
    from fin_step_drained [OF s'(3)] s'(1,2) assms(3) a show "conn_inv s' \<and> step_post s s'"
      by (auto simp: step_post_def log_inv_def lifecycle_calls_def calls_of_def)
  qed simp
  then show ?thesis using assms(3) by (simp add: connectEstablished_def tie o(1))
qed

lemma forceCloseInLoop_safe:
  assumes "user_ok upd user" and "conn_inv s"
  shows "safely (\<lambda>s'. conn_inv s' \<and> step_post s s') (forceCloseInLoop True user upd s)"
proof (cases "conn_state s \<in> {kConnected, kDisconnecting}")
  case True
  with handleClose_safe [OF assms True] show ?thesis by (auto simp: forceCloseInLoop_def elim!: safely_mono)
qed (use assms(2) in \<open>simp add: forceCloseInLoop_def api_post_step\<close>)

lemma run_functor_safe:
  assumes "user_ok upd user" and "conn_inv s" and "conn_state s \<noteq> kConnecting" and "write_ok wr"
    and "\<And>m. f = SendInLoop m \<Longrightarrow> fits m" and "f = ShutdownInLoop \<Longrightarrow> conn_state s \<in> {kDisconnecting, kDisconnected}"
    and "f = StartReadInLoop \<Longrightarrow> conn_state s \<noteq> kDisconnected"
  shows "safely (\<lambda>s'. conn_inv s' \<and> step_post s s') (run_functor wr user upd f s)"
proof (cases f)
  case (SendInLoop m)
  with sendInLoop_safe [OF assms(2-4) assms(5)] show ?thesis
    by (auto elim!: safely_mono intro: api_frame_post drained_same)
next
  case ShutdownInLoop
  from shutdownInLoop_safe [OF assms(2) assms(6) [OF this]] obtain s' where
    s': "shutdownInLoop True s = Inr s'" "conn_inv s'" "api_frame s s'" "conn_state s = kDisconnecting \<longrightarrow> fin_step s s'" by blast
  have "step_post s s'"
  proof (cases "conn_state s = kDisconnecting")
    case True
    with s' api_frame_post fin_step_drained show ?thesis by blast
  next
    case False
    with assms(6) [OF ShutdownInLoop] s'(3) show ?thesis
      by (auto simp: step_post_def api_frame_def lifecycle_calls_def intro: log_inv_frame)
  qed
  with s' ShutdownInLoop show ?thesis by simp
next
  case ForceCloseInLoop
  with forceCloseInLoop_safe [OF assms(1,2)] show ?thesis by simp
next
  case StartReadInLoop
  with assms(3,7) have "conn_state s \<in> {kConnected, kDisconnecting}" by (cases "conn_state s") auto
  from startReadInLoop_safe [OF assms(2) this] StartReadInLoop show ?thesis by (auto intro: api_post_step)
next
  case StopReadInLoop
  with stopReadInLoop_safe [OF assms(2,3)] show ?thesis by (auto intro: api_post_step)
next
  case WriteComplete
  with call_user_safe [OF assms(1-3), of On_writeComplete] show ?thesis
    by (auto elim!: safely_mono intro: api_post_logged)
next
  case (HighWaterMark n)
  with call_user_safe [OF assms(1-3), of "On_highWaterMark n"] show ?thesis
    by (auto elim!: safely_mono intro: api_post_logged)
qed

lemma conn_callback_safe:
  assumes "user_ok upd user" and "conn_inv s" and "readv_ok rv" and "write_ok wr"
    and "conn_state s \<in> {kConnected, kDisconnecting} \<or> (conn_state s = kDisconnected \<and> cb \<in> {WriteCallback, ErrorCallback})"
  shows "safely (\<lambda>s'. conn_inv s' \<and> step_post s s') (conn_callback rv wr user upd cb s)"
proof (cases cb)
  case CloseCallback
  with assms(5) handleClose_safe [OF assms(1,2)] show ?thesis by (auto elim!: safely_mono)
next
  case ErrorCallback
  with assms(2) show ?thesis by (simp add: handleError_def api_post_step)
next
  case (ReadCallback t)
  with assms(5) handleRead_safe [OF assms(1,2) _ assms(3), of t] show ?thesis by auto
next
  case WriteCallback
  with assms(5) handleWrite_safe [OF assms(2) _ assms(4)] show ?thesis by auto
qed

lemma pending_head:
  assumes "conn_inv s" and "cs_pending s = f # fs"
  shows "conn_inv (s\<lparr>cs_pending := fs\<rparr>)" and "f = SendInLoop m \<Longrightarrow> fits m"
    and "f = ShutdownInLoop \<Longrightarrow> conn_state s \<in> {kDisconnecting, kDisconnected}"
proof -
  show "conn_inv (s\<lparr>cs_pending := fs\<rparr>)" using conn_inv_cong(3) [OF assms(1), of fs] assms(2) by auto
  show "f = SendInLoop m \<Longrightarrow> fits m" "f = ShutdownInLoop \<Longrightarrow> conn_state s \<in> {kDisconnecting, kDisconnected}"
    using conn_inv_stream [OF assms(1)] assms(2) by (auto simp: stream_inv_def)
qed

lemma conn_step_inv:
  assumes "conn_step user upd s s'" and user: "user_ok upd user" and inv: "conn_inv s"
  shows "conn_inv s' \<and> step_post s s'"
  using assms(1)
proof cases
  case (established this)
  then have "conn_state s = kConnecting" by (simp add: connectEstablished_def assert_that_eq_Inr)
  from safely_InrD [OF connectEstablished_safe [OF user inv this] established] show ?thesis .
next
  case (other_thread c)
  from safely_InrD [OF api_call_safe [OF inv other_thread(1,2)] other_thread(4)] api_post_step show ?thesis by blast
next
  case (run_next f fs wr)
  note head = pending_head [OF inv run_next(2)]
  have "safely (\<lambda>u. conn_inv u \<and> step_post (s\<lparr>cs_pending := fs\<rparr>) u) (run_functor wr user upd f (s\<lparr>cs_pending := fs\<rparr>))"
    by (rule run_functor_safe [OF user head(1)]) (use run_next head(2,3) in simp_all)
  from safely_InrD [OF this run_next(5)] show ?thesis
    by (simp add: step_post_def log_inv_def lifecycle_calls_def drained_def)
next
  case (event cb rv wr)
  from safely_InrD [OF conn_callback_safe [OF user inv event(2,3,1)] event(4)] show ?thesis .
next
  case (delay_over ds d ds')
  from forceClose_safe [OF conn_inv_cong(1) [OF inv], of "ds @ ds'"] delay_over(1) show ?thesis
    using api_post_step [of "s\<lparr>cs_delayed := ds @ ds'\<rparr>" s']
    by (simp add: step_post_def log_inv_def lifecycle_calls_def drained_def)
qed

lemma conn_reachable:
  assumes "(conn_step user upd)\<^sup>*\<^sup>* s s'" and "user_ok upd user" and "conn_inv s" and "log_inv s"
  shows "conn_inv s' \<and> log_inv s' \<and> state_rank (conn_state s) \<le> state_rank (conn_state s')"
  using assms
proof (induction rule: rtranclp_induct)
  case (step y z)
  with conn_step_inv [OF step.hyps(2) step.prems(1)] show ?case by (auto simp: step_post_def)
qed simp

end

section \<open>New and dying connections\<close>

text \<open>A connection the owner has just created, with the callbacks it has set.\<close>

definition conn_start :: "bool \<Rightarrow> nat option \<Rightarrow> TcpConnection \<Rightarrow> 'p \<Rightarrow> chans \<Rightarrow> 'p conn_sys" where
  "conn_start wc hwm c p h =
     (let c1 = (if wc then setWriteCompleteCallback c else c);
          c2 = (case hwm of None \<Rightarrow> c1 | Some n \<Rightarrow> setHighWaterMarkCallback n c1)
      in \<lparr>cs_conn = c2, cs_poller = p, cs_chans = h, cs_pending = [], cs_delayed = [], cs_written = [], cs_fin = None,
          cs_accepted = [], cs_calls = []\<rparr>)"

lemma conn_start_simps [simp]:
  "cs_poller (conn_start wc hwm c p h) = p" "cs_chans (conn_start wc hwm c p h) = h" "cs_pending (conn_start wc hwm c p h) = []"
  "cs_written (conn_start wc hwm c p h) = []" "cs_fin (conn_start wc hwm c p h) = None"
  "cs_accepted (conn_start wc hwm c p h) = []" "cs_calls (conn_start wc hwm c p h) = []"
  "tc_state (cs_conn (conn_start wc hwm c p h)) = tc_state c" "tc_channel (cs_conn (conn_start wc hwm c p h)) = tc_channel c"
  "tc_socket (cs_conn (conn_start wc hwm c p h)) = tc_socket c"
  "tc_outputBuffer (cs_conn (conn_start wc hwm c p h)) = tc_outputBuffer c"
  "tc_inputBuffer (cs_conn (conn_start wc hwm c p h)) = tc_inputBuffer c"
  by (simp_all add: conn_start_def Let_def setWriteCompleteCallback_def setHighWaterMarkCallback_def split: option.split)

lemma TcpConnection_newD:
  assumes "TcpConnection_new loop name fd la pa a h = Inr (c, h')"
  shows "tc_state c = kConnecting" "tc_channel c = a" "tc_socket c = fd" "buf_inv (tc_outputBuffer c)" "buf_inv (tc_inputBuffer c)"
    "content (tc_outputBuffer c) = []"
    "\<exists>ch. h' = h(a \<mapsto> ch) \<and> ch_fd ch = fd \<and> ch_index ch = -1 \<and> ch_events ch = 0"
proof -
  from Buffer_new_default obtain b where b: "Buffer_new kInitialSize = Inr b" "buf_inv b" "content b = []" by blast
  from assms b show "tc_state c = kConnecting" "tc_channel c = a" "tc_socket c = fd" "buf_inv (tc_outputBuffer c)"
    "buf_inv (tc_inputBuffer c)" "content (tc_outputBuffer c) = []"
    by (auto simp: TcpConnection_new_def)
  from assms b show "\<exists>ch. h' = h(a \<mapsto> ch) \<and> ch_fd ch = fd \<and> ch_index ch = -1 \<and> ch_events ch = 0"
    by (auto simp: TcpConnection_new_def setErrorCallback_def setCloseCallback_def setWriteCallback_def setReadCallback_def Channel_new_def)
qed

context poller begin

lemma conn_start_inv:
  assumes "inv p h" and "h a = None" and "channels p fd = None" and "0 \<le> fd"
    and "TcpConnection_new loop name fd la pa a h = Inr (c, h')"
  shows "conn_inv (conn_start wc hwm c p h') \<and> log_inv (conn_start wc hwm c p h')"
proof -
  note c = TcpConnection_newD [OF assms(5)]
  have "inv p h'"
    using c(7) assms(2) inv_channels [OF assms(1)] by (intro inv_cong [OF assms(1)]) fastforce
  with c assms(3,4) show ?thesis
    by (auto simp: conn_inv_def chan_inv_def stream_inv_def log_inv_def lifecycle_calls_def calls_of_def)
qed

text \<open>Every state a connection reaches.\<close>

lemma conn_life:
  assumes "inv p h" and "h a = None" and "channels p fd = None" and "0 \<le> fd"
    and "TcpConnection_new loop name fd la pa a h = Inr (c, h')" and "user_ok upd user"
    and "(conn_step user upd)\<^sup>*\<^sup>* (conn_start wc hwm c p h') s"
  shows "conn_inv s \<and> log_inv s"
  using conn_reachable [OF assms(7,6)] conn_start_inv [OF assms(1-5)] by blast

lemma conn_life_stream:
  assumes "conn_inv s" and "log_inv s"
  shows "cs_written s @ content (tc_outputBuffer (cs_conn s)) = cs_accepted s
    \<and> filter (\<lambda>e. e = On_connection \<or> e = On_close) (cs_calls s) = calls_of (conn_state s)
    \<and> (conn_state s \<in> {kConnected, kDisconnecting} \<longrightarrow>
         (\<exists>e. monitored (cs_poller s) (tc_socket (cs_conn s)) = Some (tc_channel (cs_conn s), e) \<and> e AND kWriteEvent \<noteq> 0)
           = (content (tc_outputBuffer (cs_conn s)) \<noteq> []))
    \<and> (conn_state s \<in> {kConnecting, kDisconnected} \<longrightarrow> monitored (cs_poller s) (tc_socket (cs_conn s)) = None)"
proof -
  have stream: "cs_written s @ content (tc_outputBuffer (cs_conn s)) = cs_accepted s"
    using conn_inv_stream [OF assms(1)] by (simp add: stream_inv_def)
  have i: "inv (cs_poller s) (cs_chans s)" using assms(1) by (simp add: conn_inv_def chan_inv_def Let_def)
  have live: "(\<exists>e. monitored (cs_poller s) (tc_socket (cs_conn s)) = Some (tc_channel (cs_conn s), e) \<and> e AND kWriteEvent \<noteq> 0)
           = (content (tc_outputBuffer (cs_conn s)) \<noteq> [])" if l: "conn_state s \<in> {kConnected, kDisconnecting}"
  proof -
    from conn_inv_live [OF assms(1) l] obtain ch where
      "cs_chans s (tc_channel (cs_conn s)) = Some ch" "watched ch (tc_outputBuffer (cs_conn s))"
      "channels (cs_poller s) (tc_socket (cs_conn s)) = Some (tc_channel (cs_conn s))" by blast
    then show ?thesis using inv_monitored [OF i, of "tc_socket (cs_conn s)"] by (auto simp: watched_def isWriting_def)
  qed
  have "monitored (cs_poller s) (tc_socket (cs_conn s)) = None" if "conn_state s \<in> {kConnecting, kDisconnected}"
    using that assms(1) inv_monitored [OF i, of "tc_socket (cs_conn s)"]
    by (auto simp: conn_inv_def chan_inv_def Let_def)
  with stream live assms(2) show ?thesis by (simp add: log_inv_def lifecycle_calls_def)
qed

text \<open>Write events drain the output buffer.\<close>

lemma output_drains:
  assumes "conn_inv s" and "conn_state s = kDisconnecting" and "write_ok wr" and "\<And>d. d \<noteq> [] \<Longrightarrow> \<exists>n > 0. wr d = Inr n"
    and "content (tc_outputBuffer (cs_conn s)) \<noteq> []" and "cs_fin s = None"
  shows "\<exists>k s'. k \<le> length (content (tc_outputBuffer (cs_conn s))) \<and> rounds (handleWrite True wr upd) k s = Inr s'
    \<and> cs_written s' = cs_accepted s \<and> content (tc_outputBuffer (cs_conn s')) = [] \<and> cs_fin s' = Some (length (cs_accepted s))"
  using assms
proof (induction "length (content (tc_outputBuffer (cs_conn s)))" arbitrary: s rule: less_induct)
  case less
  let ?c = "content (tc_outputBuffer (cs_conn s))"
  from less.prems(4,5) obtain n where n: "0 < n" "wr ?c = Inr n" by blast
  with less.prems(3) have le: "n \<le> length ?c" by (simp add: write_ok_def)
  from handleWrite_step [OF less.prems(1) _ less.prems(3,5) n(2,1)] less.prems(2) obtain s1 where
    s1: "handleWrite True wr upd s = Inr s1" "conn_inv s1" "conn_state s1 = kDisconnecting" "cs_accepted s1 = cs_accepted s"
      "content (tc_outputBuffer (cs_conn s1)) = drop n ?c" "n < length ?c \<longrightarrow> cs_fin s1 = cs_fin s"
      "n = length ?c \<and> cs_fin s = None \<longrightarrow> cs_fin s1 = Some (length (cs_accepted s))" by auto
  show ?case
  proof (cases "n = length ?c")
    case True
    then have "content (tc_outputBuffer (cs_conn s1)) = []" using s1(5) by simp
    moreover from this have "cs_written s1 = cs_accepted s"
      using conn_inv_stream [OF s1(2)] s1(4) by (simp add: stream_inv_def)
    moreover have "1 \<le> length ?c" using n(1) le by linarith
    ultimately show ?thesis using True s1(1,7) less.prems(6) by (intro exI [of _ 1] exI [of _ s1]) simp
  next
    case False
    with le have lt: "n < length ?c" by simp
    have "length (content (tc_outputBuffer (cs_conn s1))) < length ?c" using s1(5) n(1) lt by simp
    from less.hyps [OF this s1(2,3) less.prems(3,4)] s1 lt less.prems(6) obtain k s' where
      k: "k \<le> length (drop n ?c)" "rounds (handleWrite True wr upd) k s1 = Inr s'"
        "cs_written s' = cs_accepted s" "content (tc_outputBuffer (cs_conn s')) = []" "cs_fin s' = Some (length (cs_accepted s))"
      by auto
    have "rounds (handleWrite True wr upd) (Suc k) s = Inr s'" using s1(1) k(2) by simp
    moreover have "Suc k \<le> length ?c" using k(1) n(1) lt by simp
    ultimately show ?thesis using k(3-5) by blast
  qed
qed

text \<open>The last act: the channel leaves the poller.\<close>

lemma connectDestroyed_ok:
  assumes "conn_inv s" and "conn_state s = kDisconnected"
  shows "\<exists>s'. connectDestroyed True user upd rem s = Inr s' \<and> inv (cs_poller s') (cs_chans s')
    \<and> channels (cs_poller s') (tc_socket (cs_conn s)) = None \<and> cs_conn s' = cs_conn s"
proof -
  let ?a = "tc_channel (cs_conn s)"
  from conn_inv_closedD [OF assms] obtain ch where ch: "inv (cs_poller s) (cs_chans s)" "cs_chans s ?a = Some ch"
    "channels (cs_poller s) (ch_fd ch) = Some ?a" "ch_events ch = 0" "removable (cs_poller s) (cs_chans s) ?a"
    "ch_fd ch = tc_socket (cs_conn s)" by auto
  from remove_removable [OF ch(1-5), of "(cs_chans s)(?a \<mapsto> ch\<lparr>ch_addedToLoop := False\<rparr>)" False] obtain p h where
    "rem ?a (cs_poller s, (cs_chans s)(?a \<mapsto> ch\<lparr>ch_addedToLoop := False\<rparr>)) = Inr (p, h)" "inv p h"
    "channels p = (channels (cs_poller s))(ch_fd ch := None)" by blast
  with ch assms(2) show ?thesis
    by (simp add: connectDestroyed_def on_channel_def Channel_remove_def isNoneEvent_def kNoneEvent_def)
qed

text \<open>Reading switched on after the close keeps the channel from being removed.\<close>

lemma startRead_closed_aborts:
  assumes "conn_inv s" and "conn_state s = kDisconnected"
  shows "andThen (startReadInLoop True upd s) (connectDestroyed True user upd rem') = Inl (Assert_failed ''isNoneEvent()'')"
proof -
  let ?a = "tc_channel (cs_conn s)"
  from conn_inv_closedD [OF assms] obtain ch where ch: "inv (cs_poller s) (cs_chans s)" "cs_chans s ?a = Some ch"
    "channels (cs_poller s) (ch_fd ch) = Some ?a" "ch_events ch = 0" by auto
  from on_channel_live [OF ch(1-3), of "\<lambda>e. e OR kReadEvent"] ch(4) obtain p h ch' where
    o: "on_channel (enableReading upd) s = Inr (s\<lparr>cs_poller := p, cs_chans := h\<rparr>)" "h ?a = Some ch'" "ch_events ch' = kReadEvent"
    by (auto simp: enableReading_def event_mask_def)
  have "\<not> isReading ch" using ch(4) by (simp add: isReading_def)
  with o ch(2) assms(2) show ?thesis
    by (simp add: startReadInLoop_def the_channel_Some connectDestroyed_def on_channel_def Channel_remove_def isNoneEvent_def event_masks)
qed

end

section \<open>Connections on epoll\<close>

text \<open>The states a connection goes through from its construction, in a loop with the default poller.\<close>

definition epoll_connection ::
  "('k \<Rightarrow> int \<Rightarrow> epoll_event option) \<Rightarrow> 'k epoll_ctl_call \<Rightarrow> 'k EPollPoller user_callbacks \<Rightarrow> 'k EPollPoller conn_sys \<Rightarrow> bool" where
  "epoll_connection interest ctl user s \<longleftrightarrow>
     (\<exists>p h a fd loop name la pa c h' wc hwm. ep_inv interest p h \<and> h a = None \<and> ep_channels p fd = None \<and> 0 \<le> fd
        \<and> TcpConnection_new loop name fd la pa a h = Inr (c, h')
        \<and> (conn_step user (EPollPoller_updateChannel ctl True))\<^sup>*\<^sup>* (conn_start wc hwm c p h') s)"

abbreviation epoll_conn_inv :: "('k \<Rightarrow> int \<Rightarrow> epoll_event option) \<Rightarrow> 'k EPollPoller conn_sys \<Rightarrow> bool" where
  "epoll_conn_inv interest \<equiv> poller.conn_inv (ep_inv interest) ep_channels ep_removable"

lemma epoll_connection_inv:
  assumes "epoll_ctl_ok interest ctl" and "user_ok (EPollPoller_updateChannel ctl True) user"
    and "epoll_connection interest ctl user s"
  shows "epoll_conn_inv interest s \<and> log_inv s"
proof -
  from assms(3) obtain p h a fd loop name la pa c h' wc hwm where "ep_inv interest p h" "h a = None" "ep_channels p fd = None"
    "0 \<le> fd" "TcpConnection_new loop name fd la pa a h = Inr (c, h')"
    "(conn_step user (EPollPoller_updateChannel ctl True))\<^sup>*\<^sup>* (conn_start wc hwm c p h') s"
    unfolding epoll_connection_def by blast
  then show ?thesis using poller.conn_life [OF epoll_is_poller [OF assms(1)] _ _ _ _ _ assms(2)] by blast
qed

section \<open>A sample run\<close>

text \<open>
  A user that sends five bytes and shuts down as soon as it is connected, with a kernel that takes at
  most two bytes at a time.
\<close>

definition two :: write_call where
  "two d = Inr (min 2 (length d))"

definition greeter :: "'p chan_call \<Rightarrow> 'p user_callbacks" where
  "greeter upd ev s = for_each (api_call True upd)
     (if ev = On_connection \<and> conn_state s = kConnected then [Send two ''hello'', Shutdown] else []) s"

lemma two_ok: "write_ok two" "d \<noteq> [] \<Longrightarrow> \<exists>n > 0. two d = Inr n"
  by (auto simp: write_ok_def two_def)

lemma greeter_ok: "user_ok (upd :: 'p chan_call) (greeter upd)"
  unfolding user_ok_def
proof (intro allI)
  fix ev and s :: "'p conn_sys"
  let ?cs = "if ev = On_connection \<and> conn_state s = kConnected then [Send two ''hello'', Shutdown] else []"
  have "calls_allowed upd ?cs s"
    by (auto simp: two_ok fits_def vector_max_size_def split: sum.split)
  then show "\<exists>calls. calls_allowed upd calls s \<and> greeter upd ev s = for_each (api_call True upd) calls s"
    unfolding greeter_def by blast
qed

abbreviation sample_upd :: "(int \<Rightarrow> epoll_event option) EPollPoller chan_call" where
  "sample_upd \<equiv> EPollPoller_updateChannel table_ctl True"

definition init_buffer :: Buffer where
  "init_buffer = \<lparr>buffer = replicate 1032 (CHR 0x00), readerIndex = 8, writerIndex = 8\<rparr>"

lemma init_buffer: "Buffer_new kInitialSize = Inr init_buffer" "buf_inv init_buffer" "content init_buffer = []"
  by (simp_all add: Buffer_new_def init_buffer_def kInitialSize_def kCheapPrepend_def vector_max_size_def readableBytes_def
      writableBytes_def prependableBytes_def buf_inv_def content_def bytes_between_def)

definition sample_conn :: TcpConnection where
  "sample_conn = \<lparr>tc_loop = 100, tc_name = ''c'', tc_state = kConnecting, tc_reading = True, tc_socket = 5, tc_channel = 1,
     tc_localAddr = memZero, tc_peerAddr = memZero, tc_writeCompleteCallback = False, tc_highWaterMarkCallback = False,
     tc_highWaterMark = 64 * 1024 * 1024, tc_inputBuffer = init_buffer, tc_outputBuffer = init_buffer\<rparr>"

definition conn_channel :: Channel where
  "conn_channel = setErrorCallback (setCloseCallback (setWriteCallback (setReadCallback (Channel_new 100 5))))"

lemma sample_new: "TcpConnection_new 100 ''c'' 5 memZero memZero 1 Map.empty = Inr (sample_conn, [1 \<mapsto> conn_channel])"
  by (simp add: TcpConnection_new_def init_buffer sample_conn_def conn_channel_def)

definition sample_start :: "(int \<Rightarrow> epoll_event option) EPollPoller conn_sys" where
  "sample_start = conn_start False None sample_conn (empty_epoll Map.empty) [1 \<mapsto> conn_channel]"

definition hello_buffer :: Buffer where
  "hello_buffer = init_buffer\<lparr>buffer := copy_at 8 ''llo'' (replicate 1032 (CHR 0x00)), writerIndex := 11\<rparr>"

lemma hello_append: "Buffer_append ''llo'' (Suc (Suc (Suc 0))) init_buffer = Inr hello_buffer"
  using append_in_place [OF init_buffer(2), of 3 "''llo''"] by (simp add: hello_buffer_def init_buffer_def numeral_3_eq_3)

lemma init_buffer_empty: "readableBytes init_buffer = 0"
  using readableBytes_content [OF init_buffer(2)] init_buffer(3) by simp

lemmas conn_channel_defs = conn_channel_def setErrorCallback_def setCloseCallback_def setWriteCallback_def setReadCallback_def
  Channel_new_def Channel_tie_def

lemmas epoll_run_defs = on_channel_def with_events_def Channel_update_def EPollPoller_updateChannel_def EPollPoller_update_def
  kNew_def kAdded_def kDeleted_def set_index_def isNoneEvent_def event_masks

text \<open>The state when the connection callback runs.\<close>

definition sample_up :: "(int \<Rightarrow> epoll_event option) EPollPoller conn_sys" where
  "sample_up = sample_start\<lparr>cs_conn := sample_conn\<lparr>tc_state := kConnected\<rparr>,
     cs_poller := (empty_epoll [5 \<mapsto> \<lparr>ev_events = 3, ev_ptr = 1\<rparr>])\<lparr>ep_channels := [5 \<mapsto> 1]\<rparr>,
     cs_chans := [1 \<mapsto> (Channel_tie 9 conn_channel)\<lparr>ch_events := 3, ch_addedToLoop := True, ch_index := kAdded\<rparr>],
     cs_calls := [On_connection]\<rparr>"

lemma sample_established:
  "connectEstablished True user sample_upd 9 sample_start = user On_connection sample_up"
  by (simp add: connectEstablished_def sample_start_def sample_up_def conn_start_def sample_conn_def tie_channel_def the_channel_def
      setState_def Let_def enableReading_def epoll_run_defs conn_channel_defs empty_epoll_def call_user_def)

lemma sample_sent:
  "\<exists>s. greeter sample_upd On_connection sample_up = Inr s \<and> conn_state s = kDisconnecting
     \<and> cs_written s = ''he'' \<and> cs_accepted s = ''hello'' \<and> cs_fin s = None \<and> tc_outputBuffer (cs_conn s) = hello_buffer
     \<and> (\<exists>ch. cs_chans s (tc_channel (cs_conn s)) = Some ch \<and> isReading ch)"
  by (simp add: isReading_def greeter_def sample_up_def send_def sendInLoop_def the_channel_def sample_conn_def sample_start_def conn_start_def
    isWriting_def direct_write_def two_def buffer_rest_def hello_append init_buffer_empty conn_channel_defs enableWriting_def epoll_run_defs Let_def empty_epoll_def
    shutdown_def shutdownInLoop_def setState_def)

lemma epoll_connectionI:
  assumes "ep_inv interest p h" "h a = None" "ep_channels p fd = None" "0 \<le> fd"
    "TcpConnection_new loop name fd la pa a h = Inr (c, h')"
    "(conn_step user (EPollPoller_updateChannel ctl True))\<^sup>*\<^sup>* (conn_start wc hwm c p h') s"
  shows "epoll_connection interest ctl user s"
  unfolding epoll_connection_def using assms by blast

lemma sample_connection:
  "\<exists>s. epoll_connection (\<lambda>k. k) table_ctl (greeter sample_upd) s \<and> conn_state s = kDisconnecting
     \<and> cs_written s = ''he'' \<and> cs_accepted s = ''hello'' \<and> cs_fin s = None \<and> tc_outputBuffer (cs_conn s) = hello_buffer
     \<and> (\<exists>ch. cs_chans s (tc_channel (cs_conn s)) = Some ch \<and> isReading ch)"
proof -
  from sample_sent obtain s where s: "greeter sample_upd On_connection sample_up = Inr s" "conn_state s = kDisconnecting"
    "cs_written s = ''he''" "cs_accepted s = ''hello''" "cs_fin s = None" "tc_outputBuffer (cs_conn s) = hello_buffer"
    "\<exists>ch. cs_chans s (tc_channel (cs_conn s)) = Some ch \<and> isReading ch" by blast
  have "conn_step (greeter sample_upd) sample_upd sample_start s"
    by (rule conn_step.established [of _ _ 9]) (simp add: sample_established s(1))
  then have "(conn_step (greeter sample_upd) sample_upd)\<^sup>*\<^sup>* (conn_start False None sample_conn (empty_epoll Map.empty) [1 \<mapsto> conn_channel]) s"
    unfolding sample_start_def by (rule r_into_rtranclp)
  moreover have "ep_inv (\<lambda>k. k) (empty_epoll Map.empty) Map.empty" by (rule empty_epoll_inv) simp
  ultimately have "epoll_connection (\<lambda>k. k) table_ctl (greeter sample_upd) s"
    by (intro epoll_connectionI [OF _ _ _ _ sample_new]) (simp_all add: empty_epoll_inv(2))
  with s show ?thesis by blast
qed

lemma hello_content: "content hello_buffer = ''llo''"
  using append_ok [OF init_buffer(2), of 3 "''llo''"] hello_append init_buffer(3)
  by (simp add: has_room_def init_buffer_def numeral_3_eq_3)

section \<open>Properties\<close>

text \<open>C3. The bytes a connection was given to send and did not refuse are, at every moment, exactly the
  bytes the kernel has taken followed by the bytes in the output buffer: none is lost, repeated or
  reordered, whichever threads send and whatever the kernel accepts at a time. While the connection is
  live the poller watches the socket for writability exactly when the output buffer is not empty, and
  before and after that it watches it for nothing. The connection callback is called once when the
  connection comes up and once when it goes down, followed by one call of the close callback.\<close>

theorem connection_stream:
  assumes "epoll_ctl_ok interest ctl" and "user_ok (EPollPoller_updateChannel ctl True) user"
    and "epoll_connection interest ctl user s"
  shows "cs_written s @ content (tc_outputBuffer (cs_conn s)) = cs_accepted s
    \<and> filter (\<lambda>e. e = On_connection \<or> e = On_close) (cs_calls s) = calls_of (conn_state s)
    \<and> (conn_state s \<in> {kConnected, kDisconnecting} \<longrightarrow>
         (\<exists>e. ep_monitored interest (cs_poller s) (tc_socket (cs_conn s)) = Some (tc_channel (cs_conn s), e) \<and> e AND kWriteEvent \<noteq> 0)
           = (content (tc_outputBuffer (cs_conn s)) \<noteq> []))
    \<and> (conn_state s \<in> {kConnecting, kDisconnected} \<longrightarrow> ep_monitored interest (cs_poller s) (tc_socket (cs_conn s)) = None)"
  using poller.conn_life_stream [OF epoll_is_poller [OF assms(1)]] epoll_connection_inv [OF assms] by blast

theorem connection_stream_witness:
  "\<exists>s. epoll_connection (\<lambda>k. k) table_ctl (greeter sample_upd) s \<and> cs_written s = ''he''
     \<and> cs_written s @ content (tc_outputBuffer (cs_conn s)) = ''hello'' \<and> cs_accepted s = ''hello''
     \<and> (\<exists>e. ep_monitored (\<lambda>k. k) (cs_poller s) (tc_socket (cs_conn s)) = Some (tc_channel (cs_conn s), e) \<and> e AND kWriteEvent \<noteq> 0)"
proof -
  from sample_connection obtain s where s: "epoll_connection (\<lambda>k. k) table_ctl (greeter sample_upd) s" "conn_state s = kDisconnecting"
    "cs_written s = ''he''" "cs_accepted s = ''hello''" "tc_outputBuffer (cs_conn s) = hello_buffer" by blast
  from connection_stream [OF table_ctl_ok greeter_ok s(1)] s hello_content show ?thesis
    by (intro exI [of _ s]) simp
qed



text \<open>C10. Shutting down is graceful: when a step of a connection that is not closed shuts the write side
  of the socket down, the kernel has by then been given every byte accepted before, so the peer
  receives them all ahead of the end of the stream; and the write side is shut down at most once.\<close>

theorem graceful_shutdown:
  assumes "epoll_ctl_ok interest ctl" and "user_ok (EPollPoller_updateChannel ctl True) user"
    and "epoll_connection interest ctl user s" and "conn_state s \<noteq> kDisconnected"
    and "conn_step user (EPollPoller_updateChannel ctl True) s s'"
  shows "(cs_fin s = None \<and> cs_fin s' \<noteq> None \<longrightarrow> cs_fin s' = Some (length (cs_accepted s')) \<and> cs_written s' = cs_accepted s')
    \<and> (cs_fin s \<noteq> None \<longrightarrow> cs_fin s' = cs_fin s)"
proof -
  from epoll_connection_inv [OF assms(1-3)] have inv: "epoll_conn_inv interest s" by blast
  from poller.conn_step_inv [OF epoll_is_poller [OF assms(1)] assms(5,2) inv] assms(4) show ?thesis
    by (simp add: step_post_def drained_def)
qed

theorem graceful_shutdown_witness:
  "\<exists>s s'. conn_step (greeter sample_upd) sample_upd s s' \<and> cs_written s = ''he'' \<and> cs_fin s = None
     \<and> cs_written s' = ''hello'' \<and> cs_fin s' = Some 5"
proof -
  from sample_connection obtain s where s: "epoll_connection (\<lambda>k. k) table_ctl (greeter sample_upd) s" "conn_state s = kDisconnecting"
    "cs_written s = ''he''" "cs_accepted s = ''hello''" "cs_fin s = None" "tc_outputBuffer (cs_conn s) = hello_buffer" by blast
  have wr: "write_ok (\<lambda>d. Inr (length d))" by (simp add: write_ok_def)
  from poller.handleWrite_step [OF epoll_is_poller [OF table_ctl_ok] _ _ wr, of s 3] epoll_connection_inv [OF table_ctl_ok greeter_ok s(1)]
    s hello_content obtain s' where s': "handleWrite True (\<lambda>d. Inr (length d)) sample_upd s = Inr s'" "cs_accepted s' = ''hello''"
      "cs_fin s' = Some 5" by auto
  have "conn_step (greeter sample_upd) sample_upd s s'"
    by (rule conn_step.event [of _ WriteCallback "\<lambda>iov. Inr []", OF _ _ wr]) (use s(2) s'(1) in \<open>simp_all add: readv_ok_def\<close>)
  with graceful_shutdown [OF table_ctl_ok greeter_ok s(1) _ this] s s' show ?thesis by auto
qed

text \<open>C11. A connection that is shutting down with data in its output buffer gets rid of it: if each
  write takes at least one byte, after at most as many write events as there are bytes the buffer is
  empty, every accepted byte has been written, and the write side has been shut down behind the last.\<close>

theorem shutdown_completes:
  assumes "epoll_ctl_ok interest ctl" and "user_ok (EPollPoller_updateChannel ctl True) user"
    and "epoll_connection interest ctl user s" and "conn_state s = kDisconnecting" and "cs_fin s = None"
    and "content (tc_outputBuffer (cs_conn s)) \<noteq> []" and "write_ok wr" and "\<And>d. d \<noteq> [] \<Longrightarrow> \<exists>n > 0. wr d = Inr n"
  shows "\<exists>k s'. k \<le> length (content (tc_outputBuffer (cs_conn s)))
    \<and> rounds (handleWrite True wr (EPollPoller_updateChannel ctl True)) k s = Inr s'
    \<and> content (tc_outputBuffer (cs_conn s')) = [] \<and> cs_written s' = cs_accepted s \<and> cs_fin s' = Some (length (cs_accepted s))"
proof -
  from epoll_connection_inv [OF assms(1-3)] have inv: "epoll_conn_inv interest s" by blast
  from poller.output_drains [OF epoll_is_poller [OF assms(1)] inv assms(4,7,8,6,5)] show ?thesis by blast
qed

theorem shutdown_completes_witness:
  "\<exists>s k s'. conn_state s = kDisconnecting \<and> cs_written s = ''he'' \<and> k \<le> 3
     \<and> rounds (handleWrite True two sample_upd) k s = Inr s' \<and> cs_written s' = ''hello'' \<and> cs_fin s' = Some 5"
proof -
  from sample_connection obtain s where s: "epoll_connection (\<lambda>k. k) table_ctl (greeter sample_upd) s" "conn_state s = kDisconnecting"
    "cs_written s = ''he''" "cs_accepted s = ''hello''" "cs_fin s = None" "tc_outputBuffer (cs_conn s) = hello_buffer" by blast
  from shutdown_completes [OF table_ctl_ok greeter_ok s(1,2,5) _ two_ok] s(6) hello_content obtain k s' where
    "k \<le> length ''llo''" "rounds (handleWrite True two sample_upd) k s = Inr s'" "cs_written s' = cs_accepted s"
    "cs_fin s' = Some (length (cs_accepted s))" by auto
  with s show ?thesis by (intro exI [of _ s] exI [of _ k] exI [of _ s']) simp
qed


text \<open>C31. Destroying a connection. A closed connection is taken out of the poller and its destructor's
  assertion holds. But \<^verbatim>\<open>connectDestroyed\<close> only closes a connection that is still connected: one that is
  shutting down while it reads, which a server being destroyed can still hold, aborts in
  \<^verbatim>\<open>Channel::remove\<close>; and so does a closed connection on which \<^verbatim>\<open>startReadInLoop\<close> ran after the close,
  because that function looks at the channel and not at the state of the connection.\<close>

theorem close_races_abort:
  assumes "epoll_ctl_ok interest ctl" and "user_ok (EPollPoller_updateChannel ctl True) user"
    and "epoll_connection interest ctl user s"
  shows "(conn_state s = kDisconnected \<longrightarrow>
      (\<exists>s'. connectDestroyed True user (EPollPoller_updateChannel ctl True) (EPollPoller_removeChannel ctl True) s = Inr s'
        \<and> ep_channels (cs_poller s') (tc_socket (cs_conn s)) = None \<and> TcpConnection_delete (cs_conn s') = Inr ()))
    \<and> (conn_state s = kDisconnecting \<and> cs_chans s (tc_channel (cs_conn s)) = Some ch \<and> isReading ch \<longrightarrow>
      connectDestroyed True user (EPollPoller_updateChannel ctl True) (EPollPoller_removeChannel ctl True) s
        = Inl (Assert_failed ''isNoneEvent()''))
    \<and> (conn_state s = kDisconnected \<longrightarrow>
      andThen (startReadInLoop True (EPollPoller_updateChannel ctl True) s)
        (connectDestroyed True user (EPollPoller_updateChannel ctl True) (EPollPoller_removeChannel ctl True))
        = Inl (Assert_failed ''isNoneEvent()''))"
proof (intro conjI impI)
  note p = epoll_is_poller [OF assms(1)]
  from epoll_connection_inv [OF assms] have inv: "epoll_conn_inv interest s" by blast
  show "\<exists>s'. connectDestroyed True user (EPollPoller_updateChannel ctl True) (EPollPoller_removeChannel ctl True) s = Inr s'
        \<and> ep_channels (cs_poller s') (tc_socket (cs_conn s)) = None \<and> TcpConnection_delete (cs_conn s') = Inr ()"
    if "conn_state s = kDisconnected"
    using poller.connectDestroyed_ok [OF p inv that, of user] that by (auto simp: TcpConnection_delete_def)
  show "connectDestroyed True user (EPollPoller_updateChannel ctl True) (EPollPoller_removeChannel ctl True) s
        = Inl (Assert_failed ''isNoneEvent()'')"
    if "conn_state s = kDisconnecting \<and> cs_chans s (tc_channel (cs_conn s)) = Some ch \<and> isReading ch"
    using that isReading_mask [of ch] by (simp add: connectDestroyed_def on_channel_def Channel_remove_def isNoneEvent_def kNoneEvent_def)
  show "andThen (startReadInLoop True (EPollPoller_updateChannel ctl True) s)
        (connectDestroyed True user (EPollPoller_updateChannel ctl True) (EPollPoller_removeChannel ctl True))
        = Inl (Assert_failed ''isNoneEvent()'')"
    if "conn_state s = kDisconnected" by (rule poller.startRead_closed_aborts [OF p inv that])
qed

theorem close_races_abort_witness:
  "\<exists>s. conn_state s = kDisconnecting \<and>
     connectDestroyed True (greeter sample_upd) sample_upd (EPollPoller_removeChannel table_ctl True) s
       = Inl (Assert_failed ''isNoneEvent()'')"
proof -
  from sample_connection obtain s ch where s: "epoll_connection (\<lambda>k. k) table_ctl (greeter sample_upd) s"
    "conn_state s = kDisconnecting" "cs_chans s (tc_channel (cs_conn s)) = Some ch" "isReading ch" by blast
  from close_races_abort [OF table_ctl_ok greeter_ok s(1), of ch] s show ?thesis by (intro exI [of _ s]) blast
qed

end
