(* ===== verification/Muduo_Codec.thy ===== *)
theory Muduo_Codec
  imports Muduo_TcpConnection
begin

text \<open>
  The frames of \<^verbatim>\<open>net/protobuf/ProtobufCodecLite.cc\<close>: a length, a tag, the bytes of a message and a checksum. The Protocol Buffers
  library and \<^verbatim>\<open>adler32\<close> of zlib are arguments. The callbacks are functions on a state \<open>'w\<close>, in which the connection they are given is;
  they do not change the buffer, except for the error callback, which is given it.
\<close>

section \<open>Messages and codecs\<close>

text \<open>
  \<open>pb_SerializeToArray\<close> are the bytes \<^verbatim>\<open>SerializeWithCachedSizesToArray\<close> writes. \<open>pb_ParseFromArray m mem size\<close> parses \<open>size\<close> bytes
  of the memory \<open>mem\<close> into the message \<open>m\<close>.
\<close>

record 'm protobuf =
  pb_New :: 'm
  pb_IsInitialized :: "'m \<Rightarrow> bool"
  pb_ByteSize :: "'m \<Rightarrow> int"
  pb_SerializeToArray :: "'m \<Rightarrow> string"
  pb_ParseFromArray :: "'m \<Rightarrow> string \<Rightarrow> int \<Rightarrow> bool \<times> 'm"

type_synonym adler32 = "string \<Rightarrow> 32 word"

datatype ErrorCode = kNoError | kInvalidLength | kCheckSumError | kInvalidNameLen | kUnknownMessageType | kParseError

definition kHeaderLen :: int where "kHeaderLen = 4"
definition kChecksumLen :: int where "kChecksumLen = 4"
definition kMaxMessageLen :: int where "kMaxMessageLen = 64 * 1024 * 1024"

record ('m, 'w) ProtobufCodecLite =
  pc_tag :: string
  pc_messageCallback :: "'m \<Rightarrow> Timestamp \<Rightarrow> 'w \<Rightarrow> 'w outcome"
  pc_rawCb :: "(StringPiece \<Rightarrow> Timestamp \<Rightarrow> 'w \<Rightarrow> (bool \<times> 'w) outcome) option"
  pc_errorCallback :: "Buffer \<Rightarrow> Timestamp \<Rightarrow> ErrorCode \<Rightarrow> 'w \<Rightarrow> (Buffer \<times> 'w) outcome"

definition kMinMessageLen :: "('m, 'w) ProtobufCodecLite \<Rightarrow> int" where
  "kMinMessageLen cd = int (length (pc_tag cd)) + kChecksumLen"

definition errorCodeToString :: "ErrorCode \<Rightarrow> string" where
  "errorCodeToString errorCode = (case errorCode of
     kNoError \<Rightarrow> ''NoError'' | kInvalidLength \<Rightarrow> ''InvalidLength'' | kCheckSumError \<Rightarrow> ''CheckSumError''
   | kInvalidNameLen \<Rightarrow> ''InvalidNameLen'' | kUnknownMessageType \<Rightarrow> ''UnknownMessageType'' | kParseError \<Rightarrow> ''ParseError'')"

section \<open>Writing a frame\<close>

text \<open>Reading bytes outside of the memory a pointer points to is a failure.\<close>

definition checksum :: "adler32 \<Rightarrow> string \<Rightarrow> int \<Rightarrow> 32 word outcome" where
  "checksum adler mem len = (if len < 0 \<or> int (length mem) < len then Inl Out_of_bounds else Inr (adler (take (nat len) mem)))"

text \<open>The bytes are written behind the data of the buffer before their number is checked.\<close>

definition serializeToBuffer :: "'m protobuf \<Rightarrow> 'm \<Rightarrow> Buffer \<Rightarrow> (int \<times> Buffer) outcome" where
  "serializeToBuffer pb message buf =
     (if \<not> pb_IsInitialized pb message then Inl (Log_fatal ''serialize'')
      else
        let byte_size = pb_ByteSize pb message; bytes = pb_SerializeToArray pb message
        in andThen (ensureWritableBytes (int_to_size (byte_size + kChecksumLen)) buf) (\<lambda>buf.
           if writableBytes buf < length bytes then Inl Out_of_bounds
           else if int (length bytes) \<noteq> byte_size then Inl (Log_fatal ''ByteSizeConsistencyError'')
           else andThen (hasWritten (int_to_size byte_size) (buf\<lparr>buffer := copy_at (beginWrite buf) bytes (buffer buf)\<rparr>)) (\<lambda>buf.
             Inr (byte_size, buf))))"

definition fillEmptyBuffer ::
  "endian \<Rightarrow> adler32 \<Rightarrow> 'm protobuf \<Rightarrow> ('m, 'w) ProtobufCodecLite \<Rightarrow> 'm \<Rightarrow> Buffer \<Rightarrow> Buffer outcome" where
  "fillEmptyBuffer e adler pb cd message buf =
     assert_that (readableBytes buf = 0) ''buf->readableBytes() == 0''
       (andThen (append_piece (StringPiece_of_string (pc_tag cd)) buf) (\<lambda>buf.
        andThen (serializeToBuffer pb message buf) (\<lambda>(byte_size, buf).
        andThen (checksum adler (content buf) (int (readableBytes buf))) (\<lambda>checkSum.
        andThen (appendInt32 e checkSum buf) (\<lambda>buf.
        assert_that (int (readableBytes buf) = int (length (pc_tag cd)) + byte_size + kChecksumLen)
          ''buf->readableBytes() == tag_.size() + byte_size + kChecksumLen''
          (let len = hostToNetwork32 e (word_of_nat (readableBytes buf)) in prepend (store e len) 4 buf))))))"

text \<open>Sending a message on a connection, by the loop's own thread or by another.\<close>

definition codec_send ::
  "endian \<Rightarrow> adler32 \<Rightarrow> 'm protobuf \<Rightarrow> ('m, 'w) ProtobufCodecLite \<Rightarrow> bool \<Rightarrow> write_call \<Rightarrow> 'p chan_call \<Rightarrow> 'm \<Rightarrow> 'p conn_sys
     \<Rightarrow> 'p conn_sys outcome" where
  "codec_send e adler pb cd inLoop wr upd message conn =
     andThen (Buffer_new kInitialSize) (\<lambda>buf.
     andThen (fillEmptyBuffer e adler pb cd message buf) (\<lambda>buf.
     andThen (send_buffer inLoop wr upd buf conn) (\<lambda>(buf, conn). Inr conn)))"

section \<open>Reading frames\<close>

definition asInt32 :: "endian \<Rightarrow> string \<Rightarrow> 32 word" where
  "asInt32 e mem = networkToHost32 e (load e (take 4 mem))"

definition validateChecksum :: "endian \<Rightarrow> adler32 \<Rightarrow> string \<Rightarrow> int \<Rightarrow> bool outcome" where
  "validateChecksum e adler mem len =
     (if len < kChecksumLen \<or> int (length mem) < len then Inl Out_of_bounds
      else let expectedCheckSum = asInt32 e (drop (nat (len - kChecksumLen)) mem)
        in andThen (checksum adler mem (len - kChecksumLen)) (\<lambda>checkSum. Inr (checkSum = expectedCheckSum)))"

definition parseFromBuffer :: "'m protobuf \<Rightarrow> StringPiece \<Rightarrow> 'm \<Rightarrow> bool \<times> 'm" where
  "parseFromBuffer pb buf message = pb_ParseFromArray pb message (ptr buf) (piece_len buf)"

definition codec_parse ::
  "endian \<Rightarrow> adler32 \<Rightarrow> 'm protobuf \<Rightarrow> ('m, 'w) ProtobufCodecLite \<Rightarrow> string \<Rightarrow> int \<Rightarrow> 'm \<Rightarrow> (ErrorCode \<times> 'm) outcome" where
  "codec_parse e adler pb cd mem len message =
     andThen (validateChecksum e adler mem len) (\<lambda>valid.
     if valid then
       (if length mem < length (pc_tag cd) then Inl Out_of_bounds
        else if take (length (pc_tag cd)) mem = pc_tag cd then
          let data = drop (length (pc_tag cd)) mem;
              dataLen = len - kChecksumLen - int (length (pc_tag cd))
          in (case parseFromBuffer pb (StringPiece_make data dataLen) message of
                (ok, message) \<Rightarrow> Inr (if ok then kNoError else kParseError, message))
        else Inr (kUnknownMessageType, message))
     else Inr (kCheckSumError, message))"

text \<open>Whether the message is to be parsed: \<^verbatim>\<open>rawCb_ && !rawCb_(...)\<close> skips it.\<close>

definition raw_wants :: "('m, 'w) ProtobufCodecLite \<Rightarrow> StringPiece \<Rightarrow> Timestamp \<Rightarrow> 'w \<Rightarrow> (bool \<times> 'w) outcome" where
  "raw_wants cd piece receiveTime w = (case pc_rawCb cd of None \<Rightarrow> Inr (True, w) | Some rawCb \<Rightarrow> rawCb piece receiveTime w)"

lemma andThen_cong [fundef_cong]: "m = m' \<Longrightarrow> (\<And>x. m' = Inr x \<Longrightarrow> f x = g x) \<Longrightarrow> andThen m f = andThen m' g"
  by (cases m') auto

lemma retrieve_shrinks: "retrieve n b = Inr b' \<Longrightarrow> 0 < n \<Longrightarrow> readableBytes b' < readableBytes b"
proof -
  assume r: "retrieve n b = Inr b'" and n: "0 < n"
  show ?thesis
  proof (cases "n < readableBytes b")
    case True
    then have b': "b' = b\<lparr>readerIndex := readerIndex b + n\<rparr>" using r by (simp add: retrieve_def assert_that_def)
    let ?d = "(int (writerIndex b) - int (readerIndex b)) mod 2 ^ 64"
    have d: "int n < ?d" using True by (simp add: readableBytes_def size_sub_def)
    have e: "?d < 2 ^ 64" by (rule pos_mod_bound) simp
    have "(int (writerIndex b) - int (readerIndex b + n)) mod 2 ^ 64 = (?d - int n) mod 2 ^ 64" by (simp add: mod_diff_left_eq diff_diff_eq)
    also have "\<dots> = ?d - int n" using d e by (intro mod_pos_pos_trivial) linarith+
    finally show ?thesis using d n by (simp add: b' readableBytes_def size_sub_def)
  next
    case False
    then have "b' = retrieveAll b" "readableBytes b = n" using r by (auto simp: retrieve_def assert_that_def split: if_splits)
    with n show ?thesis by (simp add: retrieveAll_def readableBytes_def kCheapPrepend_def)
  qed
qed

text \<open>
  The loop takes a frame off the buffer in each round, so it ends. The length is compared as a signed integer; \<^verbatim>\<open>kHeaderLen+len\<close> does not
  overflow once it is known to be at most \<open>kMaxMessageLen\<close>.
\<close>

function codec_onMessage ::
  "endian \<Rightarrow> adler32 \<Rightarrow> 'm protobuf \<Rightarrow> ('m, 'w) ProtobufCodecLite \<Rightarrow> Timestamp \<Rightarrow> Buffer \<Rightarrow> 'w \<Rightarrow> (Buffer \<times> 'w) outcome" where
  "codec_onMessage e adler pb cd receiveTime buf w =
     (if int (readableBytes buf) \<ge> kMinMessageLen cd + kHeaderLen then
        andThen (peekInt32 e buf) (\<lambda>word.
        let len = sint word
        in if len > kMaxMessageLen \<or> len < kMinMessageLen cd then pc_errorCallback cd buf receiveTime kInvalidLength w
           else if int (readableBytes buf) \<ge> kHeaderLen + len then
             andThen (raw_wants cd (StringPiece_make (take (nat (kHeaderLen + len)) (content buf)) (kHeaderLen + len)) receiveTime w) (\<lambda>(go_on, w).
             if \<not> go_on then
               andThen (retrieve (nat (kHeaderLen + len)) buf) (\<lambda>buf. codec_onMessage e adler pb cd receiveTime buf w)
             else
               andThen (codec_parse e adler pb cd (drop (nat kHeaderLen) (content buf)) len (pb_New pb)) (\<lambda>(errorCode, message).
               if errorCode = kNoError then
                 andThen (pc_messageCallback cd message receiveTime w) (\<lambda>w.
                 andThen (retrieve (nat (kHeaderLen + len)) buf) (\<lambda>buf. codec_onMessage e adler pb cd receiveTime buf w))
               else pc_errorCallback cd buf receiveTime errorCode w))
           else Inr (buf, w))
      else Inr (buf, w))"
  by pat_completeness auto
termination
  by (relation "measure (\<lambda>(e, adler, pb, cd, receiveTime, buf, w). readableBytes buf)")
    (auto intro!: retrieve_shrinks simp: kMinMessageLen_def kChecksumLen_def kHeaderLen_def)

declare codec_onMessage.simps [simp del]

text \<open>The default error callback shuts the connection down.\<close>

definition defaultErrorCallback :: "bool \<Rightarrow> Buffer \<Rightarrow> Timestamp \<Rightarrow> ErrorCode \<Rightarrow> 'p conn_sys \<Rightarrow> (Buffer \<times> 'p conn_sys) outcome" where
  "defaultErrorCallback inLoop buf t errorCode conn =
     (if connected (cs_conn conn) then andThen (shutdown inLoop conn) (\<lambda>conn. Inr (buf, conn)) else Inr (buf, conn))"

section \<open>The wire format\<close>

definition len32 :: "nat \<Rightarrow> 32 word" where
  "len32 n = word_of_nat n"

definition frame :: "adler32 \<Rightarrow> string \<Rightarrow> string \<Rightarrow> string" where
  "frame adler tag payload =
     be_bytes (len32 (length tag + length payload + 4)) @ tag @ payload @ be_bytes (adler (tag @ payload))"

definition frame_fits :: "string \<Rightarrow> string \<Rightarrow> bool" where
  "frame_fits tag payload \<longleftrightarrow> int (length tag + length payload) + kChecksumLen \<le> kMaxMessageLen"

text \<open>What the codec relies on for a message: its size is that of its bytes, and parsing its bytes gives it back.\<close>

definition pb_ok :: "'m protobuf \<Rightarrow> 'm \<Rightarrow> bool" where
  "pb_ok pb m \<longleftrightarrow> pb_IsInitialized pb m \<and> pb_ByteSize pb m = int (length (pb_SerializeToArray pb m))
     \<and> (\<forall>rest. pb_ParseFromArray pb (pb_New pb) (pb_SerializeToArray pb m @ rest) (int (length (pb_SerializeToArray pb m))) = (True, m))"

abbreviation message_frame :: "adler32 \<Rightarrow> 'm protobuf \<Rightarrow> ('m, 'w) ProtobufCodecLite \<Rightarrow> 'm \<Rightarrow> string" where
  "message_frame adler pb cd m \<equiv> frame adler (pc_tag cd) (pb_SerializeToArray pb m)"

abbreviation message_fits :: "'m protobuf \<Rightarrow> ('m, 'w) ProtobufCodecLite \<Rightarrow> 'm \<Rightarrow> bool" where
  "message_fits pb cd m \<equiv> pb_ok pb m \<and> frame_fits (pc_tag cd) (pb_SerializeToArray pb m)"

lemmas codec_lens = kHeaderLen_def kChecksumLen_def kMaxMessageLen_def

lemma length_frame: "length (frame adler tag p) = length tag + length p + 8"
  by (simp add: frame_def)

lemma sint_len32: "n < 2 ^ 31 \<Longrightarrow> sint (len32 n) = int n"
  by (simp add: len32_def signed_of_nat signed_take_bit_int_eq_self)

lemma frame_len: "frame_fits tag p \<Longrightarrow> sint (len32 (length tag + length p + 4)) = int (length tag + length p + 4)"
  by (rule sint_len32) (simp add: frame_fits_def codec_lens)

subsection \<open>Writing\<close>

lemma ensureWritableBytes_reader:
  "ensureWritableBytes n b = Inr b' \<Longrightarrow> kCheapPrepend \<le> readerIndex b \<Longrightarrow> kCheapPrepend \<le> readerIndex b'"
  by (auto simp: ensureWritableBytes_def makeSpace_def andThen_eq_Inr assert_that_def Let_def split: if_splits dest!: arg_cong [where f = readerIndex])

lemma append_reader: "Buffer_append d n b = Inr b' \<Longrightarrow> kCheapPrepend \<le> readerIndex b \<Longrightarrow> kCheapPrepend \<le> readerIndex b'"
  using ensureWritableBytes_reader by (fastforce simp: Buffer_append_def hasWritten_def andThen_eq_Inr assert_that_def split: if_splits)

lemma serializeToBuffer_ok:
  assumes b: "buf_inv b" and pb: "pb_ok pb m" and n: "length (content b) + 2 * (length (pb_SerializeToArray pb m) + 4) + kCheapPrepend \<le> vector_max_size"
    and r: "kCheapPrepend \<le> readerIndex b"
  shows "\<exists>b'. serializeToBuffer pb m b = Inr (int (length (pb_SerializeToArray pb m)), b') \<and> buf_inv b'
    \<and> content b' = content b @ pb_SerializeToArray pb m \<and> kCheapPrepend \<le> readerIndex b'"
proof -
  let ?x = "pb_SerializeToArray pb m"
  have x: "pb_IsInitialized pb m" "pb_ByteSize pb m = int (length ?x)" using pb by (auto simp: pb_ok_def)
  have s: "int_to_size (int (length ?x) + 4) = length ?x + 4" "int_to_size (int (length ?x)) = length ?x"
    using n int_to_size_of_nat [of "length ?x + 4"] by (simp_all add: vector_max_size_def)
  from ensureWritableBytes_ok [OF b has_room_if_small [OF b n]] obtain c where
    c: "ensureWritableBytes (length ?x + 4) b = Inr c" "buf_inv c" "content c = content b" "length ?x + 4 \<le> length (buffer c) - writerIndex c" by blast
  let ?c = "c\<lparr>buffer := copy_at (writerIndex c) ?x (buffer c)\<rparr>"
  have "length (copy_at (writerIndex c) ?x (buffer c)) = length (buffer c)" using c(2,4) by (auto simp: buf_inv_def)
  moreover have "buf_inv ?c" using c(2,4) by (auto simp: buf_inv_def)
  ultimately have "hasWritten (length ?x) ?c = Inr (?c\<lparr>writerIndex := writerIndex c + length ?x\<rparr>)"
    using c(4) by (simp add: hasWritten_def)
  moreover have "\<not> writableBytes c < length ?x" using c(2,4) by simp
  ultimately have "serializeToBuffer pb m b = Inr (int (length ?x), ?c\<lparr>writerIndex := writerIndex c + length ?x\<rparr>)"
    using x s c(1) by (simp add: serializeToBuffer_def kChecksumLen_def beginWrite_def Let_def)
  moreover have "kCheapPrepend \<le> readerIndex c" using ensureWritableBytes_reader [OF c(1) r] .
  ultimately show ?thesis using write_at_end [OF c(2), of ?x] c(3,4) by simp
qed

text \<open>An empty buffer is filled with the frame of the message, whatever the byte order of the host.\<close>

lemma fillEmptyBuffer_frame:
  assumes b: "buf_inv b" "content b = []" "kCheapPrepend \<le> readerIndex b" and m: "message_fits pb cd m"
  shows "\<exists>b'. fillEmptyBuffer e adler pb cd m b = Inr b' \<and> buf_inv b' \<and> content b' = message_frame adler pb cd m"
proof -
  let ?t = "pc_tag cd" and ?x = "pb_SerializeToArray pb m"
  have n: "length ?t + length ?x + 4 \<le> 67108864" using m by (simp add: frame_fits_def codec_lens)
  have max: "kCheapPrepend = 8" "vector_max_size = 9223372036854775807" by (simp_all add: kCheapPrepend_def vector_max_size_def)
  have p: "int_to_size (piece_len (StringPiece_of_string ?t)) = length ?t"
    using n by (simp add: StringPiece_of_string_def size_to_int32_def)
  have "has_room (length ?t) b" by (rule has_room_if_small [OF b(1)]) (use b n max in simp)
  from append_ok [OF b(1) this, of ?t] b(2) obtain b1 where
    b1: "Buffer_append ?t (length ?t) b = Inr b1" "buf_inv b1" "content b1 = ?t" by auto
  have r1: "kCheapPrepend \<le> readerIndex b1" by (rule append_reader [OF b1(1) b(3)])
  from serializeToBuffer_ok [OF b1(2) conjunct1 [OF m] _ r1] n max b1(3) obtain b2 where
    b2: "serializeToBuffer pb m b1 = Inr (int (length ?x), b2)" "buf_inv b2" "content b2 = ?t @ ?x" "kCheapPrepend \<le> readerIndex b2"
    by auto
  have "has_room 4 b2" by (rule has_room_if_small [OF b2(2)]) (use n max b2(3) in simp)
  from appendInt_ok(2) [OF b2(2) this, of e "adler (?t @ ?x)"] obtain b3 where
    b3: "appendInt32 e (adler (?t @ ?x)) b2 = Inr b3" "buf_inv b3" "content b3 = ?t @ ?x @ be_bytes (adler (?t @ ?x))" using b2(3) by auto
  have r3: "4 \<le> readerIndex b3" using append_reader [OF b3(1) [unfolded appendInt32_def] b2(4)] max by simp
  have len: "readableBytes b3 = length ?t + length ?x + 4" unfolding readableBytes_content [OF b3(2)] b3(3) by simp
  from prepend_ok [OF b3(2) r3, of "be_bytes (len32 (readableBytes b3))"] b3(3) len obtain b4 where
    b4: "prepend (be_bytes (len32 (length ?t + length ?x + 4))) 4 b3 = Inr b4" "buf_inv b4" "content b4 = message_frame adler pb cd m"
    by (auto simp: frame_def)
  have "checksum adler (content b2) (int (readableBytes b2)) = Inr (adler (?t @ ?x))"
    unfolding readableBytes_content [OF b2(2)] by (simp add: checksum_def b2(3))
  moreover have "readableBytes b = 0" unfolding readableBytes_content [OF b(1)] b(2) by simp
  moreover have "append_piece (StringPiece_of_string ?t) b = Inr b1" unfolding append_piece_def p using b1(1) by (simp add: StringPiece_of_string_def)
  ultimately show ?thesis using b2(1) b3(1) b4 len
    by (simp add: fillEmptyBuffer_def kChecksumLen_def Let_def len32_def)
qed

subsection \<open>Reading\<close>

text \<open>The verdict on the body of a frame: the bytes before the checksum are \<open>y\<close>, the checksum is \<open>c\<close>.\<close>

lemma parse_body:
  assumes "length (pc_tag cd) \<le> length y"
  shows "codec_parse e adler pb cd (y @ be_bytes c @ rest) (int (length y) + kChecksumLen) m0 =
    (if adler y \<noteq> c then Inr (kCheckSumError, m0)
     else if take (length (pc_tag cd)) y \<noteq> pc_tag cd then Inr (kUnknownMessageType, m0)
     else (case pb_ParseFromArray pb m0 (drop (length (pc_tag cd)) y @ be_bytes c @ rest) (int (length y - length (pc_tag cd))) of
             (ok, m) \<Rightarrow> Inr (if ok then kNoError else kParseError, m)))"
proof -
  have "validateChecksum e adler (y @ be_bytes c @ rest) (int (length y) + kChecksumLen) = Inr (adler y = c)"
    by (simp add: validateChecksum_def checksum_def asInt32_def kChecksumLen_def)
  then show ?thesis using assms
    by (simp add: codec_parse_def parseFromBuffer_def StringPiece_make_def Let_def of_nat_diff)
qed

text \<open>What the callbacks are called with for a frame: the raw callback with the frame, and if it agrees the message callback.\<close>

definition deliver :: "adler32 \<Rightarrow> 'm protobuf \<Rightarrow> ('m, 'w) ProtobufCodecLite \<Rightarrow> Timestamp \<Rightarrow> 'm \<Rightarrow> 'w \<Rightarrow> 'w outcome" where
  "deliver adler pb cd t m w = (let fr = message_frame adler pb cd m in
     andThen (raw_wants cd (StringPiece_make fr (int (length fr))) t w) (\<lambda>(go_on, w). if go_on then pc_messageCallback cd m t w else Inr w))"

text \<open>One round of the loop on a buffer that begins with a frame whose length is in range and that is there completely.\<close>

lemma onMessage_round:
  assumes b: "buf_inv b" and c: "content b = be_bytes (len32 (length y + 4)) @ y @ be_bytes (c :: 32 word) @ rest"
    and y: "length (pc_tag cd) \<le> length y" "int (length y) + kChecksumLen \<le> kMaxMessageLen"
  shows "codec_onMessage e adler pb cd t b w =
    andThen (raw_wants cd (StringPiece_make (take (length y + 8) (content b)) (int (length y) + 8)) t w) (\<lambda>(go_on, w).
      if \<not> go_on then andThen (retrieve (length y + 8) b) (\<lambda>b. codec_onMessage e adler pb cd t b w)
      else andThen (codec_parse e adler pb cd (y @ be_bytes c @ rest) (int (length y) + kChecksumLen) (pb_New pb)) (\<lambda>(errorCode, message).
        if errorCode = kNoError then
          andThen (pc_messageCallback cd message t w) (\<lambda>w. andThen (retrieve (length y + 8) b) (\<lambda>b. codec_onMessage e adler pb cd t b w))
        else pc_errorCallback cd b t errorCode w))"
proof -
  let ?n = "length y + 8"
  have r: "readableBytes b = ?n + length rest" unfolding readableBytes_content [OF b] c by simp
  have len: "sint (len32 (length y + 4)) = int (length y) + 4" using y(2) by (subst sint_len32) (simp_all add: codec_lens)
  have n: "nat (int (length y) + 8) = ?n" "kHeaderLen + (int (length y) + 4) = int (length y) + 8" by (simp_all add: kHeaderLen_def nat_add_distrib)
  have d: "drop (nat kHeaderLen) (content b) = y @ be_bytes c @ rest" unfolding c by (simp add: kHeaderLen_def)
  have g: "kMinMessageLen cd + kHeaderLen \<le> int (readableBytes b)" "\<not> (int (length y) + 4 > kMaxMessageLen \<or> int (length y) + 4 < kMinMessageLen cd)"
    "int (length y) + 8 \<le> int (readableBytes b)"
    using y by (simp_all add: r kMinMessageLen_def codec_lens)
  show ?thesis
    by (subst codec_onMessage.simps)
      (simp only: g if_True if_False peekInt_ok(2) [OF b c] andThen.simps Let_def len n d kChecksumLen_def simp_thms)
qed

text \<open>A frame of a message is taken off the buffer and delivered.\<close>

lemma onMessage_frame:
  assumes b: "buf_inv b" "content b = message_frame adler pb cd m @ rest" and m: "message_fits pb cd m"
  shows "\<exists>b'. buf_inv b' \<and> content b' = rest \<and> (\<forall>t w. codec_onMessage e adler pb cd t b w = andThen (deliver adler pb cd t m w) (codec_onMessage e adler pb cd t b'))"
proof -
  let ?t = "pc_tag cd" and ?x = "pb_SerializeToArray pb m"
  let ?y = "?t @ ?x" and ?c = "adler (?t @ ?x)"
  have n: "length (message_frame adler pb cd m) = length ?y + 8" by (simp add: length_frame)
  have c: "content b = be_bytes (len32 (length ?y + 4)) @ ?y @ be_bytes ?c @ rest" using b(2) by (simp add: frame_def)
  have y: "length ?t \<le> length ?y" "int (length ?y) + kChecksumLen \<le> kMaxMessageLen" using m by (simp_all add: frame_fits_def)
  have p: "codec_parse e adler pb cd (?y @ be_bytes ?c @ rest) (int (length ?y) + kChecksumLen) (pb_New pb) = Inr (kNoError, m)"
    unfolding parse_body [OF y(1)] using m by (simp add: pb_ok_def)
  from retrieve_ok [OF b(1), of "length ?y + 8"] n b(2) obtain b' where b': "retrieve (length ?y + 8) b = Inr b'" "buf_inv b'" "content b' = rest"
    by (auto simp del: length_content)
  have fr: "take (length ?y + 8) (content b) = message_frame adler pb cd m" "int (length ?y) + 8 = int (length (message_frame adler pb cd m))"
    unfolding b(2) using n by (simp_all add: length_frame)
  have "codec_onMessage e adler pb cd t b w = andThen (deliver adler pb cd t m w) (codec_onMessage e adler pb cd t b')" for t w
    unfolding onMessage_round [OF b(1) c y] p b' fr deliver_def Let_def andThen_assoc
    by (rule andThen_cong [OF refl]) (auto simp: b')
  with b' show ?thesis by blast
qed

text \<open>A frame of which a part is missing stays in the buffer.\<close>

lemma onMessage_partial:
  assumes b: "buf_inv b" "content b = take k (frame adler' (pc_tag cd) x)" and k: "k < length (frame adler' (pc_tag cd) x)" and fits: "frame_fits (pc_tag cd) x"
  shows "codec_onMessage e adler pb cd t b w = Inr (b, w)"
proof (cases "length (pc_tag cd) + 8 \<le> k")
  case True
  let ?n = "length (pc_tag cd) + length x + 4"
  have r: "readableBytes b = k" unfolding readableBytes_content [OF b(1)] b(2) using k by simp
  have "content b = be_bytes (len32 ?n) @ take (k - 4) (pc_tag cd @ x @ be_bytes (adler' (pc_tag cd @ x)))"
    unfolding b(2) frame_def using True by simp
  from peekInt_ok(2) [OF b(1) this, of e] have "peekInt32 e b = Inr (len32 ?n)" .
  moreover have "\<not> (sint (len32 ?n) > kMaxMessageLen \<or> sint (len32 ?n) < kMinMessageLen cd)"
    unfolding frame_len [OF fits] using fits by (simp add: frame_fits_def kMinMessageLen_def codec_lens)
  moreover have "\<not> kHeaderLen + sint (len32 ?n) \<le> int (readableBytes b)" unfolding frame_len [OF fits] r using k by (simp add: length_frame kHeaderLen_def)
  ultimately show ?thesis by (subst codec_onMessage.simps) (simp add: Let_def)
next
  case False
  have "readableBytes b = min (length (frame adler' (pc_tag cd) x)) k" unfolding readableBytes_content [OF b(1)] b(2) by simp
  with False k have "\<not> kMinMessageLen cd + kHeaderLen \<le> int (readableBytes b)" by (simp add: kMinMessageLen_def codec_lens)
  then show ?thesis by (subst codec_onMessage.simps) simp
qed

section \<open>Streams of frames\<close>

lemma split_frames:
  assumes "xs @ ys = concat (map f ms)" and "\<forall>m \<in> set ms. f m \<noteq> []"
  shows "\<exists>done todo r. ms = done @ todo \<and> xs = concat (map f done) @ r \<and> r @ ys = concat (map f todo)
    \<and> (if todo = [] then r = [] else r = take (length r) (f (hd todo)) \<and> length r < length (f (hd todo)))"
  using assms
proof (induction ms arbitrary: xs)
  case (Cons m ms)
  show ?case
  proof (cases "length xs < length (f m)")
    case True
    then have "xs = take (length xs) (f m)" using Cons.prems(1) by (auto simp: append_eq_append_conv_if)
    with True Cons.prems(1) show ?thesis by (intro exI [of _ "[]"] exI [of _ "m # ms"] exI [of _ xs]) simp
  next
    case False
    have "take (length (f m)) (xs @ ys) = f m" using Cons.prems(1) by simp
    then have "take (length (f m)) xs = f m" using False by simp
    then obtain zs where zs: "xs = f m @ zs" by (metis append_take_drop_id)
    then have "zs @ ys = concat (map f ms)" using Cons.prems(1) by simp
    with Cons.IH [of zs] Cons.prems(2) obtain fs todo r where
      r: "ms = fs @ todo" "zs = concat (map f fs) @ r" "r @ ys = concat (map f todo)"
        "if todo = [] then r = [] else r = take (length r) (f (hd todo)) \<and> length r < length (f (hd todo))" by auto
    then show ?thesis using zs by (intro exI [of _ "m # fs"] exI [of _ todo] exI [of _ r]) simp
  qed
qed simp

lemma onMessage_frames:
  assumes "buf_inv b" and "content b = concat (map (message_frame adler pb cd) ms) @ r" and "\<forall>m \<in> set ms. message_fits pb cd m"
  shows "\<exists>b'. buf_inv b' \<and> content b' = r \<and>
    (\<forall>t w. codec_onMessage e adler pb cd t b w = andThen (for_each (deliver adler pb cd t) ms w) (codec_onMessage e adler pb cd t b'))"
  using assms
proof (induction ms arbitrary: b)
  case (Cons m ms)
  then have c: "content b = message_frame adler pb cd m @ concat (map (message_frame adler pb cd) ms) @ r" and m: "message_fits pb cd m" by simp_all
  from onMessage_frame [OF Cons.prems(1) c m] obtain b1 where
    b1: "buf_inv b1" "content b1 = concat (map (message_frame adler pb cd) ms) @ r"
      "\<And>t w. codec_onMessage e adler pb cd t b w = andThen (deliver adler pb cd t m w) (codec_onMessage e adler pb cd t b1)" by blast
  from Cons.IH [OF b1(1,2)] Cons.prems(3) obtain b2 where
    b2: "buf_inv b2" "content b2 = r"
      "\<And>t w. codec_onMessage e adler pb cd t b1 w = andThen (for_each (deliver adler pb cd t) ms w) (codec_onMessage e adler pb cd t b2)" by auto
  have "codec_onMessage e adler pb cd t b w = andThen (for_each (deliver adler pb cd t) (m # ms) w) (codec_onMessage e adler pb cd t b2)" for t w
    unfolding b1(3) for_each.simps andThen_assoc by (rule andThen_cong [OF refl]) (rule b2(3))
  with b2 show ?case by blast
qed auto

lemma onMessage_empty:
  assumes "buf_inv b" and "content b = []"
  shows "codec_onMessage e adler pb cd t b w = Inr (b, w)"
proof -
  have "readableBytes b = 0" unfolding readableBytes_content [OF assms(1)] assms(2) by simp
  then show ?thesis by (subst codec_onMessage.simps) (simp add: kMinMessageLen_def codec_lens)
qed

text \<open>The bytes of a connection arrive in pieces: each is appended to the input buffer, and the message callback of the connection is called.\<close>

fun receive :: "endian \<Rightarrow> adler32 \<Rightarrow> 'm protobuf \<Rightarrow> ('m, 'w) ProtobufCodecLite \<Rightarrow> Timestamp \<Rightarrow> string list \<Rightarrow> Buffer \<Rightarrow> 'w \<Rightarrow> (Buffer \<times> 'w) outcome" where
  "receive e adler pb cd t [] b w = Inr (b, w)"
| "receive e adler pb cd t (x # xs) b w =
     andThen (Buffer_append x (length x) b) (\<lambda>b. andThen (codec_onMessage e adler pb cd t b w) (\<lambda>(b, w). receive e adler pb cd t xs b w))"

text \<open>The invariant between two pieces: the buffer holds a proper part of the next frame.\<close>

definition waits_for :: "adler32 \<Rightarrow> 'm protobuf \<Rightarrow> ('m, 'w) ProtobufCodecLite \<Rightarrow> 'm list \<Rightarrow> string \<Rightarrow> bool" where
  "waits_for adler pb cd ms r \<longleftrightarrow> (if ms = [] then r = []
     else r = take (length r) (message_frame adler pb cd (hd ms)) \<and> length r < length (message_frame adler pb cd (hd ms)))"

lemma onMessage_waits:
  assumes "buf_inv b" and "waits_for adler pb cd ms (content b)" and "\<forall>m \<in> set ms. message_fits pb cd m"
  shows "codec_onMessage e adler pb cd t b w = Inr (b, w)"
proof (cases ms)
  case Nil
  then show ?thesis using assms onMessage_empty by (simp add: waits_for_def)
next
  case (Cons m ms')
  then show ?thesis using assms(2,3) unfolding waits_for_def
    by (intro onMessage_partial [OF assms(1), where k = "length (content b)" and adler' = adler and x = "pb_SerializeToArray pb m"]) (simp_all del: length_content)
qed

lemma receive_frames:
  assumes "buf_inv b" and "content b @ concat xs = concat (map (message_frame adler pb cd) ms)" and "waits_for adler pb cd ms (content b)"
    and "\<forall>m \<in> set ms. message_fits pb cd m" and "2 * length (concat (map (message_frame adler pb cd) ms)) + kCheapPrepend \<le> vector_max_size"
  shows "\<exists>b'. buf_inv b' \<and> content b' = [] \<and> (\<forall>w. receive e adler pb cd t xs b w = andThen (for_each (deliver adler pb cd t) ms w) (\<lambda>w. Inr (b', w)))"
  using assms
proof (induction xs arbitrary: b ms)
  case Nil
  then have "ms = []" by (cases ms) (auto simp: waits_for_def)
  with Nil show ?case by auto
next
  case (Cons x xs)
  let ?f = "message_frame adler pb cd"
  have "length (content b @ concat (x # xs)) = length (concat (map ?f ms))" using Cons.prems(2) by simp
  then have "length (content b) + length x \<le> length (concat (map ?f ms))" by (simp del: length_content)
  then have "has_room (length x) b" by (intro has_room_if_small [OF Cons.prems(1)]) (use Cons.prems(5) in linarith)
  from append_ok [OF Cons.prems(1) this, of x] obtain b1 where b1: "Buffer_append x (length x) b = Inr b1" "buf_inv b1" "content b1 = content b @ x" by auto
  have "\<forall>m \<in> set ms. ?f m \<noteq> []" by (metis length_frame list.size(3) add_is_0 zero_neq_numeral)
  from split_frames [OF _ this, of "content b1" "concat xs"] Cons.prems(2) b1(3) obtain fs rs r where
    s: "ms = fs @ rs" "content b1 = concat (map ?f fs) @ r" "r @ concat xs = concat (map ?f rs)" "waits_for adler pb cd rs r"
    unfolding waits_for_def by auto
  have fits: "\<forall>m \<in> set fs. message_fits pb cd m" "\<forall>m \<in> set rs. message_fits pb cd m" using Cons.prems(4) s(1) by auto
  from onMessage_frames [OF b1(2) s(2) fits(1)] obtain b2 where
    b2: "buf_inv b2" "content b2 = r"
      "\<And>w. codec_onMessage e adler pb cd t b1 w = andThen (for_each (deliver adler pb cd t) fs w) (codec_onMessage e adler pb cd t b2)" by blast
  have w: "codec_onMessage e adler pb cd t b2 = (\<lambda>w. Inr (b2, w))" using onMessage_waits [OF b2(1) _ fits(2)] s(4) b2(2) by blast
  have "2 * length (concat (map ?f rs)) + kCheapPrepend \<le> vector_max_size" using Cons.prems(5) s(1) by simp
  from Cons.IH [OF b2(1) _ _ fits(2) this] s(3,4) b2(2) obtain b3 where
    b3: "buf_inv b3" "content b3 = []" "\<And>w. receive e adler pb cd t xs b2 w = andThen (for_each (deliver adler pb cd t) rs w) (\<lambda>w. Inr (b3, w))" by auto
  have "receive e adler pb cd t (x # xs) b w = andThen (for_each (deliver adler pb cd t) ms w) (\<lambda>w. Inr (b3, w))" for w
    by (simp add: b1(1) b2(3) w b3(3) s(1) for_each_append andThen_assoc)
  with b3 show ?case by blast
qed

lemma fill_new_buffer:
  assumes "message_fits pb cd m"
  shows "\<exists>b. andThen (Buffer_new kInitialSize) (fillEmptyBuffer e adler pb cd m) = Inr b \<and> content b = message_frame adler pb cd m"
proof -
  obtain b where b: "Buffer_new kInitialSize = Inr b" "buf_inv b" "content b = []" "readerIndex b = kCheapPrepend" using Buffer_new_default by blast
  from fillEmptyBuffer_frame [OF b(2,3) _ assms] b(1,4) show ?thesis by auto
qed

text \<open>
  C21. Messages survive the wire. The buffers a sender fills for a sequence of messages hold bytes which, cut into pieces at any places and
  received piece by piece on a host of any byte order, make the receiver call its callbacks with exactly these messages, in order and
  once each, and leave nothing in its buffer; a failure of a callback is the failure of the call. The messages are such that the
  library parses what it serialized, and their frames have at most 64 MiB.
\<close>

theorem codec_round_trip:
  fixes sender :: "('m, 'v) ProtobufCodecLite" and receiver :: "('m, 'w) ProtobufCodecLite"
  assumes tag: "pc_tag sender = pc_tag receiver" and ms: "\<forall>m \<in> set ms. pb_ok pb m \<and> frame_fits (pc_tag receiver) (pb_SerializeToArray pb m)"
    and room: "2 * length (concat (map (\<lambda>m. frame adler (pc_tag receiver) (pb_SerializeToArray pb m)) ms)) + kCheapPrepend \<le> vector_max_size"
  shows "\<exists>bufs. list_all2 (\<lambda>m b. andThen (Buffer_new kInitialSize) (fillEmptyBuffer e adler pb sender m) = Inr b) ms bufs
    \<and> (\<forall>xs b t w. concat xs = concat (map content bufs) \<longrightarrow> Buffer_new kInitialSize = Inr b \<longrightarrow>
         (\<exists>b'. content b' = [] \<and> receive e' adler pb receiver t xs b w = andThen (for_each (deliver adler pb receiver t) ms w) (\<lambda>w. Inr (b', w))))"
proof -
  let ?sent = "\<lambda>m. andThen (Buffer_new kInitialSize) (fillEmptyBuffer e adler pb sender m)"
  have "\<exists>b. ?sent m = Inr b \<and> content b = message_frame adler pb receiver m" if "m \<in> set ms" for m
    using fill_new_buffer [where pb = pb and cd = sender and m = m and e = e and adler = adler] ms that unfolding tag by blast
  then obtain f where f: "\<And>m. m \<in> set ms \<Longrightarrow> ?sent m = Inr (f m) \<and> content (f m) = message_frame adler pb receiver m" by metis
  have c: "map content (map f ms) = map (message_frame adler pb receiver) ms" using f by simp
  obtain b where b: "Buffer_new kInitialSize = Inr b" "buf_inv b" "content b = []" using Buffer_new_default by blast
  have w: "waits_for adler pb receiver ms []" by (simp add: waits_for_def length_frame)
  have "\<exists>b'. content b' = [] \<and> receive e' adler pb receiver t xs b w = andThen (for_each (deliver adler pb receiver t) ms w) (\<lambda>w. Inr (b', w))"
    if "concat xs = concat (map content (map f ms))" for xs t w
    using receive_frames [OF b(2), where xs = xs and adler = adler and pb = pb and cd = receiver and ms = ms and e = e' and t = t] b(3) that w ms room unfolding c by auto
  with f b(1) show ?thesis by (intro exI [of _ "map f ms"]) (simp add: list_all2_map2 list.rel_refl_strong)
qed

text \<open>Messages that are texts, with a callback that keeps them.\<close>

definition text_pb :: "string protobuf" where
  "text_pb = \<lparr>pb_New = [], pb_IsInitialized = (\<lambda>m. True), pb_ByteSize = (\<lambda>m. int (length m)), pb_SerializeToArray = (\<lambda>m. m),
     pb_ParseFromArray = (\<lambda>m mem n. (True, take (nat n) mem))\<rparr>"

definition text_codec :: "(string, string list) ProtobufCodecLite" where
  "text_codec = \<lparr>pc_tag = ''RPC0'', pc_messageCallback = (\<lambda>m t w. Inr (w @ [m])), pc_rawCb = None, pc_errorCallback = (\<lambda>b t err w. Inr (b, w @ [errorCodeToString err]))\<rparr>"

definition sum32 :: adler32 where
  "sum32 s = sum_list (map (\<lambda>c. of_char c) s)"

theorem codec_round_trip_witness:
  "\<exists>bufs b b'. list_all2 (\<lambda>m b. andThen (Buffer_new kInitialSize) (fillEmptyBuffer Little sum32 text_pb text_codec m) = Inr b) [''ab'', ''c''] bufs
     \<and> receive Big sum32 text_pb text_codec 0 (map (\<lambda>c. [c]) (concat (map content bufs))) b [] = Inr (b', [''ab'', ''c''])"
proof -
  obtain b where b: "Buffer_new kInitialSize = Inr b" using Buffer_new_default by blast
  have singles: "concat (map (\<lambda>c. [c]) xs) = xs" for xs :: string by (induction xs) auto
  have d: "for_each (deliver sum32 text_pb text_codec 0) [''ab'', ''c''] [] = Inr [''ab'', ''c'']"
    by (simp add: deliver_def raw_wants_def text_codec_def)
  from codec_round_trip [where sender = text_codec and receiver = text_codec and ms = "[''ab'', ''c'']" and pb = text_pb and adler = sum32 and e = Little and e' = Big] obtain bufs where
    bufs: "list_all2 (\<lambda>m b. andThen (Buffer_new kInitialSize) (fillEmptyBuffer Little sum32 text_pb text_codec m) = Inr b) [''ab'', ''c''] bufs"
      "\<And>xs b t w. concat xs = concat (map content bufs) \<Longrightarrow> Buffer_new kInitialSize = Inr b \<Longrightarrow>
         \<exists>b'. content b' = [] \<and> receive Big sum32 text_pb text_codec t xs b w = andThen (for_each (deliver sum32 text_pb text_codec t) [''ab'', ''c''] w) (\<lambda>w. Inr (b', w))"
    by (auto simp: pb_ok_def frame_fits_def length_frame text_pb_def text_codec_def codec_lens kCheapPrepend_def vector_max_size_def)
  from bufs(2) [OF singles b, of 0 "[]"] d obtain b' where
    "receive Big sum32 text_pb text_codec 0 (map (\<lambda>c. [c]) (concat (map content bufs))) b [] = Inr (b', [''ab'', ''c''])" by auto
  with bufs(1) show ?thesis by blast
qed



section \<open>BufferOutputStream\<close>

text \<open>
  \<^verbatim>\<open>net/protobuf/BufferStream.h\<close>: a stream that hands out the free space of a buffer. \<open>Next\<close> gives the position and the size of the
  space, which counts as written until the rest of it is backed up.
\<close>

record BufferOutputStream =
  os_buffer :: Buffer
  os_originalSize :: nat

definition BufferOutputStream_new :: "Buffer \<Rightarrow> BufferOutputStream" where
  "BufferOutputStream_new buf = \<lparr>os_buffer = buf, os_originalSize = readableBytes buf\<rparr>"

definition Next :: "BufferOutputStream \<Rightarrow> (nat \<times> int \<times> BufferOutputStream) outcome" where
  "Next os = andThen (ensureWritableBytes 4096 (os_buffer os)) (\<lambda>buf.
     let data = beginWrite buf; size = size_to_int32 (writableBytes buf)
     in andThen (hasWritten (int_to_size size) buf) (\<lambda>buf. Inr (data, size, os\<lparr>os_buffer := buf\<rparr>)))"

definition BackUp :: "int \<Rightarrow> BufferOutputStream \<Rightarrow> BufferOutputStream outcome" where
  "BackUp count os = andThen (unwrite (int_to_size count) (os_buffer os)) (\<lambda>buf. Inr (os\<lparr>os_buffer := buf\<rparr>))"

definition ByteCount :: "BufferOutputStream \<Rightarrow> nat" where
  "ByteCount os = size_sub (readableBytes (os_buffer os)) (os_originalSize os)"

text \<open>Space of at least 4096 bytes is handed out, behind the data of the buffer, and backing up gives back the end of it.\<close>

lemma Next_BackUp:
  assumes b: "buf_inv (os_buffer os)" and room: "length (content (os_buffer os)) + 8192 + kCheapPrepend \<le> vector_max_size"
    and small: "\<And>c. ensureWritableBytes 4096 (os_buffer os) = Inr c \<Longrightarrow> length (buffer c) < 2 ^ 31"
  shows "\<exists>data size os'. Next os = Inr (data, size, os') \<and> 4096 \<le> size \<and> buf_inv (os_buffer os')
    \<and> (\<forall>count. 0 \<le> count \<longrightarrow> count \<le> size \<longrightarrow> (\<exists>os'' x. BackUp count os' = Inr os'' \<and> buf_inv (os_buffer os'')
         \<and> content (os_buffer os'') = content (os_buffer os) @ x \<and> int (length x) = size - count))"
proof -
  have "has_room 4096 (os_buffer os)" by (rule has_room_if_small [OF b]) (use room in simp)
  from ensureWritableBytes_ok [OF b this] obtain c where
    c: "ensureWritableBytes 4096 (os_buffer os) = Inr c" "buf_inv c" "content c = content (os_buffer os)" "4096 \<le> length (buffer c) - writerIndex c" by blast
  let ?n = "length (buffer c) - writerIndex c"
  let ?c = "c\<lparr>writerIndex := writerIndex c + ?n\<rparr>"
  have n: "size_to_int32 ?n = int ?n" "int_to_size (int ?n) = ?n" using small [OF c(1)] by (simp_all add: size_to_int32_def)
  have le: "writerIndex c \<le> length (buffer c)" using c(2) by (simp add: buf_inv_def)
  let ?d = "drop (writerIndex c) (buffer c)"
  have "copy_at (writerIndex c) ?d (buffer c) = buffer c" by (simp add: copy_at_def)
  then have w: "buf_inv ?c" "content ?c = content (os_buffer os) @ ?d" using write_at_end [OF c(2), of ?d] c(3) by simp_all
  have next_os: "Next os = Inr (writerIndex c, int ?n, os\<lparr>os_buffer := ?c\<rparr>)"
    using c(1,2) n by (simp add: Next_def Let_def hasWritten_def beginWrite_def)
  have "\<exists>os'' x. BackUp count (os\<lparr>os_buffer := ?c\<rparr>) = Inr os'' \<and> buf_inv (os_buffer os'')
      \<and> content (os_buffer os'') = content (os_buffer os) @ x \<and> int (length x) = int ?n - count"
    if count: "0 \<le> count" "count \<le> int ?n" for count
  proof -
    have k: "int_to_size count = nat count" using count n(2) small [OF c(1)] int_to_size_of_nat [of "nat count"] by simp
    have "nat count \<le> length (content ?c)" using count w(2) by (simp del: length_content)
    from unwrite_ok [OF w(1) this] obtain u where u: "unwrite (nat count) ?c = Inr u" "buf_inv u"
      "content u = take (length (content ?c) - nat count) (content ?c)" by blast
    have "content u = content (os_buffer os) @ take (?n - nat count) ?d"
      unfolding u(3) w(2) using count by (simp del: length_content)
    with u count show ?thesis by (intro exI [of _ "os\<lparr>os_buffer := u\<rparr>"] exI [of _ "take (?n - nat count) ?d"]) (simp add: BackUp_def k)
  qed
  with next_os w(1) c(4) show ?thesis by (intro exI [of _ "writerIndex c"] exI [of _ "int ?n"] exI [of _ "os\<lparr>os_buffer := ?c\<rparr>"]) simp
qed

end
