(* ===== verification/Muduo_Atomic.thy ===== *)
theory Muduo_Atomic
  imports Muduo_Prelude
begin

text \<open>Atomic counters, \<^verbatim>\<open>base/Atomic.h\<close>.\<close>

section \<open>Atomic integers\<close>

text \<open>Each operation is one atomic step: it gives the value returned and the new value of \<^verbatim>\<open>value_\<close>.\<close>

definition Atomic_get :: "'a::len word \<Rightarrow> 'a word \<times> 'a word" where
  "Atomic_get v = (v, if v = 0 then 0 else v)"

definition getAndAdd :: "'a::len word \<Rightarrow> 'a word \<Rightarrow> 'a word \<times> 'a word" where
  "getAndAdd x v = (v, v + x)"

definition addAndGet :: "'a::len word \<Rightarrow> 'a word \<Rightarrow> 'a word \<times> 'a word" where
  "addAndGet x v = (case getAndAdd x v of (old, v) \<Rightarrow> (old + x, v))"

definition incrementAndGet :: "'a::len word \<Rightarrow> 'a word \<times> 'a word" where
  "incrementAndGet v = addAndGet 1 v"

definition decrementAndGet :: "'a::len word \<Rightarrow> 'a word \<times> 'a word" where
  "decrementAndGet v = addAndGet (- 1) v"

definition Atomic_add :: "'a::len word \<Rightarrow> 'a word \<Rightarrow> 'a word" where
  "Atomic_add x v = snd (getAndAdd x v)"

definition Atomic_increment :: "'a::len word \<Rightarrow> 'a word" where
  "Atomic_increment v = snd (incrementAndGet v)"

definition Atomic_decrement :: "'a::len word \<Rightarrow> 'a word" where
  "Atomic_decrement v = snd (decrementAndGet v)"

definition getAndSet :: "'a::len word \<Rightarrow> 'a word \<Rightarrow> 'a word \<times> 'a word" where
  "getAndSet newValue v = (v, newValue)"

text \<open>The value an operation returns is the one it leaves, so threads that increment get different values, \<open>2 ^ w\<close> times.\<close>

lemma addAndGet_simp [simp]: "addAndGet x v = (v + x, v + x)"
  by (simp add: addAndGet_def getAndAdd_def)

lemma incrementAndGet_simp [simp]: "incrementAndGet v = (v + 1, v + 1)"
  by (simp add: incrementAndGet_def)

end
