(* ===== verification/Muduo_Rpc.thy ===== *)
theory Muduo_Rpc
  imports Muduo_Codec Muduo_Atomic
begin

text \<open>
  Remote procedure calls: \<^verbatim>\<open>net/protorpc/RpcChannel.cc\<close> and \<^verbatim>\<open>net/protorpc/RpcServer.cc\<close>. The
  messages are those of \<^verbatim>\<open>rpc.proto\<close>; that they reach the other side whole and in order is the matter of the codec. The objects
  of the Protocol Buffers library, services with their methods, requests and responses, are arguments.
\<close>

section \<open>Messages\<close>

datatype MessageType = REQUEST | RESPONSE | ERROR

datatype RpcErrorCode = NO_ERROR | WRONG_PROTO | NO_SERVICE | NO_METHOD | INVALID_REQUEST | INVALID_RESPONSE | TIMEOUT

record RpcMessage =
  rm_type :: MessageType
  rm_id :: "64 word"
  rm_service :: "string option"
  rm_method :: "string option"
  rm_request :: "string option"
  rm_response :: "string option"
  rm_error :: "RpcErrorCode option"

text \<open>A new message with its two required fields set; a string field that is not set reads as the empty string.\<close>

definition RpcMessage_make :: "MessageType \<Rightarrow> 64 word \<Rightarrow> RpcMessage" where
  "RpcMessage_make type ident = \<lparr>rm_type = type, rm_id = ident, rm_service = None, rm_method = None, rm_request = None, rm_response = None, rm_error = None\<rparr>"

definition field :: "string option \<Rightarrow> string" where
  "field f = (case f of None \<Rightarrow> [] | Some s \<Rightarrow> s)"

section \<open>Channels\<close>

text \<open>
  A service: \<^verbatim>\<open>FindMethodByName\<close>, and \<^verbatim>\<open>ParseFromString\<close> of a new request of the method. A response object and a closure of the caller
  are named by \<open>'c\<close>, a null pointer is \<open>None\<close>.
\<close>

record ('m, 'q) rpc_service =
  sv_FindMethodByName :: "string \<Rightarrow> 'm option"
  sv_ParseRequest :: "'m \<Rightarrow> string \<Rightarrow> 'q option"

type_synonym ('m, 'q) services = "string \<rightharpoonup> ('m, 'q) rpc_service"

record 'c OutstandingCall =
  oc_response :: "'c option"
  oc_done :: "'c option"

record ('c, 'm, 'q) RpcChannel =
  ch_id :: "64 word"
  ch_outstandings :: "64 word \<rightharpoonup> 'c OutstandingCall"
  ch_services :: "('m, 'q) services option"

text \<open>What a handler does outside of the channel, in order.\<close>

datatype ('c, 'm, 'q) rpc_effect =
    Send RpcMessage
  | ParseResponse 'c string
  | RunDone 'c
  | DeleteResponse 'c
  | CallService 'm 'q "64 word"

definition RpcChannel_new :: "('c, 'm, 'q) RpcChannel" where
  "RpcChannel_new = \<lparr>ch_id = 0, ch_outstandings = Map.empty, ch_services = None\<rparr>"

definition setServices :: "('m, 'q) services \<Rightarrow> ('c, 'm, 'q) RpcChannel \<Rightarrow> ('c, 'm, 'q) RpcChannel" where
  "setServices services ch = ch\<lparr>ch_services := Some services\<rparr>"

text \<open>The responses and closures the destructor deletes.\<close>

definition RpcChannel_delete :: "('c, 'm, 'q) RpcChannel \<Rightarrow> 'c OutstandingCall set" where
  "RpcChannel_delete ch = ran (ch_outstandings ch)"

text \<open>The call is registered before its message is sent.\<close>

definition CallMethod ::
  "string \<Rightarrow> string \<Rightarrow> string \<Rightarrow> 'c option \<Rightarrow> 'c option \<Rightarrow> ('c, 'm, 'q) RpcChannel \<Rightarrow> ('c, 'm, 'q) RpcChannel \<times> ('c, 'm, 'q) rpc_effect list" where
  "CallMethod full_name name request response done ch =
     (case incrementAndGet (ch_id ch) of (ident, v) \<Rightarrow>
        let message = (RpcMessage_make REQUEST ident)\<lparr>rm_service := Some full_name, rm_method := Some name, rm_request := Some request\<rparr>;
            out = \<lparr>oc_response = response, oc_done = done\<rparr>
        in (ch\<lparr>ch_id := v, ch_outstandings := (ch_outstandings ch)(ident \<mapsto> out)\<rparr>, [Send message]))"

definition doneCallback :: "string \<Rightarrow> 64 word \<Rightarrow> ('c, 'm, 'q) rpc_effect list" where
  "doneCallback response ident = [Send ((RpcMessage_make RESPONSE ident)\<lparr>rm_response := Some response\<rparr>)]"

definition onResponse :: "RpcMessage \<Rightarrow> ('c, 'm, 'q) RpcChannel \<Rightarrow> (('c, 'm, 'q) RpcChannel \<times> ('c, 'm, 'q) rpc_effect list) outcome" where
  "onResponse message ch =
     assert_that (rm_response message \<noteq> None \<or> rm_error message \<noteq> None) ''message.has_response() || message.has_error()''
       (let ident = rm_id message in
        case ch_outstandings ch ident of None \<Rightarrow> Inr (ch, [])
        | Some out \<Rightarrow>
            Inr (ch\<lparr>ch_outstandings := (ch_outstandings ch)(ident := None)\<rparr>,
              (case oc_response out of None \<Rightarrow> []
               | Some response \<Rightarrow>
                   (case rm_response message of None \<Rightarrow> [] | Some bytes \<Rightarrow> [ParseResponse response bytes])
                   @ (case oc_done out of None \<Rightarrow> [] | Some done \<Rightarrow> [RunDone done])
                   @ [DeleteResponse response])))"

definition onRequest :: "RpcMessage \<Rightarrow> ('c, 'm, 'q) RpcChannel \<Rightarrow> RpcErrorCode \<times> ('c, 'm, 'q) rpc_effect list" where
  "onRequest message ch = (case ch_services ch of None \<Rightarrow> (NO_SERVICE, [])
     | Some services \<Rightarrow> (case services (field (rm_service message)) of None \<Rightarrow> (NO_SERVICE, [])
     | Some service \<Rightarrow> (case sv_FindMethodByName service (field (rm_method message)) of None \<Rightarrow> (NO_METHOD, [])
     | Some method \<Rightarrow> (case sv_ParseRequest service method (field (rm_request message)) of None \<Rightarrow> (INVALID_REQUEST, [])
     | Some request \<Rightarrow> (NO_ERROR, [CallService method request (rm_id message)])))))"

definition onRpcMessage ::
  "bool \<Rightarrow> RpcMessage \<Rightarrow> ('c, 'm, 'q) RpcChannel \<Rightarrow> (('c, 'm, 'q) RpcChannel \<times> ('c, 'm, 'q) rpc_effect list) outcome" where
  "onRpcMessage same_conn message ch =
     assert_that same_conn ''conn == conn_''
       (case rm_type message of
          RESPONSE \<Rightarrow> onResponse message ch
        | REQUEST \<Rightarrow> (case onRequest message ch of (error, effects) \<Rightarrow>
            Inr (ch, if error \<noteq> NO_ERROR then effects @ [Send ((RpcMessage_make RESPONSE (rm_id message))\<lparr>rm_error := Some error\<rparr>)] else effects))
        | ERROR \<Rightarrow> Inr (ch, []))"

section \<open>Servers\<close>

record ('m, 'q) RpcServer =
  rpc_services :: "('m, 'q) services"

definition registerService :: "string \<Rightarrow> ('m, 'q) rpc_service \<Rightarrow> ('m, 'q) RpcServer \<Rightarrow> ('m, 'q) RpcServer" where
  "registerService full_name service sv = sv\<lparr>rpc_services := (rpc_services sv)(full_name \<mapsto> service)\<rparr>"

text \<open>The context of the connection: a channel on the services while it is up.\<close>

definition RpcServer_onConnection :: "bool \<Rightarrow> ('m, 'q) RpcServer \<Rightarrow> ('c, 'm, 'q) RpcChannel option" where
  "RpcServer_onConnection up sv = (if up then Some (setServices (rpc_services sv) RpcChannel_new) else None)"

section \<open>Calls between two hosts\<close>

text \<open>
  A client and a server at the two ends of a connection, with the messages under way in both directions. \<open>ry_calls\<close> is the
  history of the calls: the service, the method and the bytes of the request; the \<open>n\<close>-th call names its response object and
  closure by \<open>n\<close>. The server works on several calls at once and finishes them in any order; \<open>answer\<close> is what its methods
  compute. \<open>ry_results\<close> are the calls whose closures ran, with the bytes their responses were parsed from, if any.
\<close>

record ('m, 'q) rpc_sys =
  ry_client :: "(nat, 'm, 'q) RpcChannel"
  ry_server :: "(nat, 'm, 'q) RpcChannel"
  ry_calls :: "(string \<times> string \<times> string) list"
  ry_requests :: "RpcMessage list"
  ry_working :: "(64 word \<times> 'm \<times> 'q) list"
  ry_replies :: "RpcMessage list"
  ry_results :: "(nat \<times> string option) list"

fun sent :: "('c, 'm, 'q) rpc_effect list \<Rightarrow> RpcMessage list" where
  "sent [] = []"
| "sent (Send m # es) = m # sent es"
| "sent (e # es) = sent es"

fun started :: "('c, 'm, 'q) rpc_effect list \<Rightarrow> (64 word \<times> 'm \<times> 'q) list" where
  "started [] = []"
| "started (CallService m q i # es) = (i, m, q) # started es"
| "started (e # es) = started es"

text \<open>The closures that are run, with what their response was parsed from last.\<close>

fun finished :: "string option \<Rightarrow> ('c, 'm, 'q) rpc_effect list \<Rightarrow> ('c \<times> string option) list" where
  "finished r [] = []"
| "finished r (ParseResponse c bytes # es) = finished (Some bytes) es"
| "finished r (RunDone c # es) = (c, r) # finished r es"
| "finished r (e # es) = finished r es"

definition rpc_start :: "('m, 'q) RpcServer \<Rightarrow> ('m, 'q) rpc_sys option" where
  "rpc_start sv = map_option (\<lambda>server. \<lparr>ry_client = RpcChannel_new, ry_server = server, ry_calls = [], ry_requests = [], ry_working = [],
     ry_replies = [], ry_results = []\<rparr>) (RpcServer_onConnection True sv)"

inductive rpc_step :: "('m \<Rightarrow> 'q \<Rightarrow> string) \<Rightarrow> ('m, 'q) rpc_sys \<Rightarrow> ('m, 'q) rpc_sys \<Rightarrow> bool" for answer where
  Call: "CallMethod svc meth req (Some (length (ry_calls s))) (Some (length (ry_calls s))) (ry_client s) = (client, es) \<Longrightarrow>
    length (ry_calls s) < 2 ^ 64 - 1 \<Longrightarrow>
    rpc_step answer s (s\<lparr>ry_client := client, ry_calls := ry_calls s @ [(svc, meth, req)], ry_requests := ry_requests s @ sent es\<rparr>)"
| Serve: "ry_requests s = m # ms \<Longrightarrow> onRpcMessage True m (ry_server s) = Inr (server, es) \<Longrightarrow>
    rpc_step answer s (s\<lparr>ry_server := server, ry_requests := ms, ry_working := ry_working s @ started es, ry_replies := ry_replies s @ sent es\<rparr>)"
| Finish: "ry_working s = ws @ (i, m, q) # ws' \<Longrightarrow>
    rpc_step answer s (s\<lparr>ry_working := ws @ ws', ry_replies := ry_replies s @ sent (doneCallback (answer m q) i :: (nat, 'm, 'q) rpc_effect list)\<rparr>)"
| Reply: "ry_replies s = m # ms \<Longrightarrow> onRpcMessage True m (ry_client s) = Inr (client, es) \<Longrightarrow>
    rpc_step answer s (s\<lparr>ry_client := client, ry_replies := ms, ry_results := ry_results s @ finished None es\<rparr>)"

text \<open>What a call comes to: the method that is called, or an error.\<close>

definition lookup :: "('m, 'q) services \<Rightarrow> string \<times> string \<times> string \<Rightarrow> RpcErrorCode + ('m \<times> 'q)" where
  "lookup services c = (case c of (svc, meth, req) \<Rightarrow> (case services svc of None \<Rightarrow> Inl NO_SERVICE
     | Some service \<Rightarrow> (case sv_FindMethodByName service meth of None \<Rightarrow> Inl NO_METHOD
     | Some m \<Rightarrow> (case sv_ParseRequest service m req of None \<Rightarrow> Inl INVALID_REQUEST | Some q \<Rightarrow> Inr (m, q)))))"

definition result_of :: "('m \<Rightarrow> 'q \<Rightarrow> string) \<Rightarrow> ('m, 'q) services \<Rightarrow> string \<times> string \<times> string \<Rightarrow> string option" where
  "result_of answer services c = (case lookup services c of Inl e \<Rightarrow> None | Inr (m, q) \<Rightarrow> Some (answer m q))"

section \<open>The invariant\<close>

definition call_id :: "nat \<Rightarrow> 64 word" where
  "call_id n = word_of_nat (Suc n)"

definition request_of :: "(string \<times> string \<times> string) list \<Rightarrow> nat \<Rightarrow> RpcMessage" where
  "request_of calls n = (case calls ! n of (svc, meth, req) \<Rightarrow>
     (RpcMessage_make REQUEST (call_id n))\<lparr>rm_service := Some svc, rm_method := Some meth, rm_request := Some req\<rparr>)"

definition work_of :: "('m, 'q) services \<Rightarrow> (string \<times> string \<times> string) list \<Rightarrow> nat \<Rightarrow> 64 word \<times> 'm \<times> 'q" where
  "work_of services calls n = (call_id n, projr (lookup services (calls ! n)))"

definition reply_of :: "('m \<Rightarrow> 'q \<Rightarrow> string) \<Rightarrow> ('m, 'q) services \<Rightarrow> (string \<times> string \<times> string) list \<Rightarrow> nat \<Rightarrow> RpcMessage" where
  "reply_of answer services calls n = (case lookup services (calls ! n) of
     Inl e \<Rightarrow> (RpcMessage_make RESPONSE (call_id n))\<lparr>rm_error := Some e\<rparr>
   | Inr (m, q) \<Rightarrow> (RpcMessage_make RESPONSE (call_id n))\<lparr>rm_response := Some (answer m q)\<rparr>)"

text \<open>
  Each call is in exactly one place: its request is under way (\<open>qs\<close>), the server works on it (\<open>ws\<close>), its reply is under way
  (\<open>rs\<close>), or it is done (\<open>ds\<close>); the client waits for the first three.
\<close>

definition rpc_places :: "('m \<Rightarrow> 'q \<Rightarrow> string) \<Rightarrow> ('m, 'q) services \<Rightarrow> ('m, 'q) rpc_sys \<Rightarrow> nat list \<Rightarrow> nat list \<Rightarrow> nat list \<Rightarrow> nat list \<Rightarrow> bool" where
  "rpc_places answer services s qs ws rs ds \<longleftrightarrow>
     distinct (qs @ ws @ rs @ ds) \<and> set (qs @ ws @ rs @ ds) = {..<length (ry_calls s)} \<and> length (ry_calls s) < 2 ^ 64
     \<and> ry_requests s = map (request_of (ry_calls s)) qs
     \<and> ry_working s = map (work_of services (ry_calls s)) ws \<and> (\<forall>n \<in> set ws. \<not> isl (lookup services (ry_calls s ! n)))
     \<and> ry_replies s = map (reply_of answer services (ry_calls s)) rs
     \<and> ry_results s = map (\<lambda>n. (n, result_of answer services (ry_calls s ! n))) ds
     \<and> ch_id (ry_client s) = word_of_nat (length (ry_calls s))
     \<and> ch_services (ry_server s) = Some services
     \<and> (\<forall>n \<in> set (qs @ ws @ rs). ch_outstandings (ry_client s) (call_id n) = Some \<lparr>oc_response = Some n, oc_done = Some n\<rparr>)
     \<and> dom (ch_outstandings (ry_client s)) = call_id ` set (qs @ ws @ rs)"

lemma call_id_eq: "m < 2 ^ 64 - 1 \<Longrightarrow> n < 2 ^ 64 - 1 \<Longrightarrow> call_id m = call_id n \<longleftrightarrow> m = n"
proof
  assume b: "m < 2 ^ 64 - 1" "n < 2 ^ 64 - 1" and "call_id m = call_id n"
  then have "unat (word_of_nat (Suc m) :: 64 word) = unat (word_of_nat (Suc n) :: 64 word)" by (simp add: call_id_def)
  moreover have "unat (word_of_nat (Suc k) :: 64 word) = Suc k" if "k < 2 ^ 64 - 1" for k
    using that by (simp add: unsigned_of_nat take_bit_nat_eq_self del: of_nat_Suc)
  ultimately show "m = n" using b by simp
qed simp

lemma of_calls_append:
  assumes "n < length calls"
  shows "request_of (calls @ [c]) n = request_of calls n" and "work_of services (calls @ [c]) n = work_of services calls n"
    and "reply_of answer services (calls @ [c]) n = reply_of answer services calls n"
  using assms by (simp_all add: request_of_def work_of_def reply_of_def nth_append)

text \<open>The server answers a request with an error, or starts to work on it; the client hands a reply to the call it belongs to.\<close>

lemma serve_request:
  assumes "ch_services ch = Some services"
  shows "onRpcMessage True (request_of calls n) ch = Inr (ch, case lookup services (calls ! n) of
    Inl e \<Rightarrow> [Send (reply_of answer services calls n)] | Inr (m, q) \<Rightarrow> [CallService m q (call_id n)])"
  using assms
  by (cases "calls ! n")
    (simp add: onRpcMessage_def onRequest_def request_of_def lookup_def field_def RpcMessage_make_def reply_of_def split: option.splits)

lemma take_reply:
  assumes "ch_outstandings ch (call_id n) = Some \<lparr>oc_response = Some n, oc_done = Some n\<rparr>"
  shows "\<exists>es. onRpcMessage True (reply_of answer services calls n) ch = Inr (ch\<lparr>ch_outstandings := (ch_outstandings ch)(call_id n := None)\<rparr>, es)
    \<and> finished None es = [(n, result_of answer services (calls ! n))]"
  using assms
  by (simp add: onRpcMessage_def onResponse_def reply_of_def result_of_def RpcMessage_make_def Let_def split: sum.splits)

text \<open>The places after each step.\<close>

lemma places_call:
  assumes s: "rpc_places answer services s qs ws rs ds" and n: "length (ry_calls s) < 2 ^ 64 - 1"
    and call: "CallMethod svc meth req (Some (length (ry_calls s))) (Some (length (ry_calls s))) (ry_client s) = (client, es)"
  shows "rpc_places answer services (s\<lparr>ry_client := client, ry_calls := ry_calls s @ [(svc, meth, req)], ry_requests := ry_requests s @ sent es\<rparr>)
    (qs @ [length (ry_calls s)]) ws rs ds"
proof -
  let ?n = "length (ry_calls s)"
  have lt: "\<And>k. k \<in> set (qs @ ws @ rs @ ds) \<Longrightarrow> k < ?n" using s by (auto simp: rpc_places_def)
  have id: "ch_id (ry_client s) + 1 = call_id ?n" using s by (simp add: rpc_places_def call_id_def add.commute)
  have c: "client = (ry_client s)\<lparr>ch_id := call_id ?n, ch_outstandings := (ch_outstandings (ry_client s))(call_id ?n \<mapsto> \<lparr>oc_response = Some ?n, oc_done = Some ?n\<rparr>)\<rparr>"
    "sent es = [request_of (ry_calls s @ [(svc, meth, req)]) ?n]"
    using call id by (auto simp: CallMethod_def Let_def request_of_def)
  have ne: "call_id k \<noteq> call_id ?n" if "k \<in> set (qs @ ws @ rs @ ds)" for k
    using lt [OF that] n call_id_eq [of k ?n] by linarith
  have m: "map (request_of (ry_calls s @ [(svc, meth, req)])) qs = map (request_of (ry_calls s)) qs"
    "map (work_of services (ry_calls s @ [(svc, meth, req)])) ws = map (work_of services (ry_calls s)) ws"
    "map (reply_of answer services (ry_calls s @ [(svc, meth, req)])) rs = map (reply_of answer services (ry_calls s)) rs"
    "map (\<lambda>n. (n, result_of answer services ((ry_calls s @ [(svc, meth, req)]) ! n))) ds = map (\<lambda>n. (n, result_of answer services (ry_calls s ! n))) ds"
    using lt by (auto simp: of_calls_append nth_append)
  have l: "\<forall>k \<in> set ws. \<not> isl (lookup services ((ry_calls s @ [(svc, meth, req)]) ! k))" using s lt by (auto simp: rpc_places_def nth_append)
  have d: "distinct ((qs @ [?n]) @ ws @ rs @ ds)" "set ((qs @ [?n]) @ ws @ rs @ ds) = {..<Suc ?n}" 
    using s lt by (auto simp: rpc_places_def)
  have old: "\<forall>k \<in> set (qs @ ws @ rs). ch_outstandings (ry_client s) (call_id k) = Some \<lparr>oc_response = Some k, oc_done = Some k\<rparr>"
    "dom (ch_outstandings (ry_client s)) = call_id ` set (qs @ ws @ rs)"
    using s by (simp_all add: rpc_places_def)
  have o: "ch_id client = word_of_nat (Suc ?n)" "dom (ch_outstandings client) = call_id ` set ((qs @ [?n]) @ ws @ rs)"
    "\<forall>k \<in> set ((qs @ [?n]) @ ws @ rs). ch_outstandings client (call_id k) = Some \<lparr>oc_response = Some k, oc_done = Some k\<rparr>"
    using old c(1) ne call_id_def [of ?n] by auto
  show ?thesis using s n d m l o c(2) unfolding rpc_places_def by (intro conjI) simp_all
qed

lemma places_serve:
  assumes s: "rpc_places answer services s (n # qs) ws rs ds" and m: "ry_requests s = m # ms" "onRpcMessage True m (ry_server s) = Inr (server, es)"
  shows "\<exists>ws' rs'. rpc_places answer services
    (s\<lparr>ry_server := server, ry_requests := ms, ry_working := ry_working s @ started es, ry_replies := ry_replies s @ sent es\<rparr>) qs ws' rs' ds"
proof -
  have q: "m = request_of (ry_calls s) n" "ms = map (request_of (ry_calls s)) qs" and sv: "ch_services (ry_server s) = Some services"
    using s m(1) by (auto simp: rpc_places_def)
  note r = m(2) [unfolded q(1) serve_request [OF sv, of _ _ answer]]
  show ?thesis
  proof (cases "lookup services (ry_calls s ! n)")
    case (Inl e)
    with r have "server = ry_server s" "started es = []" "sent es = [reply_of answer services (ry_calls s) n]" by auto
    moreover have "distinct (qs @ ws @ (rs @ [n]) @ ds)" using s by (auto simp: rpc_places_def)
    moreover have "set ((n # qs) @ ws @ rs) = set (qs @ ws @ rs @ [n])" "set ((n # qs) @ ws @ rs @ ds) = set (qs @ ws @ (rs @ [n]) @ ds)" by auto
    ultimately have "rpc_places answer services
        (s\<lparr>ry_server := server, ry_requests := ms, ry_working := ry_working s @ started es, ry_replies := ry_replies s @ sent es\<rparr>) qs ws (rs @ [n]) ds"
      using s q unfolding rpc_places_def by (intro conjI) simp_all
    then show ?thesis by blast
  next
    case (Inr mq)
    with r have "server = ry_server s" "started es = [work_of services (ry_calls s) n]" "sent es = []"
      by (auto simp: work_of_def split: prod.splits)
    with s q Inr show ?thesis by (intro exI [of _ "ws @ [n]"] exI [of _ rs]) (auto simp: rpc_places_def)
  qed
qed

lemma places_finish:
  assumes s: "rpc_places answer services s qs ws rs ds" and w: "ry_working s = xs @ (i, m, q) # ys"
  shows "\<exists>ws' rs'. rpc_places answer services
    (s\<lparr>ry_working := xs @ ys, ry_replies := ry_replies s @ sent (doneCallback (answer m q) i :: (nat, 'm, 'q) rpc_effect list)\<rparr>) qs ws' rs' ds"
proof -
  have "map (work_of services (ry_calls s)) ws = xs @ (i, m, q) # ys" using s w by (simp add: rpc_places_def)
  then obtain us n vs where ws: "ws = us @ n # vs" "xs = map (work_of services (ry_calls s)) us" "ys = map (work_of services (ry_calls s)) vs"
    "work_of services (ry_calls s) n = (i, m, q)"
    by (auto simp: map_eq_append_conv map_eq_Cons_conv)
  have "\<not> isl (lookup services (ry_calls s ! n))" using s ws(1) by (simp add: rpc_places_def)
  with ws(4) have "sent (doneCallback (answer m q) i :: (nat, 'm, 'q) rpc_effect list) = [reply_of answer services (ry_calls s) n]"
    by (cases "lookup services (ry_calls s ! n)") (auto simp: work_of_def doneCallback_def reply_of_def)
  then have "ry_replies s @ sent (doneCallback (answer m q) i :: (nat, 'm, 'q) rpc_effect list) = map (reply_of answer services (ry_calls s)) (rs @ [n])"
    using s by (simp add: rpc_places_def)
  moreover have "distinct (qs @ (us @ vs) @ (rs @ [n]) @ ds)" using s ws(1) by (auto simp: rpc_places_def)
  moreover have "set (qs @ ws @ rs) = set (qs @ (us @ vs) @ rs @ [n])" "set (qs @ ws @ rs @ ds) = set (qs @ (us @ vs) @ (rs @ [n]) @ ds)"
    using ws(1) by auto
  ultimately have "rpc_places answer services
      (s\<lparr>ry_working := xs @ ys, ry_replies := ry_replies s @ sent (doneCallback (answer m q) i :: (nat, 'm, 'q) rpc_effect list)\<rparr>) qs (us @ vs) (rs @ [n]) ds"
    using s ws unfolding rpc_places_def by (intro conjI) simp_all
  then show ?thesis by blast
qed

lemma places_reply:
  assumes s: "rpc_places answer services s qs ws (n # rs) ds" and m: "ry_replies s = m # ms" "onRpcMessage True m (ry_client s) = Inr (client, es)"
  shows "rpc_places answer services (s\<lparr>ry_client := client, ry_replies := ms, ry_results := ry_results s @ finished None es\<rparr>) qs ws rs (ds @ [n])"
proof -
  have r: "m = reply_of answer services (ry_calls s) n" "ms = map (reply_of answer services (ry_calls s)) rs"
    and o: "ch_outstandings (ry_client s) (call_id n) = Some \<lparr>oc_response = Some n, oc_done = Some n\<rparr>"
    using s m(1) by (auto simp: rpc_places_def)
  from take_reply [OF o, of answer services "ry_calls s"] m(2) r(1)
  have e: "client = (ry_client s)\<lparr>ch_outstandings := (ch_outstandings (ry_client s))(call_id n := None)\<rparr>" "finished None es = [(n, result_of answer services (ry_calls s ! n))]"
    by auto
  have lt: "\<And>k. k \<in> set (qs @ ws @ (n # rs) @ ds) \<Longrightarrow> k < 2 ^ 64 - 1" using s by (fastforce simp: rpc_places_def)
  have "n \<notin> set (qs @ ws @ rs)" using s by (auto simp: rpc_places_def)
  then have ne: "call_id k \<noteq> call_id n" if "k \<in> set (qs @ ws @ rs)" for k
    using that lt [of k] lt [of n] call_id_eq [of k n] by auto
  have "call_id ` set (qs @ ws @ n # rs) - {call_id n} = call_id ` set (qs @ ws @ rs)" using ne by auto
  then show ?thesis using s r e ne by (auto simp: rpc_places_def)
qed

lemma rpc_places_start:
  assumes "rpc_start sv = Some s"
  shows "rpc_places answer (rpc_services sv) s [] [] [] []"
  using assms by (auto simp: rpc_start_def RpcServer_onConnection_def setServices_def RpcChannel_new_def rpc_places_def)

lemma rpc_places_step:
  assumes "rpc_step answer s s'" and "rpc_places answer services s qs ws rs ds"
  shows "\<exists>qs' ws' rs' ds'. rpc_places answer services s' qs' ws' rs' ds'"
  using assms(1)
proof cases
  case (Call svc meth req client es)
  then show ?thesis using places_call [OF assms(2)] by blast
next
  case (Serve m ms server es)
  then obtain n qs' where "qs = n # qs'" using assms(2) by (cases qs) (auto simp: rpc_places_def)
  then show ?thesis using places_serve [of answer services s] Serve assms(2) by blast
next
  case (Finish xs i m q ys)
  then show ?thesis using places_finish [OF assms(2)] by blast
next
  case (Reply m ms client es)
  then obtain n rs' where "rs = n # rs'" using assms(2) by (cases rs) (auto simp: rpc_places_def)
  then show ?thesis using places_reply [of answer services s] Reply assms(2) by blast
qed

lemma rpc_places_reachable:
  assumes "(rpc_step answer)\<^sup>*\<^sup>* s s'" and "rpc_start sv = Some s"
  shows "\<exists>qs ws rs ds. rpc_places answer (rpc_services sv) s' qs ws rs ds"
  using assms
proof (induction rule: rtranclp_induct)
  case base
  then show ?case using rpc_places_start by blast
next
  case (step t u)
  then show ?case using rpc_places_step by blast
qed

text \<open>The next message of either direction is handled without a failing assertion.\<close>

lemma rpc_places_progress:
  assumes s: "rpc_places answer services s qs ws rs ds"
  shows "(ry_requests s = m # ms \<longrightarrow> (\<exists>server es. onRpcMessage True m (ry_server s) = Inr (server, es)))
    \<and> (ry_replies s = m # ms \<longrightarrow> (\<exists>client es. onRpcMessage True m (ry_client s) = Inr (client, es)))"
proof (intro conjI impI)
  assume "ry_requests s = m # ms"
  with s obtain n where "m = request_of (ry_calls s) n" "ch_services (ry_server s) = Some services" by (cases qs) (auto simp: rpc_places_def)
  then show "\<exists>server es. onRpcMessage True m (ry_server s) = Inr (server, es)" using serve_request by blast
next
  assume r: "ry_replies s = m # ms"
  with s obtain n rs' where n: "rs = n # rs'" "m = reply_of answer services (ry_calls s) n" by (cases rs) (auto simp: rpc_places_def)
  with s have "ch_outstandings (ry_client s) (call_id n) = Some \<lparr>oc_response = Some n, oc_done = Some n\<rparr>" by (simp add: rpc_places_def)
  from take_reply [OF this] n(2) show "\<exists>client es. onRpcMessage True m (ry_client s) = Inr (client, es)" by blast
qed

text \<open>
  C22. Every remote call gets its own answer. However the calls of a client, the work of the server, which may finish calls in any
  order, and the delivery of messages are interleaved: no assertion of either channel fails; each closure runs at most once,
  with the answer to the request of its own call, or with none when the service or the method does not exist or the request
  cannot be parsed; and a call whose closure has not run is still under way, so that once nothing is under way every closure
  has run and the client remembers no call. Fewer than \<open>2 ^ 64\<close> calls are made.
\<close>

theorem rpc_answers_match:
  assumes start: "rpc_start sv = Some s0" and run: "(rpc_step answer)\<^sup>*\<^sup>* s0 s"
  shows "distinct (map fst (ry_results s))
    \<and> (\<forall>(n, r) \<in> set (ry_results s). n < length (ry_calls s) \<and> r = result_of answer (rpc_services sv) (ry_calls s ! n))
    \<and> length (ry_calls s) = length (ry_requests s) + length (ry_working s) + length (ry_replies s) + length (ry_results s)
    \<and> (ry_requests s = [] \<and> ry_working s = [] \<and> ry_replies s = [] \<longrightarrow>
         set (map fst (ry_results s)) = {..<length (ry_calls s)} \<and> ch_outstandings (ry_client s) = Map.empty)
    \<and> (\<forall>m ms. (ry_requests s = m # ms \<longrightarrow> (\<exists>server es. onRpcMessage True m (ry_server s) = Inr (server, es)))
         \<and> (ry_replies s = m # ms \<longrightarrow> (\<exists>client es. onRpcMessage True m (ry_client s) = Inr (client, es))))"
proof -
  let ?sv = "rpc_services sv"
  obtain qs ws rs ds where p: "rpc_places answer ?sv s qs ws rs ds" using rpc_places_reachable [OF run start] by blast
  have r: "map fst (ry_results s) = ds" using p by (simp add: rpc_places_def comp_def)
  have d: "distinct (qs @ ws @ rs @ ds)" "set (qs @ ws @ rs @ ds) = {..<length (ry_calls s)}" using p by (simp_all add: rpc_places_def)
  have "length (ry_calls s) = card (set (qs @ ws @ rs @ ds))" unfolding d(2) by simp
  also have "\<dots> = length (qs @ ws @ rs @ ds)" by (rule distinct_card [OF d(1)])
  also have "\<dots> = length (ry_requests s) + length (ry_working s) + length (ry_replies s) + length (ry_results s)"
    using p by (simp add: rpc_places_def)
  finally have n: "length (ry_calls s) = length (ry_requests s) + length (ry_working s) + length (ry_replies s) + length (ry_results s)" .
  have "\<forall>(n, r) \<in> set (ry_results s). n < length (ry_calls s) \<and> r = result_of answer ?sv (ry_calls s ! n)"
    using p d(2) by (auto simp: rpc_places_def)
  moreover have "set (map fst (ry_results s)) = {..<length (ry_calls s)} \<and> ch_outstandings (ry_client s) = Map.empty"
    if "ry_requests s = [] \<and> ry_working s = [] \<and> ry_replies s = []"
  proof -
    have e: "qs = []" "ws = []" "rs = []" using p that by (auto simp: rpc_places_def)
    then have "dom (ch_outstandings (ry_client s)) = {}" using p by (simp add: rpc_places_def)
    then show ?thesis using r d(2) e by auto
  qed
  ultimately show ?thesis using r d(1) n rpc_places_progress [OF p] by simp
qed

text \<open>A server with one service that has one method, which answers with the request itself.\<close>

definition echo_server :: "(unit, string) RpcServer" where
  "echo_server = registerService ''Echo'' \<lparr>sv_FindMethodByName = (\<lambda>m. if m = ''echo'' then Some () else None), sv_ParseRequest = (\<lambda>m q. Some q)\<rparr>
     \<lparr>rpc_services = Map.empty\<rparr>"

theorem rpc_answers_match_witness:
  "\<exists>s0 s. rpc_start echo_server = Some s0 \<and> (rpc_step (\<lambda>m q. q))\<^sup>*\<^sup>* s0 s \<and> length (ry_calls s) = 1
     \<and> (\<forall>m ms. ry_requests s = m # ms \<longrightarrow> (\<exists>server es. onRpcMessage True m (ry_server s) = Inr (server, es)))"
proof -
  obtain s0 :: "(unit, string) rpc_sys" where s0: "rpc_start echo_server = Some s0" "ry_calls s0 = []"
    by (auto simp: rpc_start_def RpcServer_onConnection_def)
  obtain client es where "CallMethod ''Echo'' ''echo'' ''hi'' (Some (length (ry_calls s0))) (Some (length (ry_calls s0))) (ry_client s0) = (client, es)" by fastforce
  from rpc_step.Call [OF this, of "\<lambda>m q. q"] s0(2) obtain s where s: "rpc_step (\<lambda>m q. q) s0 s" "length (ry_calls s) = 1" by fastforce
  from rpc_answers_match [OF s0(1) r_into_rtranclp, OF s(1)] s0(1) s show ?thesis by (intro exI [of _ s0] exI [of _ s]) auto
qed

section \<open>Channels on the codec\<close>

definition rpctag :: string where "rpctag = ''RPC0''"

text \<open>The codec of a channel: its state are the channel and what its handlers did so far.\<close>

definition RpcCodec ::
  "(Buffer \<Rightarrow> Timestamp \<Rightarrow> ErrorCode \<Rightarrow> ('c, 'm, 'q) RpcChannel \<times> ('c, 'm, 'q) rpc_effect list
      \<Rightarrow> (Buffer \<times> ('c, 'm, 'q) RpcChannel \<times> ('c, 'm, 'q) rpc_effect list) outcome)
   \<Rightarrow> (RpcMessage, ('c, 'm, 'q) RpcChannel \<times> ('c, 'm, 'q) rpc_effect list) ProtobufCodecLite" where
  "RpcCodec errorCb = \<lparr>pc_tag = rpctag,
     pc_messageCallback = (\<lambda>m t (ch, es). andThen (onRpcMessage True m ch) (\<lambda>(ch, es'). Inr (ch, es @ es'))),
     pc_rawCb = None, pc_errorCallback = errorCb\<rparr>"

definition RpcChannel_onMessage where
  "RpcChannel_onMessage e adler pb errorCb receiveTime buf w = codec_onMessage e adler pb (RpcCodec errorCb) receiveTime buf w"

text \<open>The handlers of a channel for a sequence of messages.\<close>

fun handle_all :: "RpcMessage list \<Rightarrow> ('c, 'm, 'q) RpcChannel \<times> ('c, 'm, 'q) rpc_effect list \<Rightarrow> (('c, 'm, 'q) RpcChannel \<times> ('c, 'm, 'q) rpc_effect list) outcome" where
  "handle_all [] w = Inr w"
| "handle_all (m # ms) (ch, es) = andThen (onRpcMessage True m ch) (\<lambda>(ch, es'). handle_all ms (ch, es @ es'))"

lemma deliver_handle_all: "for_each (deliver adler pb (RpcCodec errorCb) t) ms w = handle_all ms w"
proof (induction ms arbitrary: w)
  case (Cons m ms)
  obtain ch es where w: "w = (ch, es)" by fastforce
  have "deliver adler pb (RpcCodec errorCb) t m (ch, es) = andThen (onRpcMessage True m ch) (\<lambda>(ch, es'). Inr (ch, es @ es'))"
    by (simp add: deliver_def raw_wants_def RpcCodec_def)
  then show ?case using Cons.IH by (cases "onRpcMessage True m ch") (auto simp: w)
qed simp

text \<open>The messages one channel sends are handled by the other in order, however their bytes are cut into pieces.\<close>

lemma rpc_messages_arrive:
  assumes "buf_inv b" and "content b = []" and "\<forall>m \<in> set ms. message_fits pb (RpcCodec errorCb) m"
    and "concat xs = concat (map (message_frame adler pb (RpcCodec errorCb)) ms)" and "2 * length (concat xs) + kCheapPrepend \<le> vector_max_size"
  shows "\<exists>b'. content b' = [] \<and> (\<forall>w. receive e adler pb (RpcCodec errorCb) t xs b w = andThen (handle_all ms w) (\<lambda>w. Inr (b', w)))"
proof -
  have "waits_for adler pb (RpcCodec errorCb) ms (content b)" unfolding assms(2) by (simp add: waits_for_def length_frame)
  from receive_frames [OF assms(1) _ this assms(3)] assms(2,4,5) show ?thesis unfolding deliver_handle_all by fastforce
qed

end
