(* ===== verification/Muduo_Queues.thy ===== *)
theory Muduo_Queues
  imports Muduo_Prelude "HOL-Library.Multiset"
begin

text \<open>
  Queues between threads: \<^verbatim>\<open>base/BlockingQueue.h\<close>, \<^verbatim>\<open>base/BoundedBlockingQueue.h\<close>, \<^verbatim>\<open>base/ThreadPool.cc\<close> and \<^verbatim>\<open>base/CountDownLatch.cc\<close>. What a
  thread does while it holds the mutex is one function of the state the mutex guards: it ends with the wait for a condition, after which
  the thread does the same again from the test of its loop, or with a result, the new state and whether the condition
  of the other side is notified. The threads that put and take are a transition system in which a notification wakes one of the
  threads that sleep, and any of them may also wake for no reason.
\<close>

section \<open>Critical sections\<close>

datatype ('r, 'q) critical = Waits | Returns 'r 'q bool

section \<open>BlockingQueue\<close>

record 'a BlockingQueue =
  bl_queue :: "'a list"

definition BlockingQueue_new :: "'a BlockingQueue" where
  "BlockingQueue_new = \<lparr>bl_queue = []\<rparr>"

definition BlockingQueue_put :: "'a \<Rightarrow> 'a BlockingQueue \<Rightarrow> (unit, 'a BlockingQueue) critical outcome" where
  "BlockingQueue_put x q = Inr (Returns () (q\<lparr>bl_queue := bl_queue q @ [x]\<rparr>) True)"

definition BlockingQueue_take :: "'a BlockingQueue \<Rightarrow> ('a option, 'a BlockingQueue) critical outcome" where
  "BlockingQueue_take q = (if bl_queue q = [] then Inr Waits
     else assert_that (bl_queue q \<noteq> []) ''!queue_.empty()'' (Inr (Returns (Some (hd (bl_queue q))) (q\<lparr>bl_queue := tl (bl_queue q)\<rparr>) False)))"

text \<open>\<^verbatim>\<open>std::move\<close> leaves the queue empty.\<close>

definition BlockingQueue_drain :: "'a BlockingQueue \<Rightarrow> ('a list \<times> 'a BlockingQueue) outcome" where
  "BlockingQueue_drain q = (let q' = q\<lparr>bl_queue := []\<rparr> in assert_that (bl_queue q' = []) ''queue_.empty()'' (Inr (bl_queue q, q')))"

definition BlockingQueue_size :: "'a BlockingQueue \<Rightarrow> nat" where
  "BlockingQueue_size q = length (bl_queue q)"

section \<open>BoundedBlockingQueue\<close>

text \<open>The queue is a \<^verbatim>\<open>boost::circular_buffer\<close>, whose operations are an argument.\<close>

record ('a, 'b) circular_buffer =
  cb_full :: "'b \<Rightarrow> bool"
  cb_empty :: "'b \<Rightarrow> bool"
  cb_size :: "'b \<Rightarrow> nat"
  cb_capacity :: "'b \<Rightarrow> nat"
  cb_push_back :: "'a \<Rightarrow> 'b \<Rightarrow> 'b"
  cb_front :: "'b \<Rightarrow> 'a"
  cb_pop_front :: "'b \<Rightarrow> 'b"

definition BoundedBlockingQueue_put :: "('a, 'b) circular_buffer \<Rightarrow> 'a \<Rightarrow> 'b \<Rightarrow> (unit, 'b) critical outcome" where
  "BoundedBlockingQueue_put cb x q = (if cb_full cb q then Inr Waits
     else assert_that (\<not> cb_full cb q) ''!queue_.full()'' (Inr (Returns () (cb_push_back cb x q) True)))"

definition BoundedBlockingQueue_take :: "('a, 'b) circular_buffer \<Rightarrow> 'b \<Rightarrow> ('a option, 'b) critical outcome" where
  "BoundedBlockingQueue_take cb q = (if cb_empty cb q then Inr Waits
     else assert_that (\<not> cb_empty cb q) ''!queue_.empty()'' (Inr (Returns (Some (cb_front cb q)) (cb_pop_front cb q) True)))"

section \<open>ThreadPool\<close>

text \<open>The threads are given by their names; a task is a value of type \<open>'a\<close>.\<close>

record 'a ThreadPool =
  tp_name :: string
  tp_threads :: "string list"
  tp_queue :: "'a list"
  tp_maxQueueSize :: nat
  tp_running :: bool

definition ThreadPool_new :: "string \<Rightarrow> 'a ThreadPool" where
  "ThreadPool_new nameArg = \<lparr>tp_name = nameArg, tp_threads = [], tp_queue = [], tp_maxQueueSize = 0, tp_running = False\<rparr>"

definition setMaxQueueSize :: "int \<Rightarrow> 'a ThreadPool \<Rightarrow> 'a ThreadPool" where
  "setMaxQueueSize maxSize p = p\<lparr>tp_maxQueueSize := int_to_size maxSize\<rparr>"

definition ThreadPool_start :: "int \<Rightarrow> 'a ThreadPool \<Rightarrow> 'a ThreadPool outcome" where
  "ThreadPool_start numThreads p = assert_that (tp_threads p = []) ''threads_.empty()''
     (Inr (p\<lparr>tp_running := True, tp_threads := map (\<lambda>i. tp_name p @ snprintf 32 (dec_nat (i + 1))) [0..<nat numThreads]\<rparr>))"

definition ThreadPool_queueSize :: "'a ThreadPool \<Rightarrow> nat" where
  "ThreadPool_queueSize p = length (tp_queue p)"

definition isFull :: "'a ThreadPool \<Rightarrow> bool" where
  "isFull p \<longleftrightarrow> tp_maxQueueSize p > 0 \<and> length (tp_queue p) \<ge> tp_maxQueueSize p"

text \<open>A pool without threads runs the task in the calling thread.\<close>

datatype run_result = Ran_here | Queued | Dropped

definition ThreadPool_run :: "'a \<Rightarrow> 'a ThreadPool \<Rightarrow> (run_result, 'a ThreadPool) critical outcome" where
  "ThreadPool_run task p =
     (if tp_threads p = [] then Inr (Returns Ran_here p False)
      else if isFull p \<and> tp_running p then Inr Waits
      else if \<not> tp_running p then Inr (Returns Dropped p False)
      else assert_that (\<not> isFull p) ''!isFull()'' (Inr (Returns Queued (p\<lparr>tp_queue := tp_queue p @ [task]\<rparr>) True)))"

definition ThreadPool_take :: "'a ThreadPool \<Rightarrow> ('a option, 'a ThreadPool) critical outcome" where
  "ThreadPool_take p =
     (if tp_queue p = [] \<and> tp_running p then Inr Waits
      else if tp_queue p \<noteq> [] then
        Inr (Returns (Some (hd (tp_queue p))) (p\<lparr>tp_queue := tl (tp_queue p)\<rparr>) (tp_maxQueueSize p > 0))
      else Inr (Returns None p False))"

text \<open>\<^verbatim>\<open>stop()\<close> up to the waiting for the threads; it also notifies all threads that sleep.\<close>

definition ThreadPool_stop :: "'a ThreadPool \<Rightarrow> 'a ThreadPool" where
  "ThreadPool_stop p = p\<lparr>tp_running := False\<rparr>"

definition ThreadPool_delete :: "'a ThreadPool \<Rightarrow> 'a ThreadPool" where
  "ThreadPool_delete p = (if tp_running p then ThreadPool_stop p else p)"

section \<open>CountDownLatch\<close>

record CountDownLatch =
  cl_count :: int

definition CountDownLatch_wait :: "CountDownLatch \<Rightarrow> (unit, CountDownLatch) critical" where
  "CountDownLatch_wait l = (if cl_count l > 0 then Waits else Returns () l False)"

text \<open>The flag says that all threads waiting are notified.\<close>

definition countDown :: "CountDownLatch \<Rightarrow> bool \<times> CountDownLatch" where
  "countDown l = (let l = l\<lparr>cl_count := cl_count l - 1\<rparr> in (cl_count l = 0, l))"

definition getCount :: "CountDownLatch \<Rightarrow> int" where
  "getCount l = cl_count l"

text \<open>A thread passes the latch exactly after as many calls of \<^verbatim>\<open>countDown\<close> as it was made for, and the last of them notifies.\<close>

lemma latch_opens:
  fixes l :: CountDownLatch
  shows "CountDownLatch_wait (((\<lambda>l. snd (countDown l)) ^^ n) l) = Waits \<longleftrightarrow> int n < cl_count l"
    and "0 < cl_count l \<Longrightarrow> fst (countDown (((\<lambda>l. snd (countDown l)) ^^ n) l)) \<longleftrightarrow> int (Suc n) = cl_count l"
proof -
  have "cl_count (((\<lambda>l. snd (countDown l)) ^^ n) l) = cl_count l - int n" by (induction n) (simp_all add: countDown_def Let_def)
  then show "CountDownLatch_wait (((\<lambda>l. snd (countDown l)) ^^ n) l) = Waits \<longleftrightarrow> int n < cl_count l"
    and "0 < cl_count l \<Longrightarrow> fst (countDown (((\<lambda>l. snd (countDown l)) ^^ n) l)) \<longleftrightarrow> int (Suc n) = cl_count l"
    by (auto simp: CountDownLatch_wait_def countDown_def Let_def)
qed

section \<open>Threads that put and take\<close>

text \<open>
  Where a thread is: between two calls, about to take the mutex for a call, asleep in the call, woken and about to take the
  mutex again, with an item it took (for a pool: running the task), past its loop. \<open>'b\<close> is the argument of the call.
\<close>

datatype ('b, 'a) thread_pc = Ready | Calling 'b | is_Asleep: Asleep 'b | is_Woken: Woken 'b | Holding 'a | Ended

record ('q, 'a) queue_sys =
  qs_queue :: 'q
  qs_producers :: "('a, 'a) thread_pc list"
  qs_consumers :: "(unit, 'a) thread_pc list"
  qs_accepted :: "'a list"
  qs_taken :: "'a list"
  qs_done :: "'a list"

text \<open>\<^verbatim>\<open>notify()\<close> wakes one of the threads that sleep, \<^verbatim>\<open>notifyAll()\<close> all of them.\<close>

definition wake_one :: "('b, 'a) thread_pc list \<Rightarrow> ('b, 'a) thread_pc list \<Rightarrow> bool" where
  "wake_one xs ys \<longleftrightarrow> (if \<exists>x \<in> set xs. is_Asleep x then \<exists>i b. i < length xs \<and> xs ! i = Asleep b \<and> ys = xs[i := Woken b] else ys = xs)"

definition wake_all :: "('b, 'a) thread_pc list \<Rightarrow> ('b, 'a) thread_pc list" where
  "wake_all xs = map (\<lambda>x. case x of Asleep b \<Rightarrow> Woken b | _ \<Rightarrow> x) xs"

definition wake_if :: "bool \<Rightarrow> ('b, 'a) thread_pc list \<Rightarrow> ('b, 'a) thread_pc list \<Rightarrow> bool" where
  "wake_if n xs ys \<longleftrightarrow> (if n then wake_one xs ys else ys = xs)"

definition at_mutex :: "'b \<Rightarrow> ('b, 'a) thread_pc \<Rightarrow> bool" where
  "at_mutex b x \<longleftrightarrow> x = Calling b \<or> x = Woken b"

inductive queue_step ::
  "('a \<Rightarrow> 'q \<Rightarrow> ('r, 'q) critical outcome) \<Rightarrow> ('q \<Rightarrow> ('a option, 'q) critical outcome) \<Rightarrow> ('r \<Rightarrow> bool) \<Rightarrow> ('q \<Rightarrow> bool) \<Rightarrow> ('q \<Rightarrow> 'q) option
    \<Rightarrow> ('q, 'a) queue_sys \<Rightarrow> ('q, 'a) queue_sys \<Rightarrow> bool"
  for put take_op accepts running stop where
  Put_call: "i < length (qs_producers s) \<Longrightarrow> qs_producers s ! i = Ready \<Longrightarrow>
    queue_step put take_op accepts running stop s (s\<lparr>qs_producers := (qs_producers s)[i := Calling x]\<rparr>)"
| Put_wait: "i < length (qs_producers s) \<Longrightarrow> at_mutex x (qs_producers s ! i) \<Longrightarrow> put x (qs_queue s) = Inr Waits \<Longrightarrow>
    queue_step put take_op accepts running stop s (s\<lparr>qs_producers := (qs_producers s)[i := Asleep x]\<rparr>)"
| Put_return: "i < length (qs_producers s) \<Longrightarrow> at_mutex x (qs_producers s ! i) \<Longrightarrow> put x (qs_queue s) = Inr (Returns r q n) \<Longrightarrow>
    wake_if n (qs_consumers s) cs \<Longrightarrow>
    queue_step put take_op accepts running stop s (s\<lparr>qs_queue := q, qs_producers := (qs_producers s)[i := Ready], qs_consumers := cs,
      qs_accepted := (if accepts r then qs_accepted s @ [x] else qs_accepted s)\<rparr>)"
| Put_spurious: "i < length (qs_producers s) \<Longrightarrow> qs_producers s ! i = Asleep x \<Longrightarrow>
    queue_step put take_op accepts running stop s (s\<lparr>qs_producers := (qs_producers s)[i := Woken x]\<rparr>)"
| Take_call: "i < length (qs_consumers s) \<Longrightarrow> qs_consumers s ! i = Ready \<Longrightarrow> running (qs_queue s) \<Longrightarrow>
    queue_step put take_op accepts running stop s (s\<lparr>qs_consumers := (qs_consumers s)[i := Calling ()]\<rparr>)"
| Take_wait: "i < length (qs_consumers s) \<Longrightarrow> at_mutex () (qs_consumers s ! i) \<Longrightarrow> take_op (qs_queue s) = Inr Waits \<Longrightarrow>
    queue_step put take_op accepts running stop s (s\<lparr>qs_consumers := (qs_consumers s)[i := Asleep ()]\<rparr>)"
| Take_item: "i < length (qs_consumers s) \<Longrightarrow> at_mutex () (qs_consumers s ! i) \<Longrightarrow> take_op (qs_queue s) = Inr (Returns (Some x) q n) \<Longrightarrow>
    wake_if n (qs_producers s) ps \<Longrightarrow>
    queue_step put take_op accepts running stop s (s\<lparr>qs_queue := q, qs_consumers := (qs_consumers s)[i := Holding x], qs_producers := ps,
      qs_taken := qs_taken s @ [x]\<rparr>)"
| Take_none: "i < length (qs_consumers s) \<Longrightarrow> at_mutex () (qs_consumers s ! i) \<Longrightarrow> take_op (qs_queue s) = Inr (Returns None q n) \<Longrightarrow>
    wake_if n (qs_producers s) ps \<Longrightarrow>
    queue_step put take_op accepts running stop s (s\<lparr>qs_queue := q, qs_consumers := (qs_consumers s)[i := Ready], qs_producers := ps\<rparr>)"
| Take_spurious: "i < length (qs_consumers s) \<Longrightarrow> qs_consumers s ! i = Asleep () \<Longrightarrow>
    queue_step put take_op accepts running stop s (s\<lparr>qs_consumers := (qs_consumers s)[i := Woken ()]\<rparr>)"
| Finished: "i < length (qs_consumers s) \<Longrightarrow> qs_consumers s ! i = Holding x \<Longrightarrow>
    queue_step put take_op accepts running stop s (s\<lparr>qs_consumers := (qs_consumers s)[i := Ready], qs_done := qs_done s @ [x]\<rparr>)"
| Loop_end: "i < length (qs_consumers s) \<Longrightarrow> qs_consumers s ! i = Ready \<Longrightarrow> \<not> running (qs_queue s) \<Longrightarrow>
    queue_step put take_op accepts running stop s (s\<lparr>qs_consumers := (qs_consumers s)[i := Ended]\<rparr>)"
| Stop: "stop = Some f \<Longrightarrow>
    queue_step put take_op accepts running stop s (s\<lparr>qs_queue := f (qs_queue s), qs_producers := wake_all (qs_producers s), qs_consumers := wake_all (qs_consumers s)\<rparr>)"

text \<open>Producers and consumers before their first calls.\<close>

definition queue_start :: "nat \<Rightarrow> nat \<Rightarrow> 'q \<Rightarrow> ('q, 'a) queue_sys" where
  "queue_start np nc q = \<lparr>qs_queue = q, qs_producers = replicate np Ready, qs_consumers = replicate nc Ready, qs_accepted = [], qs_taken = [], qs_done = []\<rparr>"

section \<open>Counting threads\<close>

definition woken :: "('b, 'a) thread_pc list \<Rightarrow> nat" where
  "woken xs = length (filter is_Woken xs)"

definition asleep :: "('b, 'a) thread_pc list \<Rightarrow> bool" where
  "asleep xs \<longleftrightarrow> (\<exists>x \<in> set xs. is_Asleep x)"

definition held :: "('b, 'a) thread_pc \<Rightarrow> 'a multiset" where
  "held x = (case x of Holding a \<Rightarrow> {#a#} | _ \<Rightarrow> {#})"

definition all_held :: "('b, 'a) thread_pc list \<Rightarrow> 'a multiset" where
  "all_held xs = sum_list (map held xs)"

lemma split_at:
  assumes "i < length xs"
  obtains us vs where "xs = us @ xs ! i # vs" and "\<And>v. xs[i := v] = us @ v # vs"
  using assms by (metis id_take_nth_drop upd_conv_take_nth_drop)

lemma woken_update: "i < length xs \<Longrightarrow> woken (xs[i := v]) + of_bool (is_Woken (xs ! i)) = woken xs + of_bool (is_Woken v)"
proof -
  assume "i < length xs"
  from split_at [OF this] obtain us vs where *: "xs = us @ xs ! i # vs" "\<And>v. xs[i := v] = us @ v # vs" by blast
  have "woken xs = woken (us @ xs ! i # vs)" using *(1) by simp
  then show ?thesis unfolding *(2) by (simp add: woken_def)
qed

lemma all_held_update: "i < length xs \<Longrightarrow> all_held (xs[i := v]) + held (xs ! i) = all_held xs + held v"
proof -
  assume "i < length xs"
  from split_at [OF this] obtain us vs where *: "xs = us @ xs ! i # vs" "\<And>v. xs[i := v] = us @ v # vs" by blast
  have "all_held xs = all_held (us @ xs ! i # vs)" using *(1) by simp
  then show ?thesis unfolding *(2) by (simp add: all_held_def ac_simps)
qed

lemma asleep_update: "asleep (xs[i := v]) \<Longrightarrow> asleep xs \<or> is_Asleep v"
  unfolding asleep_def using set_update_subset_insert [of xs i v] by blast

lemma wake_one_effect:
  assumes "wake_one xs ys"
  shows "length ys = length xs" and "all_held ys = all_held xs" and "asleep ys \<Longrightarrow> asleep xs" and "asleep xs \<Longrightarrow> woken ys = Suc (woken xs)"
    and "woken xs \<le> woken ys" and "Ended \<in> set ys \<Longrightarrow> Ended \<in> set xs"
proof -
  have "ys = xs \<and> \<not> asleep xs \<or> asleep xs \<and> (\<exists>i b. i < length xs \<and> xs ! i = Asleep b \<and> ys = xs[i := Woken b])"
    using assms by (auto simp: wake_one_def asleep_def split: if_splits)
  then consider (same) "ys = xs" "\<not> asleep xs" | (woke) i b where "asleep xs" "i < length xs" "xs ! i = Asleep b" "ys = xs[i := Woken b]" by blast
  then have "length ys = length xs \<and> all_held ys = all_held xs \<and> (asleep ys \<longrightarrow> asleep xs) \<and> (asleep xs \<longrightarrow> woken ys = Suc (woken xs))
    \<and> woken xs \<le> woken ys \<and> (Ended \<in> set ys \<longrightarrow> Ended \<in> set xs)"
  proof cases
    case woke
    have "Ended \<in> set ys \<longrightarrow> Ended \<in> set xs" using woke(4) set_update_subset_insert [of xs i "Woken b"] by auto
    then show ?thesis using woke woken_update [OF woke(2), of "Woken b"] all_held_update [OF woke(2), of "Woken b"] by (simp add: held_def)
  qed simp
  then show "length ys = length xs" and "all_held ys = all_held xs" and "asleep ys \<Longrightarrow> asleep xs" and "asleep xs \<Longrightarrow> woken ys = Suc (woken xs)"
    and "woken xs \<le> woken ys" and "Ended \<in> set ys \<Longrightarrow> Ended \<in> set xs" by auto
qed

lemma wake_all_effect:
  "length (wake_all xs) = length xs" "all_held (wake_all xs) = all_held xs" "\<not> asleep (wake_all xs)"
proof -
  have "map held (wake_all xs) = map held xs" by (simp add: wake_all_def held_def split: thread_pc.splits)
  then show "all_held (wake_all xs) = all_held xs" by (simp add: all_held_def)
qed (auto simp: wake_all_def asleep_def split: thread_pc.splits)

section \<open>The contract of a queue between threads\<close>

text \<open>
  \<open>items\<close> are the items in the queue and \<open>cap\<close> the greatest number of them, if there is one; a queue that is not running any more
  accepts nothing and lets no thread wait.
\<close>

locale work_queue =
  fixes put :: "'a \<Rightarrow> 'q \<Rightarrow> ('r, 'q) critical outcome"
    and take_op :: "'q \<Rightarrow> ('a option, 'q) critical outcome"
    and accepts :: "'r \<Rightarrow> bool"
    and running :: "'q \<Rightarrow> bool"
    and stop :: "('q \<Rightarrow> 'q) option"
    and q_ok :: "'q \<Rightarrow> bool"
    and items :: "'q \<Rightarrow> 'a list"
    and cap :: "'q \<Rightarrow> nat option"
  assumes put_full: "q_ok q \<Longrightarrow> running q \<Longrightarrow> cap q = Some (length (items q)) \<Longrightarrow> put x q = Inr Waits"
    and put_room: "q_ok q \<Longrightarrow> running q \<Longrightarrow> cap q \<noteq> Some (length (items q)) \<Longrightarrow>
      \<exists>r q'. put x q = Inr (Returns r q' True) \<and> accepts r \<and> q_ok q' \<and> running q' \<and> items q' = items q @ [x] \<and> cap q' = cap q"
    and put_stopped: "q_ok q \<Longrightarrow> \<not> running q \<Longrightarrow> \<exists>r. put x q = Inr (Returns r q False) \<and> \<not> accepts r"
    and take_empty: "q_ok q \<Longrightarrow> running q \<Longrightarrow> items q = [] \<Longrightarrow> take_op q = Inr Waits"
    and take_some: "q_ok q \<Longrightarrow> items q = x # xs \<Longrightarrow>
      \<exists>q' n. take_op q = Inr (Returns (Some x) q' n) \<and> q_ok q' \<and> running q' = running q \<and> items q' = xs \<and> cap q' = cap q \<and> (cap q \<noteq> None \<longrightarrow> n)"
    and take_stopped: "q_ok q \<Longrightarrow> \<not> running q \<Longrightarrow> items q = [] \<Longrightarrow> take_op q = Inr (Returns None q False)"
    and stop_op: "stop = Some f \<Longrightarrow> q_ok q \<Longrightarrow> q_ok (f q) \<and> \<not> running (f q) \<and> items (f q) = items q \<and> cap (f q) = cap q"

text \<open>
  No wakeup is lost: as long as a thread sleeps, at least as many threads of its side are woken as the queue has items, or room,
  for them.
\<close>

definition served :: "nat \<Rightarrow> ('b, 'a) thread_pc list \<Rightarrow> bool" where
  "served n xs \<longleftrightarrow> (asleep xs \<longrightarrow> n \<le> woken xs)"

lemma served_0 [simp]: "served 0 xs"
  by (simp add: served_def)

lemma served_leave:
  assumes "served n xs" and "i < length xs" and "\<not> is_Asleep v"
  shows "served (n - 1) (xs[i := v])"
proof -
  have "asleep xs" if "asleep (xs[i := v])" using asleep_update [OF that] assms(3) by blast
  moreover have "woken xs \<le> Suc (woken (xs[i := v]))" using woken_update [OF assms(2), of v] by (cases "is_Woken (xs ! i)") auto
  ultimately show ?thesis using assms(1) by (auto simp: served_def)
qed

lemma served_move:
  assumes "served n xs" and "i < length xs" and "\<not> is_Asleep v" and "\<not> is_Woken (xs ! i)"
  shows "served n (xs[i := v])"
proof -
  have "asleep xs" if "asleep (xs[i := v])" using asleep_update [OF that] assms(3) by blast
  moreover have "woken xs \<le> woken (xs[i := v])" using woken_update [OF assms(2), of v] assms(4) by simp
  ultimately show ?thesis using assms(1) by (auto simp: served_def)
qed

lemma served_wake: "served n xs \<Longrightarrow> wake_one xs ys \<Longrightarrow> served (Suc n) ys"
  using wake_one_effect(3,4) [of xs ys] by (auto simp: served_def)

definition queue_inv :: "('q \<Rightarrow> bool) \<Rightarrow> ('q \<Rightarrow> bool) \<Rightarrow> ('q \<Rightarrow> 'a list) \<Rightarrow> ('q \<Rightarrow> nat option) \<Rightarrow> ('q, 'a) queue_sys \<Rightarrow> bool" where
  "queue_inv q_ok running items cap s \<longleftrightarrow> q_ok (qs_queue s)
     \<and> (\<forall>k. cap (qs_queue s) = Some k \<longrightarrow> length (items (qs_queue s)) \<le> k)
     \<and> qs_accepted s = qs_taken s @ items (qs_queue s)
     \<and> mset (qs_taken s) = mset (qs_done s) + all_held (qs_consumers s)
     \<and> served (length (items (qs_queue s))) (qs_consumers s)
     \<and> (cap (qs_queue s) = None \<longrightarrow> \<not> asleep (qs_producers s))
     \<and> (\<forall>k. cap (qs_queue s) = Some k \<longrightarrow> served (k - length (items (qs_queue s))) (qs_producers s))
     \<and> (if running (qs_queue s) then Ended \<notin> set (qs_consumers s) else \<not> asleep (qs_producers s) \<and> \<not> asleep (qs_consumers s))"

text \<open>A side of which one thread moves on without having been woken.\<close>

lemma move_consumer:
  assumes inv: "queue_inv q_ok running items cap s" and i: "i < length (qs_consumers s)"
    and v: "\<not> is_Asleep v" "\<not> is_Woken (qs_consumers s ! i)" "v = Ended \<longrightarrow> \<not> running (qs_queue s)"
    and h: "mset done + held v = mset (qs_done s) + held (qs_consumers s ! i)"
  shows "queue_inv q_ok running items cap (s\<lparr>qs_consumers := (qs_consumers s)[i := v], qs_done := done\<rparr>)"
proof -
  let ?cs = "(qs_consumers s)[i := v]"
  have "mset (qs_taken s) = mset done + all_held ?cs"
  proof -
    have "mset (qs_taken s) + held (qs_consumers s ! i) + held v = mset (qs_done s) + held (qs_consumers s ! i) + (all_held (qs_consumers s) + held v)"
      using inv by (simp add: queue_inv_def ac_simps)
    also have "\<dots> = mset done + held v + (all_held ?cs + held (qs_consumers s ! i))" unfolding h all_held_update [OF i] by simp
    finally show ?thesis by (simp add: ac_simps)
  qed
  moreover have "served (length (items (qs_queue s))) ?cs" using inv served_move [OF _ i v(1,2)] by (simp add: queue_inv_def)
  moreover have "running (qs_queue s) \<Longrightarrow> Ended \<notin> set ?cs" using inv v(3) set_update_subset_insert [of "qs_consumers s" i v] by (auto simp: queue_inv_def)
  moreover have "\<not> running (qs_queue s) \<Longrightarrow> \<not> asleep ?cs" using inv v(1) asleep_update by (auto simp: queue_inv_def)
  ultimately show ?thesis using inv by (simp add: queue_inv_def)
qed

lemma move_producer:
  assumes inv: "queue_inv q_ok running items cap s" and i: "i < length (qs_producers s)"
    and v: "\<not> is_Asleep v" "\<not> is_Woken (qs_producers s ! i)"
  shows "queue_inv q_ok running items cap (s\<lparr>qs_producers := (qs_producers s)[i := v]\<rparr>)"
proof -
  have "\<not> asleep (qs_producers s) \<Longrightarrow> \<not> asleep ((qs_producers s)[i := v])" using v(1) asleep_update by blast
  then show ?thesis using inv served_move [OF _ i v] by (auto simp: queue_inv_def)
qed

lemma all_held_ready: "all_held (replicate n Ready) = {#}"
  by (induction n) (simp_all add: all_held_def held_def)

context work_queue
begin

lemma full_cap: "queue_inv q_ok running items cap s \<Longrightarrow> put x (qs_queue s) = Inr Waits \<Longrightarrow> running (qs_queue s) \<and> cap (qs_queue s) = Some (length (items (qs_queue s)))"
  using put_stopped [of "qs_queue s" x] put_room [of "qs_queue s" x] by (auto simp: queue_inv_def)

lemma put_wait_inv:
  assumes inv: "queue_inv q_ok running items cap s" and i: "i < length (qs_producers s)" and w: "put x (qs_queue s) = Inr Waits"
  shows "queue_inv q_ok running items cap (s\<lparr>qs_producers := (qs_producers s)[i := Asleep x]\<rparr>)"
  using inv full_cap [OF inv w] by (simp add: queue_inv_def)

lemma put_return_inv:
  assumes inv: "queue_inv q_ok running items cap s" and i: "i < length (qs_producers s)" and p: "put x (qs_queue s) = Inr (Returns r q n)"
    and w: "wake_if n (qs_consumers s) cs"
  shows "queue_inv q_ok running items cap (s\<lparr>qs_queue := q, qs_producers := (qs_producers s)[i := Ready], qs_consumers := cs,
      qs_accepted := (if accepts r then qs_accepted s @ [x] else qs_accepted s)\<rparr>)"
proof (cases "running (qs_queue s)")
  case True
  have ok: "q_ok (qs_queue s)" and le: "\<And>k. cap (qs_queue s) = Some k \<Longrightarrow> length (items (qs_queue s)) \<le> k" using inv by (auto simp: queue_inv_def)
  have ne: "cap (qs_queue s) \<noteq> Some (length (items (qs_queue s)))" using put_full [OF ok True, of x] p by auto
  from put_room [OF ok True ne, of x] p have q: "n" "accepts r" "q_ok q" "running q" "items q = items (qs_queue s) @ [x]" "cap q = cap (qs_queue s)" by auto
  have wk: "wake_one (qs_consumers s) cs" using w q(1) by (simp add: wake_if_def)
  have "served (length (items q)) cs" unfolding q(5) using served_wake [OF _ wk] inv by (simp add: queue_inv_def)
  moreover have "served (k - length (items q)) ((qs_producers s)[i := Ready])" if "cap q = Some k" for k
    using served_leave [OF _ i, of "k - length (items (qs_queue s))" Ready] inv that q(5,6) by (simp add: queue_inv_def)
  moreover have "\<not> asleep (qs_producers s) \<Longrightarrow> \<not> asleep ((qs_producers s)[i := Ready])" using asleep_update by fastforce
  moreover have "length (items q) \<le> k" if "cap q = Some k" for k using le [of k] ne that q(5,6) by (cases "length (items (qs_queue s)) = k") auto
  moreover have "Ended \<notin> set cs" using wake_one_effect(6) [OF wk] inv True by (auto simp: queue_inv_def)
  ultimately show ?thesis using inv q wake_one_effect(2) [OF wk] by (simp add: queue_inv_def)
next
  case False
  have ok: "q_ok (qs_queue s)" using inv by (simp add: queue_inv_def)
  from put_stopped [OF ok False, of x] p have q: "q = qs_queue s" "\<not> n" "\<not> accepts r" by auto
  then have "cs = qs_consumers s" using w by (simp add: wake_if_def)
  moreover have "\<not> asleep ((qs_producers s)[i := Ready])" using asleep_update [of "qs_producers s" i Ready] inv False by (auto simp: queue_inv_def)
  ultimately show ?thesis using inv q False by (simp add: queue_inv_def served_def)
qed

lemma empty_items: "queue_inv q_ok running items cap s \<Longrightarrow> take_op (qs_queue s) = Inr Waits \<Longrightarrow> running (qs_queue s) \<and> items (qs_queue s) = []"
  using take_stopped [of "qs_queue s"] take_some [of "qs_queue s"] by (cases "items (qs_queue s)") (auto simp: queue_inv_def)

lemma take_wait_inv:
  assumes inv: "queue_inv q_ok running items cap s" and i: "i < length (qs_consumers s)" and a: "at_mutex () (qs_consumers s ! i)"
    and w: "take_op (qs_queue s) = Inr Waits"
  shows "queue_inv q_ok running items cap (s\<lparr>qs_consumers := (qs_consumers s)[i := Asleep ()]\<rparr>)"
proof -
  have "all_held ((qs_consumers s)[i := Asleep ()]) = all_held (qs_consumers s)"
    using all_held_update [OF i, of "Asleep ()"] a by (auto simp: held_def at_mutex_def)
  moreover have "Ended \<notin> set ((qs_consumers s)[i := Asleep ()])"
    using inv empty_items [OF inv w] set_update_subset_insert [of "qs_consumers s" i "Asleep ()"] by (auto simp: queue_inv_def)
  ultimately show ?thesis using inv empty_items [OF inv w] by (simp add: queue_inv_def)
qed

lemma take_item_inv:
  assumes inv: "queue_inv q_ok running items cap s" and i: "i < length (qs_consumers s)" and a: "at_mutex () (qs_consumers s ! i)"
    and t: "take_op (qs_queue s) = Inr (Returns (Some x) q n)" and w: "wake_if n (qs_producers s) ps"
  shows "queue_inv q_ok running items cap (s\<lparr>qs_queue := q, qs_consumers := (qs_consumers s)[i := Holding x], qs_producers := ps, qs_taken := qs_taken s @ [x]\<rparr>)"
proof -
  let ?cs = "(qs_consumers s)[i := Holding x]"
  have ok: "q_ok (qs_queue s)" using inv by (simp add: queue_inv_def)
  obtain xs where xs: "items (qs_queue s) = x # xs"
    using t take_empty [OF ok] take_stopped [OF ok] take_some [OF ok] by (cases "items (qs_queue s)"; cases "running (qs_queue s)") fastforce+
  from take_some [OF ok xs] t have q: "q_ok q" "running q = running (qs_queue s)" "items q = xs" "cap q = cap (qs_queue s)" "cap q \<noteq> None \<longrightarrow> n" by auto
  have "served (length (items q)) ?cs" using served_leave [OF _ i, of "length (items (qs_queue s))" "Holding x"] inv xs q(3) by (simp add: queue_inv_def)
  moreover have "all_held ?cs = all_held (qs_consumers s) + {#x#}" using all_held_update [OF i, of "Holding x"] a by (auto simp: held_def at_mutex_def)
  moreover have "Ended \<notin> set ?cs" if "running q" using inv that q(2) set_update_subset_insert [of "qs_consumers s" i "Holding x"] by (auto simp: queue_inv_def)
  moreover have "\<not> asleep ?cs" if "\<not> running q" using inv that q(2) asleep_update [of "qs_consumers s" i "Holding x"] by (auto simp: queue_inv_def)
  moreover have "asleep ps \<Longrightarrow> asleep (qs_producers s)" using w wake_one_effect(3) by (auto simp: wake_if_def split: if_splits)
  moreover have "served (k - length (items q)) ps" if "cap q = Some k" for k
  proof -
    have "length (items (qs_queue s)) \<le> k" "served (k - length (items (qs_queue s))) (qs_producers s)" using inv that q(4) by (auto simp: queue_inv_def)
    moreover have "wake_one (qs_producers s) ps" using w q(5) that by (simp add: wake_if_def)
    ultimately show ?thesis using served_wake [of "k - length (items (qs_queue s))" "qs_producers s" ps] xs q(3) by (simp add: Suc_diff_Suc)
  qed
  ultimately show ?thesis using inv q xs by (auto simp: queue_inv_def)
qed

lemma take_none_inv:
  assumes inv: "queue_inv q_ok running items cap s" and i: "i < length (qs_consumers s)" and a: "at_mutex () (qs_consumers s ! i)"
    and t: "take_op (qs_queue s) = Inr (Returns None q n)" and w: "wake_if n (qs_producers s) ps"
  shows "queue_inv q_ok running items cap (s\<lparr>qs_queue := q, qs_consumers := (qs_consumers s)[i := Ready], qs_producers := ps\<rparr>)"
proof -
  have ok: "q_ok (qs_queue s)" using inv by (simp add: queue_inv_def)
  have e: "items (qs_queue s) = []" using t take_some [OF ok] by (cases "items (qs_queue s)") fastforce+
  then have r: "\<not> running (qs_queue s)" using t take_empty [OF ok] by auto
  from take_stopped [OF ok r e] t w have q: "q = qs_queue s" "ps = qs_producers s" by (auto simp: wake_if_def)
  have "all_held ((qs_consumers s)[i := Ready]) = all_held (qs_consumers s)" using all_held_update [OF i, of Ready] a by (auto simp: held_def at_mutex_def)
  moreover have "\<not> asleep ((qs_consumers s)[i := Ready])" using inv r asleep_update [of "qs_consumers s" i Ready] by (auto simp: queue_inv_def)
  ultimately show ?thesis using inv q e r by (simp add: queue_inv_def)
qed

lemma stop_inv:
  assumes inv: "queue_inv q_ok running items cap s" and f: "stop = Some f"
  shows "queue_inv q_ok running items cap (s\<lparr>qs_queue := f (qs_queue s), qs_producers := wake_all (qs_producers s), qs_consumers := wake_all (qs_consumers s)\<rparr>)"
proof -
  have "q_ok (qs_queue s)" using inv by (simp add: queue_inv_def)
  from stop_op [OF f this] show ?thesis using inv by (simp add: queue_inv_def served_def wake_all_effect)
qed

lemma queue_inv_step:
  assumes "queue_step put take_op accepts running stop s s'" and "queue_inv q_ok running items cap s"
  shows "queue_inv q_ok running items cap s'"
  using assms
proof (induction rule: queue_step.induct)
  case (Put_call i s x)
  then show ?case by (intro move_producer) simp_all
next
  case (Put_wait i s x)
  then show ?case by (intro put_wait_inv)
next
  case (Put_return i s x r q n cs)
  then show ?case by (intro put_return_inv)
next
  case (Put_spurious i s x)
  then show ?case by (intro move_producer) simp_all
next
  case (Take_call i s)
  then show ?case using move_consumer [of q_ok running items cap s i "Calling ()" "qs_done s"] by (simp add: held_def)
next
  case (Take_wait i s)
  then show ?case by (intro take_wait_inv)
next
  case (Take_item i s x q n ps)
  then show ?case by (intro take_item_inv)
next
  case (Take_none i s q n ps)
  then show ?case by (intro take_none_inv)
next
  case (Take_spurious i s)
  then show ?case using move_consumer [of q_ok running items cap s i "Woken ()" "qs_done s"] by (simp add: held_def)
next
  case (Finished i s x)
  then show ?case using move_consumer [of q_ok running items cap s i Ready "qs_done s @ [x]"] by (simp add: held_def)
next
  case (Loop_end i s)
  then show ?case using move_consumer [of q_ok running items cap s i Ended "qs_done s"] by (simp add: held_def)
next
  case (Stop f s)
  then show ?case by (intro stop_inv)
qed

lemma queue_inv_reachable:
  assumes "(queue_step put take_op accepts running stop)\<^sup>*\<^sup>* s s'" and "queue_inv q_ok running items cap s"
  shows "queue_inv q_ok running items cap s'"
  using assms by (induction rule: rtranclp_induct) (auto intro: queue_inv_step)

lemma queue_inv_start:
  assumes "q_ok q" and "running q" and "items q = []"
  shows "queue_inv q_ok running items cap (queue_start np nc q)"
  using assms by (auto simp: queue_inv_def queue_start_def asleep_def served_def all_held_ready)

text \<open>Both critical sections end without a failing assertion, whatever the state.\<close>

lemma sections_ok:
  assumes "queue_inv q_ok running items cap s"
  shows "(\<exists>r. put x (qs_queue s) = Inr r) \<and> (\<exists>r. take_op (qs_queue s) = Inr r)"
proof -
  have ok: "q_ok (qs_queue s)" using assms by (simp add: queue_inv_def)
  have "\<exists>r. put x (qs_queue s) = Inr r"
    using put_full [OF ok, of x] put_room [OF ok, of x] put_stopped [OF ok, of x] by (cases "running (qs_queue s)"; cases "cap (qs_queue s) = Some (length (items (qs_queue s)))") fastforce+
  moreover have "\<exists>r. take_op (qs_queue s) = Inr r"
    using take_empty [OF ok] take_some [OF ok] take_stopped [OF ok] by (cases "running (qs_queue s)"; cases "items (qs_queue s)") fastforce+
  ultimately show ?thesis by blast
qed

text \<open>What a queue promises to its threads, in every reachable state.\<close>

lemma queue_promises:
  assumes inv: "queue_inv q_ok running items cap s" and q: "items (qs_queue s) = xs"
  shows "qs_accepted s = qs_taken s @ xs \<and> mset (qs_taken s) = mset (qs_done s) + all_held (qs_consumers s)
    \<and> (\<forall>k. cap (qs_queue s) = Some k \<longrightarrow> length xs \<le> k)
    \<and> (xs \<noteq> [] \<and> asleep (qs_consumers s) \<longrightarrow> (\<exists>c \<in> set (qs_consumers s). is_Woken c))
    \<and> (cap (qs_queue s) \<noteq> Some (length xs) \<and> asleep (qs_producers s) \<longrightarrow> (\<exists>p \<in> set (qs_producers s). is_Woken p))
    \<and> (\<forall>x. \<exists>r. put x (qs_queue s) = Inr r) \<and> (\<exists>r. take_op (qs_queue s) = Inr r)"
proof -
  have w: "0 < woken ys \<Longrightarrow> \<exists>y \<in> set ys. is_Woken y" for ys :: "('b, 'c) thread_pc list"
    by (auto simp: woken_def filter_empty_conv)
  have "xs \<noteq> [] \<and> asleep (qs_consumers s) \<longrightarrow> (\<exists>c \<in> set (qs_consumers s). is_Woken c)"
  proof (intro impI w)
    assume a: "xs \<noteq> [] \<and> asleep (qs_consumers s)"
    then have "length xs \<le> woken (qs_consumers s)" using inv q by (simp add: queue_inv_def served_def)
    with a show "0 < woken (qs_consumers s)" by (cases xs) auto
  qed
  moreover have "cap (qs_queue s) \<noteq> Some (length xs) \<and> asleep (qs_producers s) \<longrightarrow> (\<exists>p \<in> set (qs_producers s). is_Woken p)"
  proof (intro impI w)
    assume a: "cap (qs_queue s) \<noteq> Some (length xs) \<and> asleep (qs_producers s)"
    then obtain k where k: "cap (qs_queue s) = Some k" using inv by (cases "cap (qs_queue s)") (auto simp: queue_inv_def)
    with inv q a have "k - length xs \<le> woken (qs_producers s)" "length xs \<le> k" "k \<noteq> length xs" by (auto simp: queue_inv_def served_def)
    then show "0 < woken (qs_producers s)" by simp
  qed
  ultimately show ?thesis using inv q sections_ok [OF inv] by (simp add: queue_inv_def)
qed

end

section \<open>The three queues\<close>

interpretation blocking: work_queue BlockingQueue_put BlockingQueue_take "\<lambda>r. True" "\<lambda>q. True" None "\<lambda>q. True" bl_queue "\<lambda>q. None"
  by unfold_locales (auto simp: BlockingQueue_put_def BlockingQueue_take_def)

definition tp_ok :: "'a ThreadPool \<Rightarrow> bool" where
  "tp_ok p \<longleftrightarrow> tp_threads p \<noteq> [] \<and> (0 < tp_maxQueueSize p \<longrightarrow> length (tp_queue p) \<le> tp_maxQueueSize p)"

definition tp_cap :: "'a ThreadPool \<Rightarrow> nat option" where
  "tp_cap p = (if tp_maxQueueSize p = 0 then None else Some (tp_maxQueueSize p))"

interpretation pool: work_queue ThreadPool_run ThreadPool_take "\<lambda>r. r = Queued" tp_running "Some ThreadPool_stop" tp_ok tp_queue tp_cap
  by unfold_locales
    (auto simp: ThreadPool_run_def ThreadPool_take_def ThreadPool_stop_def tp_ok_def tp_cap_def isFull_def split: if_splits)

text \<open>The documented behaviour of a circular buffer, for those buffers that are \<open>valid\<close>.\<close>

definition circular_ok :: "('a, 'b) circular_buffer \<Rightarrow> ('b \<Rightarrow> bool) \<Rightarrow> ('b \<Rightarrow> 'a list) \<Rightarrow> bool" where
  "circular_ok cb valid items \<longleftrightarrow> (\<forall>b. valid b \<longrightarrow>
     (cb_full cb b \<longleftrightarrow> length (items b) = cb_capacity cb b) \<and> (cb_empty cb b \<longleftrightarrow> items b = [])
     \<and> (length (items b) < cb_capacity cb b \<longrightarrow> (\<forall>x. valid (cb_push_back cb x b) \<and> items (cb_push_back cb x b) = items b @ [x] \<and> cb_capacity cb (cb_push_back cb x b) = cb_capacity cb b))
     \<and> (items b \<noteq> [] \<longrightarrow> cb_front cb b = hd (items b) \<and> valid (cb_pop_front cb b) \<and> items (cb_pop_front cb b) = tl (items b) \<and> cb_capacity cb (cb_pop_front cb b) = cb_capacity cb b)
     \<and> length (items b) \<le> cb_capacity cb b)"

lemma bounded_is_queue:
  assumes "circular_ok cb valid items"
  shows "work_queue (BoundedBlockingQueue_put cb) (BoundedBlockingQueue_take cb) (\<lambda>r. True) (\<lambda>q. True) None valid items (\<lambda>b. Some (cb_capacity cb b))"
proof unfold_locales
  fix q x
  assume v: "valid q"
  show "Some (cb_capacity cb q) = Some (length (items q)) \<Longrightarrow> BoundedBlockingQueue_put cb x q = Inr Waits"
    using assms v by (simp add: circular_ok_def BoundedBlockingQueue_put_def)
  assume "Some (cb_capacity cb q) \<noteq> Some (length (items q))"
  moreover have "length (items q) \<le> cb_capacity cb q" using assms v by (simp add: circular_ok_def)
  ultimately have "length (items q) < cb_capacity cb q" by simp
  then show "\<exists>r q'. BoundedBlockingQueue_put cb x q = Inr (Returns r q' True) \<and> True \<and> valid q' \<and> True \<and> items q' = items q @ [x]
      \<and> Some (cb_capacity cb q') = Some (cb_capacity cb q)"
    using assms v by (simp add: circular_ok_def BoundedBlockingQueue_put_def)
next
  fix q x xs
  assume "valid q" "items q = x # xs"
  then show "\<exists>q' n. BoundedBlockingQueue_take cb q = Inr (Returns (Some x) q' n) \<and> valid q' \<and> True = True \<and> items q' = xs
      \<and> Some (cb_capacity cb q') = Some (cb_capacity cb q) \<and> (Some (cb_capacity cb q) \<noteq> None \<longrightarrow> n)"
    using assms by (intro exI [of _ "cb_pop_front cb q"] exI [of _ True]) (simp add: circular_ok_def BoundedBlockingQueue_take_def)
qed (use assms in \<open>auto simp: circular_ok_def BoundedBlockingQueue_take_def\<close>)

text \<open>A list with a capacity behaves so.\<close>

definition list_circular :: "('a, nat \<times> 'a list) circular_buffer" where
  "list_circular = \<lparr>cb_full = (\<lambda>(n, xs). length xs = n), cb_empty = (\<lambda>(n, xs). xs = []), cb_size = (\<lambda>(n, xs). length xs), cb_capacity = fst,
     cb_push_back = (\<lambda>x (n, xs). (n, xs @ [x])), cb_front = (\<lambda>(n, xs). hd xs), cb_pop_front = (\<lambda>(n, xs). (n, tl xs))\<rparr>"

lemma list_circular_ok: "circular_ok list_circular (\<lambda>(n, xs). length xs \<le> n) snd"
  by (auto simp: circular_ok_def list_circular_def)

interpretation bounded: work_queue "BoundedBlockingQueue_put list_circular" "BoundedBlockingQueue_take list_circular" "\<lambda>r. True" "\<lambda>q. True" None
  "\<lambda>(n, xs). length xs \<le> n" snd "\<lambda>b. Some (cb_capacity list_circular b)"
  by (rule bounded_is_queue [OF list_circular_ok])

text \<open>
  C15. A thread pool runs what it accepts, once and in order. In every run of a pool that was started with threads, with any number of
  threads that call \<^verbatim>\<open>run\<close> and in any interleaving, also with spurious wakeups and with \<^verbatim>\<open>stop\<close> at any time: the tasks accepted
  so far are those taken by the threads of the pool, in the order in which they were accepted, followed by those in the queue;
  the tasks taken are those that were run or are being run, each once; the queue never holds more tasks than its
  maximal size; no assertion fails; and no wakeup is lost, that is, while a task is queued and a thread of the pool sleeps
  another one has been woken for it, and while there is room and a calling thread sleeps another one has been woken.
\<close>

theorem thread_pool_runs_tasks:
  assumes start: "ThreadPool_start numThreads (setMaxQueueSize m (ThreadPool_new name)) = Inr p" and n: "0 < numThreads"
    and run: "(queue_step ThreadPool_run ThreadPool_take (\<lambda>r. r = Queued) tp_running (Some ThreadPool_stop))\<^sup>*\<^sup>* (queue_start np (nat numThreads) p) s"
  shows "qs_accepted s = qs_taken s @ tp_queue (qs_queue s) \<and> mset (qs_taken s) = mset (qs_done s) + all_held (qs_consumers s)
    \<and> (\<forall>k. tp_cap (qs_queue s) = Some k \<longrightarrow> length (tp_queue (qs_queue s)) \<le> k)
    \<and> (tp_queue (qs_queue s) \<noteq> [] \<and> asleep (qs_consumers s) \<longrightarrow> (\<exists>c \<in> set (qs_consumers s). is_Woken c))
    \<and> (tp_cap (qs_queue s) \<noteq> Some (length (tp_queue (qs_queue s))) \<and> asleep (qs_producers s) \<longrightarrow> (\<exists>c \<in> set (qs_producers s). is_Woken c))
    \<and> (\<forall>x. \<exists>r. ThreadPool_run x (qs_queue s) = Inr r) \<and> (\<exists>r. ThreadPool_take (qs_queue s) = Inr r)"
proof -
  have p: "tp_ok p" "tp_running p" "tp_queue p = []" using start n by (auto simp: ThreadPool_start_def setMaxQueueSize_def ThreadPool_new_def tp_ok_def)
  show ?thesis by (rule pool.queue_promises [OF pool.queue_inv_reachable [OF run pool.queue_inv_start [OF p]] refl])
qed

theorem thread_pool_runs_tasks_witness:
  "\<exists>(p :: nat ThreadPool) s. ThreadPool_start 2 (setMaxQueueSize 1 (ThreadPool_new ''pool'')) = Inr p
     \<and> (queue_step ThreadPool_run ThreadPool_take (\<lambda>r. r = Queued) tp_running (Some ThreadPool_stop))\<^sup>*\<^sup>* (queue_start 1 2 p) s
     \<and> qs_producers s = [Calling 7] \<and> (\<exists>r. ThreadPool_run 7 (qs_queue s) = Inr r)"
proof -
  obtain p :: "nat ThreadPool" where p: "ThreadPool_start 2 (setMaxQueueSize 1 (ThreadPool_new ''pool'')) = Inr p" by (simp add: ThreadPool_start_def setMaxQueueSize_def ThreadPool_new_def)
  let ?s = "queue_start 1 2 p :: (nat ThreadPool, nat) queue_sys"
  let ?t = "?s\<lparr>qs_producers := (qs_producers ?s)[0 := Calling 7]\<rparr>"
  have "queue_step ThreadPool_run ThreadPool_take (\<lambda>r. r = Queued) tp_running (Some ThreadPool_stop) ?s ?t"
    by (rule queue_step.Put_call) (simp_all add: queue_start_def)
  then have r: "(queue_step ThreadPool_run ThreadPool_take (\<lambda>r. r = Queued) tp_running (Some ThreadPool_stop))\<^sup>*\<^sup>* (queue_start 1 (nat 2) p) ?t" by simp
  have "\<exists>r. ThreadPool_run 7 (qs_queue ?t) = Inr r" using thread_pool_runs_tasks [OF p _ r] by simp
  with p r show ?thesis by (intro exI [of _ p] exI [of _ ?t]) (simp add: queue_start_def)
qed

text \<open>
  C32. A bounded queue hands over every item once and in order, and never more than its capacity. In every run, with any number of
  threads that put and take, in any interleaving and with spurious wakeups: the items put are those taken, in order, followed
  by those in the buffer; the buffer never holds more than its capacity; no assertion fails; and no wakeup is lost on either
  side. The hypothesis on the circular buffer is its documented behaviour.
\<close>

theorem bounded_queue_in_order:
  assumes cb: "circular_ok cb valid items" and q: "valid q" "items q = []"
    and run: "(queue_step (BoundedBlockingQueue_put cb) (BoundedBlockingQueue_take cb) (\<lambda>r. True) (\<lambda>q. True) None)\<^sup>*\<^sup>* (queue_start np nc q) s"
  shows "qs_accepted s = qs_taken s @ items (qs_queue s) \<and> mset (qs_taken s) = mset (qs_done s) + all_held (qs_consumers s)
    \<and> length (items (qs_queue s)) \<le> cb_capacity cb (qs_queue s)
    \<and> (items (qs_queue s) \<noteq> [] \<and> asleep (qs_consumers s) \<longrightarrow> (\<exists>c \<in> set (qs_consumers s). is_Woken c))
    \<and> (length (items (qs_queue s)) < cb_capacity cb (qs_queue s) \<and> asleep (qs_producers s) \<longrightarrow> (\<exists>p \<in> set (qs_producers s). is_Woken p))
    \<and> (\<forall>x. \<exists>r. BoundedBlockingQueue_put cb x (qs_queue s) = Inr r) \<and> (\<exists>r. BoundedBlockingQueue_take cb (qs_queue s) = Inr r)"
proof -
  note w = bounded_is_queue [OF cb]
  have "queue_inv valid (\<lambda>q. True) items (\<lambda>b. Some (cb_capacity cb b)) s"
    by (rule work_queue.queue_inv_reachable [OF w run]) (rule work_queue.queue_inv_start [OF w], use q in simp_all)
  from work_queue.queue_promises [OF w this refl] show ?thesis by auto
qed

theorem bounded_queue_in_order_witness:
  "\<exists>s. (queue_step (BoundedBlockingQueue_put list_circular) (BoundedBlockingQueue_take list_circular) (\<lambda>r. True) (\<lambda>q. True) None)\<^sup>*\<^sup>*
       (queue_start 1 1 (3, [] :: nat list)) s \<and> qs_accepted s = qs_taken s @ snd (qs_queue s)"
  using bounded_queue_in_order [OF list_circular_ok, of "(3, [] :: nat list)" 1 1 "queue_start 1 1 (3, [])"] by auto

end
