(* ===== verification/Muduo_Thread.thy ===== *)
theory Muduo_Thread
  imports Muduo_Queues Muduo_Atomic
begin

text \<open>
  Threads, \<^verbatim>\<open>base/Thread.cc\<close>, up to the calls of the thread library: a thread that is started waits on its latch until the new thread has
  stored its id. Whether \<^verbatim>\<open>pthread_create\<close> succeeds and the id of the new thread are arguments; the function the thread runs, the
  handling of its exceptions and the name given to the kernel are left out.
\<close>

section \<open>Thread\<close>

record Thread =
  th_started :: bool
  th_joined :: bool
  th_tid :: int
  th_name :: string
  th_latch :: CountDownLatch

definition setDefaultName :: "32 word \<Rightarrow> Thread \<Rightarrow> Thread \<times> 32 word" where
  "setDefaultName numCreated t = (case incrementAndGet numCreated of (num, numCreated) \<Rightarrow>
     (if th_name t = [] then t\<lparr>th_name := snprintf 32 (''Thread'' @ dec_int (sint num))\<rparr> else t, numCreated))"

definition Thread_new :: "string \<Rightarrow> 32 word \<Rightarrow> Thread \<times> 32 word" where
  "Thread_new n numCreated = setDefaultName numCreated
     \<lparr>th_started = False, th_joined = False, th_tid = 0, th_name = n, th_latch = \<lparr>cl_count = 1\<rparr>\<rparr>"

text \<open>\<^verbatim>\<open>start()\<close> up to the wait, the beginning of the new thread, and the rest of \<^verbatim>\<open>start()\<close>.\<close>

definition Thread_start :: "bool \<Rightarrow> Thread \<Rightarrow> Thread outcome" where
  "Thread_start created t = assert_that (\<not> th_started t) ''!started_''
     (if created then Inr (t\<lparr>th_started := True\<rparr>) else Inl (Log_fatal ''Failed in pthread_create''))"

definition ThreadData_runInThread :: "int \<Rightarrow> Thread \<Rightarrow> bool \<times> Thread" where
  "ThreadData_runInThread tid t = (case countDown (th_latch t) of (notify, latch) \<Rightarrow> (notify, t\<lparr>th_tid := tid, th_latch := latch\<rparr>))"

definition Thread_start_wait :: "Thread \<Rightarrow> (unit, Thread) critical outcome" where
  "Thread_start_wait t = (case CountDownLatch_wait (th_latch t) of
     Waits \<Rightarrow> Inr Waits
   | Returns r latch n \<Rightarrow> assert_that (th_tid t > 0) ''tid_ > 0'' (Inr (Returns () (t\<lparr>th_latch := latch\<rparr>) n)))"

definition Thread_join :: "Thread \<Rightarrow> Thread outcome" where
  "Thread_join t = assert_that (th_started t) ''started_'' (assert_that (\<not> th_joined t) ''!joined_'' (Inr (t\<lparr>th_joined := True\<rparr>)))"

text \<open>The destructor detaches a thread that runs and was not joined.\<close>

definition Thread_delete :: "Thread \<Rightarrow> bool" where
  "Thread_delete t \<longleftrightarrow> th_started t \<and> \<not> th_joined t"

text \<open>
  Starting a new thread waits exactly until the thread has run its first instructions, is then notified, and knows its id; the
  thread can be joined once.
\<close>

lemma thread_starts:
  assumes new: "Thread_new n c = (t, c')" and "0 < tid"
  shows "\<exists>t1. Thread_start True t = Inr t1 \<and> Thread_start_wait t1 = Inr Waits
    \<and> (\<exists>t2. ThreadData_runInThread tid t1 = (True, t2) \<and> Thread_start_wait t2 = Inr (Returns () t2 False) \<and> th_tid t2 = tid
         \<and> (\<exists>t3. Thread_join t2 = Inr t3 \<and> Thread_join t3 = Inl (Assert_failed ''!joined_'') \<and> \<not> Thread_delete t3))"
  using assms
  by (cases "n = []") (auto simp: Thread_new_def setDefaultName_def Thread_start_def Thread_start_wait_def ThreadData_runInThread_def countDown_def
      CountDownLatch_wait_def Thread_join_def Thread_delete_def assert_that_def Let_def)

text \<open>Threads without a name of their own get different names, as long as the counter does not wrap around.\<close>

lemma default_names:
  assumes "Thread_new [] c = (t, c')"
  shows "c' = c + 1 \<and> th_name t = snprintf 32 (''Thread'' @ dec_int (sint (c + 1)))"
  using assms by (auto simp: Thread_new_def setDefaultName_def)

end
