(* ===== verification/Muduo_TimerQueue.thy ===== *)
theory Muduo_TimerQueue
  imports Muduo_Timestamp Muduo_Poller "HOL-Library.Product_Lexorder"
begin

text \<open>
  Timers (\<^verbatim>\<open>net/Timer.h\<close>, \<^verbatim>\<open>net/Timer.cc\<close>, \<^verbatim>\<open>net/TimerId.h\<close>, \<^verbatim>\<open>net/TimerQueue.h\<close>,
  \<^verbatim>\<open>net/TimerQueue.cc\<close>). Timers live in a heap by address, since \<^verbatim>\<open>timers_\<close>, \<^verbatim>\<open>activeTimers_\<close> and
  every \<^verbatim>\<open>TimerId\<close> hold raw pointers and the queue deletes them itself. \<^verbatim>\<open>timers_\<close>, a \<^verbatim>\<open>std::set\<close>
  of pairs, is the strictly sorted list of its elements. \<open>tq_alarm\<close> is the time at which the kernel
  timer descriptor will become readable. What a callback does to the queue is an argument. The
  theory shows that no assertion fails, no dangling pointer is followed, nothing leaks, a timer id
  cancels its own timer only, and a queue with timers always has an alarm pending.
\<close>

section \<open>Model\<close>

record 'cb Timer =
  tm_callback :: 'cb
  tm_expiration :: Timestamp
  tm_interval :: seconds
  tm_repeat :: bool
  tm_sequence :: int

type_synonym Entry = "Timestamp \<times> addr"
type_synonym ActiveTimer = "addr \<times> int"

text \<open>\<^verbatim>\<open>TimerId\<close> is the pair of a pointer and a sequence number.\<close>

type_synonym TimerId = "addr \<times> int"

record 'cb TimerQueue =
  tq_heap :: "addr \<Rightarrow> 'cb Timer option"
  tq_timers :: "Entry list"
  tq_activeTimers :: "ActiveTimer set"
  tq_callingExpiredTimers :: bool
  tq_cancelingTimers :: "ActiveTimer set"
  tq_alarm :: "Timestamp option"
  s_numCreated :: int

definition UINTPTR_MAX :: nat where
  "UINTPTR_MAX = 2 ^ 64 - 1"

definition TimerQueue_new :: "int \<Rightarrow> 'cb TimerQueue" where
  "TimerQueue_new created = \<lparr>tq_heap = Map.empty, tq_timers = [], tq_activeTimers = {},
     tq_callingExpiredTimers = False, tq_cancelingTimers = {}, tq_alarm = None, s_numCreated = created\<rparr>"

text \<open>\<^verbatim>\<open>new Timer(cb, when, interval)\<close> at the address \<open>a\<close> the allocator returned.\<close>

definition Timer_new :: "addr \<Rightarrow> 'cb \<Rightarrow> Timestamp \<Rightarrow> seconds \<Rightarrow> 'cb TimerQueue \<Rightarrow> 'cb TimerQueue" where
  "Timer_new a cb when interval q = (let sequence = s_numCreated q + 1 in
     q\<lparr>s_numCreated := sequence,
       tq_heap := (tq_heap q)(a \<mapsto> \<lparr>tm_callback = cb, tm_expiration = when, tm_interval = interval,
         tm_repeat = sec_positive interval, tm_sequence = sequence\<rparr>)\<rparr>)"

definition Timer_restart :: "Timestamp \<Rightarrow> 'cb Timer \<Rightarrow> 'cb Timer" where
  "Timer_restart now t = (if tm_repeat t then t\<lparr>tm_expiration := addTime now (tm_interval t)\<rparr>
     else t\<lparr>tm_expiration := Timestamp_invalid\<rparr>)"

definition with_timer :: "addr \<Rightarrow> 'cb TimerQueue \<Rightarrow> ('cb Timer \<Rightarrow> 'a outcome) \<Rightarrow> 'a outcome" where
  "with_timer a q k = (case tq_heap q a of None \<Rightarrow> Inl Bad_pointer | Some t \<Rightarrow> k t)"

definition Timer_delete :: "addr \<Rightarrow> 'cb TimerQueue \<Rightarrow> 'cb TimerQueue outcome" where
  "Timer_delete a q = with_timer a q (\<lambda>t. Inr (q\<lparr>tq_heap := (tq_heap q)(a := None)\<rparr>))"

text \<open>The timespec, seconds and nanoseconds, given to the timer descriptor.\<close>

definition howMuchTimeFromNow :: "Timestamp \<Rightarrow> Timestamp \<Rightarrow> int \<times> int" where
  "howMuchTimeFromNow now when = (let microseconds = when - now;
       microseconds = (if microseconds < 100 then 100 else microseconds)
     in (microseconds sdiv kMicroSecondsPerSecond, (microseconds smod kMicroSecondsPerSecond) * 1000))"

text \<open>
  \<^verbatim>\<open>timerfd_settime\<close> with a relative time: the alarm is due that long after \<open>now\<close>.
\<close>

definition resetTimerfd :: "Timestamp \<Rightarrow> Timestamp \<Rightarrow> 'cb TimerQueue \<Rightarrow> 'cb TimerQueue" where
  "resetTimerfd now expiration q = (case howMuchTimeFromNow now expiration of (tv_sec, tv_nsec) \<Rightarrow>
     q\<lparr>tq_alarm := Some (now + tv_sec * kMicroSecondsPerSecond + tv_nsec div 1000)\<rparr>)"

definition readTimerfd :: "'cb TimerQueue \<Rightarrow> 'cb TimerQueue" where
  "readTimerfd q = q\<lparr>tq_alarm := None\<rparr>"

definition same_size :: "'cb TimerQueue \<Rightarrow> bool" where
  "same_size q \<longleftrightarrow> length (tq_timers q) = card (tq_activeTimers q)"

text \<open>\<^verbatim>\<open>std::set::insert\<close> on the sorted list: the new list, and whether the element was new.\<close>

definition set_insert :: "'a :: linorder \<Rightarrow> 'a list \<Rightarrow> 'a list \<times> bool" where
  "set_insert x xs = (if x \<in> set xs then (xs, False) else (insort x xs, True))"

definition TimerQueue_insert :: "bool \<Rightarrow> addr \<Rightarrow> 'cb TimerQueue \<Rightarrow> (bool \<times> 'cb TimerQueue) outcome" where
  "TimerQueue_insert inLoop a q = assertInLoopThread inLoop
     (assert_that (same_size q) ''timers_.size() == activeTimers_.size()''
       (with_timer a q (\<lambda>timer.
         let when = tm_expiration timer;
             earliestChanged = (tq_timers q = [] \<or> when < fst (hd (tq_timers q)))
         in case set_insert (when, a) (tq_timers q) of (timers', fresh) \<Rightarrow>
           assert_that fresh ''result.second''
             (assert_that ((a, tm_sequence timer) \<notin> tq_activeTimers q) ''result.second''
               (let q' = q\<lparr>tq_timers := timers',
                      tq_activeTimers := insert (a, tm_sequence timer) (tq_activeTimers q)\<rparr>
                in assert_that (same_size q') ''timers_.size() == activeTimers_.size()''
                     (Inr (earliestChanged, q')))))))"

definition addTimerInLoop :: "bool \<Rightarrow> Timestamp \<Rightarrow> addr \<Rightarrow> 'cb TimerQueue \<Rightarrow> 'cb TimerQueue outcome" where
  "addTimerInLoop inLoop clock a q = assertInLoopThread inLoop
     (andThen (TimerQueue_insert inLoop a q) (\<lambda>(earliestChanged, q').
       if earliestChanged then with_timer a q' (\<lambda>t. Inr (resetTimerfd clock (tm_expiration t) q')) else Inr q'))"

definition cancelInLoop :: "bool \<Rightarrow> TimerId \<Rightarrow> 'cb TimerQueue \<Rightarrow> 'cb TimerQueue outcome" where
  "cancelInLoop inLoop timerId q = assertInLoopThread inLoop
     (assert_that (same_size q) ''timers_.size() == activeTimers_.size()''
       (andThen
         (if timerId \<in> tq_activeTimers q then
            with_timer (fst timerId) q (\<lambda>t.
              let e = (tm_expiration t, fst timerId) in
              assert_that (e \<in> set (tq_timers q)) ''n == 1''
                (andThen (Timer_delete (fst timerId) (q\<lparr>tq_timers := remove1 e (tq_timers q)\<rparr>))
                  (\<lambda>q. Inr (q\<lparr>tq_activeTimers := tq_activeTimers q - {timerId}\<rparr>))))
          else if tq_callingExpiredTimers q
          then Inr (q\<lparr>tq_cancelingTimers := insert timerId (tq_cancelingTimers q)\<rparr>)
          else Inr q)
         (\<lambda>q. assert_that (same_size q) ''timers_.size() == activeTimers_.size()'' (Inr q))))"

text \<open>
  \<^verbatim>\<open>addTimer\<close> and \<^verbatim>\<open>cancel\<close> called in the loop's thread, where \<^verbatim>\<open>runInLoop\<close> calls the functor at
  once. From another thread the timer is created there and \<^verbatim>\<open>addTimerInLoop\<close> runs later.
\<close>

definition addTimer ::
  "Timestamp \<Rightarrow> addr \<Rightarrow> 'cb \<Rightarrow> Timestamp \<Rightarrow> seconds \<Rightarrow> 'cb TimerQueue \<Rightarrow> (TimerId \<times> 'cb TimerQueue) outcome" where
  "addTimer clock a cb when interval q =
     (let q1 = Timer_new a cb when interval q in
      andThen (addTimerInLoop True clock a q1) (\<lambda>q2. Inr ((a, s_numCreated q1), q2)))"

definition TimerQueue_cancel :: "TimerId \<Rightarrow> 'cb TimerQueue \<Rightarrow> 'cb TimerQueue outcome" where
  "TimerQueue_cancel timerId q = cancelInLoop True timerId q"

definition erase_active :: "Entry \<Rightarrow> 'cb TimerQueue \<Rightarrow> 'cb TimerQueue outcome" where
  "erase_active it q = with_timer (snd it) q (\<lambda>t.
     assert_that ((snd it, tm_sequence t) \<in> tq_activeTimers q) ''n == 1''
       (Inr (q\<lparr>tq_activeTimers := tq_activeTimers q - {(snd it, tm_sequence t)}\<rparr>)))"

definition getExpired :: "Timestamp \<Rightarrow> 'cb TimerQueue \<Rightarrow> (Entry list \<times> 'cb TimerQueue) outcome" where
  "getExpired now q = assert_that (same_size q) ''timers_.size() == activeTimers_.size()''
     (let sentry = (now, UINTPTR_MAX);
          expired = takeWhile (\<lambda>e. e < sentry) (tq_timers q);
          rest = dropWhile (\<lambda>e. e < sentry) (tq_timers q)
      in assert_that (rest = [] \<or> now < fst (hd rest)) ''end == timers_.end() || now < end->first''
          (andThen (for_each erase_active expired (q\<lparr>tq_timers := rest\<rparr>))
            (\<lambda>q. assert_that (same_size q) ''timers_.size() == activeTimers_.size()'' (Inr (expired, q)))))"

definition reset_one :: "Timestamp \<Rightarrow> Entry \<Rightarrow> 'cb TimerQueue \<Rightarrow> 'cb TimerQueue outcome" where
  "reset_one now it q = with_timer (snd it) q (\<lambda>t.
     if tm_repeat t \<and> (snd it, tm_sequence t) \<notin> tq_cancelingTimers q
     then andThen (TimerQueue_insert True (snd it) (q\<lparr>tq_heap := (tq_heap q)(snd it \<mapsto> Timer_restart now t)\<rparr>))
            (\<lambda>(earliestChanged, q). Inr q)
     else Timer_delete (snd it) q)"

definition TimerQueue_reset :: "Timestamp \<Rightarrow> Entry list \<Rightarrow> Timestamp \<Rightarrow> 'cb TimerQueue \<Rightarrow> 'cb TimerQueue outcome" where
  "TimerQueue_reset clock expired now q =
     andThen (for_each (reset_one now) expired q) (\<lambda>q.
       andThen
         (if tq_timers q \<noteq> []
          then with_timer (snd (hd (tq_timers q))) q (\<lambda>t. Inr (tm_expiration t))
          else Inr Timestamp_invalid)
         (\<lambda>nextExpire. Inr (if Timestamp_valid nextExpire then resetTimerfd clock nextExpire q else q)))"

text \<open>\<open>run\<close> is what calling a callback does to the queue.\<close>

definition run_timer :: "('cb \<Rightarrow> 'cb TimerQueue \<Rightarrow> 'cb TimerQueue outcome) \<Rightarrow> Entry \<Rightarrow> 'cb TimerQueue \<Rightarrow> 'cb TimerQueue outcome" where
  "run_timer run it q = with_timer (snd it) q (\<lambda>t. run (tm_callback t) q)"

definition TimerQueue_handleRead ::
  "('cb \<Rightarrow> 'cb TimerQueue \<Rightarrow> 'cb TimerQueue outcome) \<Rightarrow> bool \<Rightarrow> Timestamp \<Rightarrow> Timestamp \<Rightarrow> 'cb TimerQueue
     \<Rightarrow> 'cb TimerQueue outcome" where
  "TimerQueue_handleRead run inLoop now clock q = assertInLoopThread inLoop
     (andThen (getExpired now (readTimerfd q)) (\<lambda>(expired, q).
       andThen (for_each (run_timer run) expired (q\<lparr>tq_callingExpiredTimers := True, tq_cancelingTimers := {}\<rparr>))
         (\<lambda>q. TimerQueue_reset clock expired now (q\<lparr>tq_callingExpiredTimers := False\<rparr>))))"

text \<open>The destructor deletes the timers of \<^verbatim>\<open>timers_\<close>.\<close>

definition TimerQueue_delete :: "'cb TimerQueue \<Rightarrow> 'cb TimerQueue outcome" where
  "TimerQueue_delete q = for_each (\<lambda>e. Timer_delete (snd e)) (tq_timers q) q"

section \<open>The invariant\<close>

text \<open>
  \<open>E\<close> holds the addresses of the timers whose callbacks are being run: they are in no container
  but still allocated.
\<close>

definition queued :: "'cb TimerQueue \<Rightarrow> addr set" where
  "queued q = snd ` set (tq_timers q)"

definition timers_wf :: "'cb TimerQueue \<Rightarrow> bool" where
  "timers_wf q \<longleftrightarrow> sorted_wrt (<) (tq_timers q)
     \<and> (\<forall>(w, a) \<in> set (tq_timers q). a < UINTPTR_MAX \<and> (\<exists>t. tq_heap q a = Some t \<and> tm_expiration t = w))
     \<and> tq_activeTimers q = {(a, tm_sequence t) | a t. tq_heap q a = Some t \<and> a \<in> queued q}"

definition heap_wf :: "'cb TimerQueue \<Rightarrow> bool" where
  "heap_wf q \<longleftrightarrow> (\<forall>a t. tq_heap q a = Some t \<longrightarrow> a < UINTPTR_MAX \<and> tm_sequence t \<le> s_numCreated q
       \<and> tm_repeat t = sec_positive (tm_interval t) \<and> seconds_ok (tm_interval t))
     \<and> (\<forall>a b t u. tq_heap q a = Some t \<longrightarrow> tq_heap q b = Some u \<longrightarrow> tm_sequence t = tm_sequence u \<longrightarrow> a = b)"

definition tq_inv :: "addr set \<Rightarrow> 'cb TimerQueue \<Rightarrow> bool" where
  "tq_inv E q \<longleftrightarrow> timers_wf q \<and> heap_wf q \<and> E \<subseteq> dom (tq_heap q) \<and> E \<inter> queued q = {}"

lemma with_timer_simps [simp, outcome_simps]:
  "tq_heap q a = Some t \<Longrightarrow> with_timer a q k = k t"
  "tq_heap q a = None \<Longrightarrow> with_timer a q k = Inl Bad_pointer"
  by (simp_all add: with_timer_def)

lemma queued_iff: "a \<in> queued q \<longleftrightarrow> (\<exists>w. (w, a) \<in> set (tq_timers q))"
  by (force simp: queued_def)

lemma queued_cong: "set (tq_timers q') = set (tq_timers q) \<Longrightarrow> queued q' = queued q"
  by (simp add: queued_def)

lemma timers_wfI:
  assumes "sorted_wrt (<) (tq_timers q)"
    and "\<And>w a. (w, a) \<in> set (tq_timers q) \<Longrightarrow> a < UINTPTR_MAX \<and> (\<exists>t. tq_heap q a = Some t \<and> tm_expiration t = w)"
    and "\<And>a s. (a, s) \<in> tq_activeTimers q \<longleftrightarrow> (\<exists>t. tq_heap q a = Some t \<and> tm_sequence t = s \<and> a \<in> queued q)"
  shows "timers_wf q"
  using assms by (auto simp: timers_wf_def)

lemma timers_wfD:
  "timers_wf q \<Longrightarrow> (w, a) \<in> set (tq_timers q) \<Longrightarrow> a < UINTPTR_MAX \<and> (\<exists>t. tq_heap q a = Some t \<and> tm_expiration t = w)"
  unfolding timers_wf_def by blast

lemma queuedD: "timers_wf q \<Longrightarrow> a \<in> queued q \<Longrightarrow> \<exists>t. tq_heap q a = Some t"
  using timers_wfD [of q] by (auto simp: queued_iff)

lemma timers_wf_sorted: "timers_wf q \<Longrightarrow> sorted (tq_timers q) \<and> distinct (tq_timers q)"
  by (simp add: timers_wf_def strict_sorted_iff)

lemma timers_wf_active:
  "timers_wf q \<Longrightarrow> (a, s) \<in> tq_activeTimers q \<longleftrightarrow> (\<exists>t. tq_heap q a = Some t \<and> tm_sequence t = s \<and> a \<in> queued q)"
  by (auto simp: timers_wf_def)

text \<open>An address is queued under its own expiration only.\<close>

lemma queued_entry:
  assumes "timers_wf q" and "tq_heap q a = Some t"
  shows "a \<in> queued q \<longleftrightarrow> (tm_expiration t, a) \<in> set (tq_timers q)"
proof
  assume "a \<in> queued q"
  then obtain w where "(w, a) \<in> set (tq_timers q)" by (auto simp: queued_iff)
  with timers_wfD [OF assms(1) this] assms(2) show "(tm_expiration t, a) \<in> set (tq_timers q)" by auto
qed (auto simp: queued_iff)

lemma inj_on_snd_timers: "timers_wf q \<Longrightarrow> inj_on snd (set (tq_timers q))"
  by (rule inj_onI) (metis option.inject prod.collapse timers_wfD)

lemma same_size_wf:
  assumes "timers_wf q"
  shows "same_size q"
proof -
  let ?f = "\<lambda>a. (a, tm_sequence (the (tq_heap q a)))"
  have "x \<in> tq_activeTimers q \<longleftrightarrow> x \<in> ?f ` queued q" for x
  proof (cases x)
    case (Pair a s)
    have "\<exists>t. tq_heap q a = Some t" if "a \<in> queued q" using that by (rule queuedD [OF assms])
    then show ?thesis using timers_wf_active [OF assms, of a s] by (auto simp: Pair image_iff)
  qed
  then have "tq_activeTimers q = ?f ` queued q" by blast
  moreover have "card (?f ` queued q) = card (queued q)" by (rule card_image) (auto simp: inj_on_def)
  moreover have "card (queued q) = length (tq_timers q)"
    using card_image [OF inj_on_snd_timers [OF assms]] timers_wf_sorted [OF assms]
    by (simp add: distinct_card queued_def)
  ultimately show ?thesis by (simp add: same_size_def)
qed

lemma insert_ok:
  assumes wf: "timers_wf q" and a: "tq_heap q a = Some t" "a \<notin> queued q" "a < UINTPTR_MAX"
    and q': "q' = q\<lparr>tq_timers := insort (tm_expiration t, a) (tq_timers q),
      tq_activeTimers := insert (a, tm_sequence t) (tq_activeTimers q)\<rparr>"
  shows "TimerQueue_insert True a q = Inr (tq_timers q = [] \<or> tm_expiration t < fst (hd (tq_timers q)), q')
    \<and> timers_wf q' \<and> queued q' = insert a (queued q)"
proof (intro conjI)
  have new: "(tm_expiration t, a) \<notin> set (tq_timers q)" using a(2) by (auto simp: queued_iff)
  have qd: "queued q' = insert a (queued q)" by (simp add: q' queued_def set_insort_key)
  have act: "(a, tm_sequence t) \<notin> tq_activeTimers q" using a timers_wf_active [OF wf] by auto
  show "queued q' = insert a (queued q)" by (rule qd)
  show wf': "timers_wf q'"
  proof (rule timers_wfI)
    show "sorted_wrt (<) (tq_timers q')"
      using timers_wf_sorted [OF wf] new by (simp add: q' strict_sorted_iff sorted_insort distinct_insort)
    fix w b assume "(w, b) \<in> set (tq_timers q')"
    then have "(w, b) = (tm_expiration t, a) \<or> (w, b) \<in> set (tq_timers q)" by (simp add: q' set_insort_key)
    then show "b < UINTPTR_MAX \<and> (\<exists>t. tq_heap q' b = Some t \<and> tm_expiration t = w)"
      using a timers_wfD [OF wf, of w b] by (auto simp: q')
  next
    fix b s show "(b, s) \<in> tq_activeTimers q' \<longleftrightarrow> (\<exists>u. tq_heap q' b = Some u \<and> tm_sequence u = s \<and> b \<in> queued q')"
      unfolding qd using a timers_wf_active [OF wf, of b s] by (auto simp: q')
  qed
  show "TimerQueue_insert True a q = Inr (tq_timers q = [] \<or> tm_expiration t < fst (hd (tq_timers q)), q')"
    using a new act same_size_wf [OF wf] same_size_wf [OF wf']
    by (simp add: TimerQueue_insert_def set_insert_def q' Let_def)
qed

lemma cancel_active_ok:
  assumes wf: "timers_wf q" and a: "tq_heap q a = Some t" "a \<in> queued q"
    and q': "q' = q\<lparr>tq_timers := remove1 (tm_expiration t, a) (tq_timers q), tq_heap := (tq_heap q)(a := None),
      tq_activeTimers := tq_activeTimers q - {(a, tm_sequence t)}\<rparr>"
  shows "cancelInLoop True (a, tm_sequence t) q = Inr q' \<and> timers_wf q' \<and> queued q' = queued q - {a}"
proof -
  have e: "(tm_expiration t, a) \<in> set (tq_timers q)" using queued_entry [OF wf a(1)] a(2) by simp
  have act: "(a, tm_sequence t) \<in> tq_activeTimers q" using a timers_wf_active [OF wf] by auto
  have set': "set (tq_timers q') = set (tq_timers q) - {(tm_expiration t, a)}"
    using timers_wf_sorted [OF wf] by (simp add: q')
  have qd: "queued q' = queued q - {a}"
    using inj_on_image_set_diff [OF inj_on_snd_timers [OF wf], of "set (tq_timers q)" "{(tm_expiration t, a)}"] e
    by (simp add: set' queued_def)
  have wf': "timers_wf q'"
  proof (rule timers_wfI)
    show "sorted_wrt (<) (tq_timers q')"
      using timers_wf_sorted [OF wf] by (simp add: q' strict_sorted_iff sorted_remove1)
    fix w b assume b: "(w, b) \<in> set (tq_timers q')"
    then have "b \<in> queued q'" by (auto simp: queued_iff)
    then have "b \<noteq> a" using qd by simp
    with b timers_wfD [OF wf, of w b] show "b < UINTPTR_MAX \<and> (\<exists>t. tq_heap q' b = Some t \<and> tm_expiration t = w)"
      unfolding set' by (auto simp: q')
  next
    fix b s show "(b, s) \<in> tq_activeTimers q' \<longleftrightarrow> (\<exists>u. tq_heap q' b = Some u \<and> tm_sequence u = s \<and> b \<in> queued q')"
      unfolding qd using a timers_wf_active [OF wf, of b s] by (auto simp: q')
  qed
  have "cancelInLoop True (a, tm_sequence t) q = Inr q'"
    using a e act same_size_wf [OF wf] same_size_wf [OF wf']
    by (simp add: cancelInLoop_def Timer_delete_def q')
  with wf' qd show ?thesis by blast
qed

lemma cancel_inactive_ok:
  assumes "timers_wf q" and "timerId \<notin> tq_activeTimers q"
  shows "cancelInLoop True timerId q = Inr (if tq_callingExpiredTimers q
    then q\<lparr>tq_cancelingTimers := insert timerId (tq_cancelingTimers q)\<rparr> else q)"
  using assms(2) same_size_wf [OF assms(1)] by (simp add: cancelInLoop_def same_size_def)

section \<open>Expired timers\<close>

lemma while_sorted:
  assumes "sorted xs"
  shows "takeWhile (\<lambda>e. e < s) xs = filter (\<lambda>e. e < s) xs \<and> dropWhile (\<lambda>e. e < s) xs = filter (\<lambda>e. \<not> e < s) xs"
  using assms
proof (induction xs)
  case (Cons x xs)
  show ?case
  proof (cases "x < s")
    case False
    then have "\<not> e < s" if "e \<in> set xs" for e using Cons.prems that by fastforce
    with False show ?thesis by (simp add: filter_empty_conv filter_id_conv)
  qed (use Cons in auto)
qed simp

lemma entry_less_sentry: "a < UINTPTR_MAX \<Longrightarrow> (w :: Timestamp, a) < (now, UINTPTR_MAX) \<longleftrightarrow> w \<le> now"
  by auto

definition expired_at :: "Timestamp \<Rightarrow> 'cb TimerQueue \<Rightarrow> Entry list" where
  "expired_at now q = filter (\<lambda>e. fst e \<le> now) (tq_timers q)"

lemma timers_split:
  assumes "timers_wf q"
  shows "takeWhile (\<lambda>e. e < (now, UINTPTR_MAX)) (tq_timers q) = expired_at now q"
    and "dropWhile (\<lambda>e. e < (now, UINTPTR_MAX)) (tq_timers q) = filter (\<lambda>e. now < fst e) (tq_timers q)"
proof -
  have less: "e < (now, UINTPTR_MAX) \<longleftrightarrow> fst e \<le> now" if "e \<in> set (tq_timers q)" for e
  proof (cases e)
    case (Pair w a)
    with timers_wfD [OF assms, of w a] that show ?thesis by (simp only: entry_less_sentry fst_conv)
  qed
  have "filter (\<lambda>e. e < (now, UINTPTR_MAX)) (tq_timers q) = expired_at now q"
    unfolding expired_at_def using less by (rule filter_cong [OF refl])
  moreover have "filter (\<lambda>e. \<not> e < (now, UINTPTR_MAX)) (tq_timers q) = filter (\<lambda>e. now < fst e) (tq_timers q)"
    using less by (intro filter_cong [OF refl]) (simp only: not_le)
  ultimately show "takeWhile (\<lambda>e. e < (now, UINTPTR_MAX)) (tq_timers q) = expired_at now q"
    and "dropWhile (\<lambda>e. e < (now, UINTPTR_MAX)) (tq_timers q) = filter (\<lambda>e. now < fst e) (tq_timers q)"
    using while_sorted [of "tq_timers q" "(now, UINTPTR_MAX)"] timers_wf_sorted [OF assms] by simp_all
qed

definition key_of :: "'cb TimerQueue \<Rightarrow> Entry \<Rightarrow> ActiveTimer" where
  "key_of q e = (snd e, tm_sequence (the (tq_heap q (snd e))))"

lemma for_each_erase_active:
  assumes "distinct (map snd es)"
    and "\<forall>e \<in> set es. tq_heap q (snd e) \<noteq> None \<and> key_of q e \<in> tq_activeTimers q"
  shows "for_each erase_active es q = Inr (q\<lparr>tq_activeTimers := tq_activeTimers q - key_of q ` set es\<rparr>)"
  using assms
proof (induction es arbitrary: q)
  case (Cons e es)
  let ?q = "q\<lparr>tq_activeTimers := tq_activeTimers q - {key_of q e}\<rparr>"
  have "erase_active e q = Inr ?q"
    using Cons.prems(2) by (auto simp: erase_active_def key_of_def)
  moreover have key: "key_of ?q = key_of q" by (simp add: key_of_def fun_eq_iff)
  moreover have "\<forall>f \<in> set es. tq_heap ?q (snd f) \<noteq> None \<and> key_of ?q f \<in> tq_activeTimers ?q"
  proof
    fix f assume f: "f \<in> set es"
    then have "snd f \<in> snd ` set es" by simp
    with Cons.prems(1) have "snd f \<noteq> snd e" by (simp, metis)
    then have "key_of q f \<noteq> key_of q e" by (simp add: key_of_def)
    with f Cons.prems(2) show "tq_heap ?q (snd f) \<noteq> None \<and> key_of ?q f \<in> tq_activeTimers ?q"
      by (simp add: key)
  qed
  moreover have "tq_activeTimers q - {key_of q e} - key_of q ` set es = tq_activeTimers q - key_of q ` set (e # es)" by auto
  ultimately show ?case using Cons.IH [of ?q] Cons.prems(1) by simp
qed simp

lemma queued_filter:
  assumes "timers_wf q" and "tq_heap q a = Some t"
  shows "a \<in> snd ` set (filter (\<lambda>e. P (fst e)) (tq_timers q)) \<longleftrightarrow> a \<in> queued q \<and> P (tm_expiration t)"
proof
  assume "a \<in> snd ` set (filter (\<lambda>e. P (fst e)) (tq_timers q))"
  then obtain w where w: "(w, a) \<in> set (tq_timers q)" "P w" by auto
  then have "tm_expiration t = w" using timers_wfD [OF assms(1) w(1)] assms(2) by auto
  with w show "a \<in> queued q \<and> P (tm_expiration t)" by (auto simp: queued_iff)
next
  assume "a \<in> queued q \<and> P (tm_expiration t)"
  then have "(tm_expiration t, a) \<in> set (filter (\<lambda>e. P (fst e)) (tq_timers q))"
    using queued_entry [OF assms] by simp
  then show "a \<in> snd ` set (filter (\<lambda>e. P (fst e)) (tq_timers q))" by (rule image_eqI [rotated]) simp
qed

text \<open>The queue without its expired timers.\<close>

definition without_expired :: "Timestamp \<Rightarrow> 'cb TimerQueue \<Rightarrow> 'cb TimerQueue" where
  "without_expired now q = q\<lparr>tq_timers := filter (\<lambda>e. now < fst e) (tq_timers q),
      tq_activeTimers := tq_activeTimers q - key_of q ` set (expired_at now q)\<rparr>"

lemma expired_queued:
  assumes "timers_wf q" and "tq_heap q a = Some t"
  shows "a \<in> snd ` set (expired_at now q) \<longleftrightarrow> a \<in> queued q \<and> tm_expiration t \<le> now"
    and "a \<in> queued (without_expired now q) \<longleftrightarrow> a \<in> queued q \<and> now < tm_expiration t"
  using queued_filter [OF assms, of "\<lambda>w. w \<le> now"] queued_filter [OF assms, of "\<lambda>w. now < w"]
  by (simp_all add: expired_at_def without_expired_def queued_def)

lemma expired_subset: "snd ` set (expired_at now q) \<subseteq> queued q"
  by (auto simp: expired_at_def queued_def)

lemma key_of_expired:
  assumes "timers_wf q"
  shows "(a, s) \<in> key_of q ` set (expired_at now q) \<longleftrightarrow>
    a \<in> snd ` set (expired_at now q) \<and> (\<exists>t. tq_heap q a = Some t \<and> tm_sequence t = s)"
proof -
  have key: "key_of q e = (a, s) \<longleftrightarrow> snd e = a \<and> (\<exists>t. tq_heap q a = Some t \<and> tm_sequence t = s)"
    if "e \<in> set (expired_at now q)" for e
  proof -
    have "snd e \<in> queued q" using that expired_subset by blast
    from queuedD [OF assms this] show ?thesis by (auto simp: key_of_def)
  qed
  have "(a, s) \<in> key_of q ` set (expired_at now q) \<longleftrightarrow> (\<exists>e \<in> set (expired_at now q). key_of q e = (a, s))"
    unfolding image_iff by (simp only: eq_commute)
  also have "\<dots> \<longleftrightarrow> (\<exists>e \<in> set (expired_at now q). snd e = a \<and> (\<exists>t. tq_heap q a = Some t \<and> tm_sequence t = s))"
    using key by (intro bex_cong) auto
  finally show ?thesis by auto
qed

lemma without_expired_wf:
  assumes wf: "timers_wf q"
  shows "timers_wf (without_expired now q)" (is "timers_wf ?q")
proof (rule timers_wfI)
  show "sorted_wrt (<) (tq_timers ?q)" using timers_wf_sorted [OF wf]
    by (simp add: without_expired_def strict_sorted_iff sorted_wrt_filter distinct_filter)
  show "(w, a) \<in> set (tq_timers ?q) \<Longrightarrow> a < UINTPTR_MAX \<and> (\<exists>t. tq_heap ?q a = Some t \<and> tm_expiration t = w)" for w a
    using timers_wfD [OF wf, of w a] by (simp add: without_expired_def)
  fix a s
  have "(a, s) \<in> tq_activeTimers ?q \<longleftrightarrow> (a, s) \<in> tq_activeTimers q \<and> (a, s) \<notin> key_of q ` set (expired_at now q)"
    by (simp add: without_expired_def)
  also have "\<dots> \<longleftrightarrow> (\<exists>t. tq_heap q a = Some t \<and> tm_sequence t = s \<and> a \<in> queued q \<and> \<not> tm_expiration t \<le> now)"
    unfolding timers_wf_active [OF wf] key_of_expired [OF wf] using expired_queued(1) [OF wf] by auto
  also have "\<dots> \<longleftrightarrow> (\<exists>t. tq_heap ?q a = Some t \<and> tm_sequence t = s \<and> a \<in> queued ?q)"
  proof -
    have "tq_heap ?q = tq_heap q" by (simp add: without_expired_def)
    then show ?thesis using expired_queued(2) [OF wf] by auto
  qed
  finally show "(a, s) \<in> tq_activeTimers ?q \<longleftrightarrow> (\<exists>t. tq_heap ?q a = Some t \<and> tm_sequence t = s \<and> a \<in> queued ?q)" .
qed

lemma without_expired_disjoint:
  assumes "timers_wf q"
  shows "snd ` set (expired_at now q) \<inter> queued (without_expired now q) = {}"
proof -
  have "a \<notin> queued (without_expired now q)" if a: "a \<in> snd ` set (expired_at now q)" for a
  proof -
    from a expired_subset obtain t where t: "tq_heap q a = Some t" using queuedD [OF assms] by blast
    with expired_queued [OF assms t, of now] a show ?thesis by auto
  qed
  then show ?thesis by blast
qed

lemma getExpired_ok:
  assumes wf: "timers_wf q"
  shows "getExpired now q = Inr (expired_at now q, without_expired now q) \<and> distinct (map snd (expired_at now q))"
proof
  let ?rest = "filter (\<lambda>e. now < fst e) (tq_timers q)"
  show dist: "distinct (map snd (expired_at now q))"
    using timers_wf_sorted [OF wf] inj_on_snd_timers [OF wf]
    by (auto simp: expired_at_def distinct_map intro: inj_on_subset)
  have rest: "?rest = [] \<or> now < fst (hd ?rest)" using hd_in_set [of ?rest] by auto
  have "\<forall>e \<in> set (expired_at now q). tq_heap q (snd e) \<noteq> None \<and> key_of q e \<in> tq_activeTimers q"
  proof
    fix e assume e: "e \<in> set (expired_at now q)"
    then have "snd e \<in> queued q" using expired_subset by blast
    with queuedD [OF wf this] show "tq_heap q (snd e) \<noteq> None \<and> key_of q e \<in> tq_activeTimers q"
      using timers_wf_active [OF wf] by (auto simp: key_of_def)
  qed
  with for_each_erase_active [OF dist, of "q\<lparr>tq_timers := ?rest\<rparr>"]
  have "for_each erase_active (expired_at now q) (q\<lparr>tq_timers := ?rest\<rparr>) = Inr (without_expired now q)"
    by (simp add: key_of_def without_expired_def)
  then show "getExpired now q = Inr (expired_at now q, without_expired now q)"
    using rest same_size_wf [OF wf] same_size_wf [OF without_expired_wf [OF wf]]
    unfolding getExpired_def Let_def timers_split [OF wf] by simp
qed

section \<open>The alarm\<close>

lemma resetTimerfd_alarm: "resetTimerfd now when q = q\<lparr>tq_alarm := Some (max (now + 100) when)\<rparr>"
proof -
  let ?us = "if when - now < 100 then 100 else when - now"
  have "?us sdiv 1000000 = ?us div 1000000" "?us smod 1000000 = ?us mod 1000000"
    by (rule sdiv_nonneg smod_nonneg; simp)+
  moreover have "?us div 1000000 * 1000000 + ?us mod 1000000 = ?us" by (rule div_mult_mod_eq)
  ultimately show ?thesis
    by (simp add: resetTimerfd_def howMuchTimeFromNow_def kMicroSecondsPerSecond_def Let_def max_def add.assoc
        split: if_splits)
qed

text \<open>
  If the earliest expiration satisfies \<open>P\<close>, the alarm is pending and due no later than that
  expiration, or 100 microseconds after the latest clock reading \<open>C\<close>.
\<close>

definition alarm_for :: "Timestamp \<Rightarrow> (Timestamp \<Rightarrow> bool) \<Rightarrow> 'cb TimerQueue \<Rightarrow> bool" where
  "alarm_for C P q \<longleftrightarrow> (tq_timers q \<noteq> [] \<and> P (fst (hd (tq_timers q))) \<longrightarrow>
     (\<exists>t. tq_alarm q = Some t \<and> t \<le> max (fst (hd (tq_timers q))) (C + 100)))"

definition alarm_ok :: "Timestamp \<Rightarrow> 'cb TimerQueue \<Rightarrow> bool" where
  "alarm_ok C q \<longleftrightarrow> alarm_for C (\<lambda>_. True) q"

definition down_closed :: "(Timestamp \<Rightarrow> bool) \<Rightarrow> bool" where
  "down_closed P \<longleftrightarrow> (\<forall>x y. P x \<longrightarrow> y \<le> x \<longrightarrow> P y)"

lemma down_closed_simps [simp]: "down_closed (\<lambda>_. True)" "down_closed (\<lambda>x. x \<le> c)"
  by (auto simp: down_closed_def)

lemma fst_hd_insort:
  "fst (hd (insort (w :: Timestamp, a :: addr) xs)) = (if xs = [] \<or> w < fst (hd xs) then w else fst (hd xs))"
  by (cases xs) auto

lemma insort_not_Nil' [simp]: "insort x xs \<noteq> []"
  by (cases xs) auto

lemma alarm_for_insort:
  assumes "alarm_for C P q" and "tq_timers q' = insort (w, a) (tq_timers q)" and "clock \<le> C"
    and "tq_alarm q' = (if tq_timers q = [] \<or> w < fst (hd (tq_timers q)) then Some (max (clock + 100) w) else tq_alarm q)"
  shows "alarm_for C P q'"
  using assms by (auto simp: alarm_for_def fst_hd_insort)

lemma alarm_for_insort_unset:
  assumes "alarm_for C P q" and "tq_timers q' = insort (w, a) (tq_timers q)" and "\<not> P w" and "tq_alarm q' = tq_alarm q"
  shows "alarm_for C P q'"
  using assms by (auto simp: alarm_for_def fst_hd_insort)

lemma alarm_for_shrink:
  assumes "alarm_for C P q" and "down_closed P" and "sorted (tq_timers q)"
    and "set (tq_timers q') \<subseteq> set (tq_timers q)" and "tq_alarm q' = tq_alarm q"
  shows "alarm_for C P q'"
proof (cases "tq_timers q' = []")
  case False
  then have "hd (tq_timers q') \<in> set (tq_timers q)" using assms(4) by auto
  then have "hd (tq_timers q) \<le> hd (tq_timers q')" and ne: "tq_timers q \<noteq> []"
    using assms(3) by (cases "tq_timers q"; auto)+
  then have le: "fst (hd (tq_timers q)) \<le> fst (hd (tq_timers q'))" by (auto simp: less_eq_prod_def)
  show ?thesis
    unfolding alarm_for_def
  proof (intro impI)
    assume "tq_timers q' \<noteq> [] \<and> P (fst (hd (tq_timers q')))"
    then have "P (fst (hd (tq_timers q)))" using assms(2) le unfolding down_closed_def by blast
    with assms(1) ne obtain t where "tq_alarm q = Some t" "t \<le> max (fst (hd (tq_timers q))) (C + 100)"
      by (auto simp: alarm_for_def)
    with le assms(5) show "\<exists>t. tq_alarm q' = Some t \<and> t \<le> max (fst (hd (tq_timers q'))) (C + 100)" by auto
  qed
qed (simp add: alarm_for_def)

section \<open>Operations and the invariant\<close>

lemma tq_invD:
  assumes "tq_inv E q"
  shows "timers_wf q" "heap_wf q" "\<And>a. a \<in> E \<Longrightarrow> \<exists>t. tq_heap q a = Some t" "\<And>a. a \<in> E \<Longrightarrow> a \<notin> queued q"
  using assms by (auto simp: tq_inv_def)

lemma heap_wfD:
  "heap_wf q \<Longrightarrow> tq_heap q a = Some t \<Longrightarrow> a < UINTPTR_MAX \<and> tm_sequence t \<le> s_numCreated q
     \<and> tm_repeat t = sec_positive (tm_interval t) \<and> seconds_ok (tm_interval t)"
  "heap_wf q \<Longrightarrow> tq_heap q a = Some t \<Longrightarrow> tq_heap q b = Some u \<Longrightarrow> tm_sequence t = tm_sequence u \<Longrightarrow> a = b"
  by (auto simp: heap_wf_def)

lemma heap_wf_cong: "heap_wf q \<Longrightarrow> tq_heap q' = tq_heap q \<Longrightarrow> s_numCreated q' = s_numCreated q \<Longrightarrow> heap_wf q'"
  by (auto simp: heap_wf_def)

lemma heap_wf_delete:
  "heap_wf q \<Longrightarrow> tq_heap q' = (tq_heap q)(a := None) \<Longrightarrow> s_numCreated q' = s_numCreated q \<Longrightarrow> heap_wf q'"
  unfolding heap_wf_def by (simp add: fun_upd_def)

lemma heap_wf_restart:
  assumes "heap_wf q" "tq_heap q a = Some t" "tq_heap q' = (tq_heap q)(a \<mapsto> Timer_restart now t)"
    "s_numCreated q' = s_numCreated q"
  shows "heap_wf q'"
proof -
  have r: "tm_sequence (Timer_restart now t) = tm_sequence t" "tm_repeat (Timer_restart now t) = tm_repeat t"
    "tm_interval (Timer_restart now t) = tm_interval t" by (simp_all add: Timer_restart_def)
  show ?thesis
    unfolding heap_wf_def assms(3,4)
    using heap_wfD(1) [OF assms(1)] heap_wfD(2) [OF assms(1)] assms(2) by (auto simp: r split: if_splits)
qed

lemma heap_wf_new:
  assumes wf: "heap_wf q" and a: "tq_heap q a = None" "a < UINTPTR_MAX" and s: "seconds_ok s"
    and h: "tq_heap q' = (tq_heap q)(a \<mapsto> \<lparr>tm_callback = cb, tm_expiration = w, tm_interval = s,
      tm_repeat = sec_positive s, tm_sequence = s_numCreated q + 1\<rparr>)" and n: "s_numCreated q' = s_numCreated q + 1"
  shows "heap_wf q'"
  unfolding heap_wf_def
proof (intro conjI allI impI)
  have le: "tm_sequence u \<le> s_numCreated q" if "tq_heap q b = Some u" for b u using heap_wfD(1) [OF wf that] by simp
  fix b c u v assume b: "tq_heap q' b = Some u"
  show "b < UINTPTR_MAX" "tm_repeat u = sec_positive (tm_interval u)" "seconds_ok (tm_interval u)"
    using b heap_wfD(1) [OF wf, of b u] a s by (auto simp: h n split: if_splits)
  show "tm_sequence u \<le> s_numCreated q'" using b le [of b u] by (auto simp: h n split: if_splits)
  assume "tq_heap q' c = Some v" "tm_sequence u = tm_sequence v"
  note cv = this
  show "b = c"
  proof (rule ccontr)
    assume ne: "b \<noteq> c"
    consider "b = a" "tq_heap q c = Some v" | "c = a" "tq_heap q b = Some u"
      | "tq_heap q b = Some u" "tq_heap q c = Some v"
      using b cv(1) ne by (cases "b = a"; cases "c = a") (simp_all add: h)
    then show False
    proof cases
      case 1
      with b have "tm_sequence u = s_numCreated q + 1" by (auto simp: h)
      with le [OF 1(2)] cv(2) show False by simp
    next
      case 2
      with cv(1) have "tm_sequence v = s_numCreated q + 1" by (auto simp: h)
      with le [OF 2(2)] cv(2) show False by simp
    next
      case 3
      from heap_wfD(2) [OF wf 3 cv(2)] ne show False by simp
    qed
  qed
qed

lemma timers_wf_new:
  assumes "timers_wf q" and "tq_heap q a = None" and "tq_timers q' = tq_timers q"
    and "tq_activeTimers q' = tq_activeTimers q" and "tq_heap q' = (tq_heap q)(a \<mapsto> t)"
  shows "timers_wf q'"
proof (rule timers_wfI)
  have qd: "queued q' = queued q" using assms(3) by (simp add: queued_def)
  have na: "a \<notin> queued q" using queuedD [OF assms(1)] assms(2) by fastforce
  show "sorted_wrt (<) (tq_timers q')" using assms(1,3) by (simp add: timers_wf_def)
  show "(w, b) \<in> set (tq_timers q') \<Longrightarrow> b < UINTPTR_MAX \<and> (\<exists>t. tq_heap q' b = Some t \<and> tm_expiration t = w)" for w b
    using timers_wfD [OF assms(1), of w b] assms(2,3,5) by auto
  show "(b, s) \<in> tq_activeTimers q' \<longleftrightarrow> (\<exists>t. tq_heap q' b = Some t \<and> tm_sequence t = s \<and> b \<in> queued q')" for b s
    using timers_wf_active [OF assms(1), of b s] na assms(4,5) by (auto simp: qd)
qed

text \<open>What the loop's own operations may change while the timers in \<open>E\<close> are being run.\<close>

definition keeps :: "addr set \<Rightarrow> 'cb TimerQueue \<Rightarrow> 'cb TimerQueue \<Rightarrow> bool" where
  "keeps E q q' \<longleftrightarrow> (\<forall>a \<in> E. tq_heap q' a = tq_heap q a)
     \<and> tq_callingExpiredTimers q' = tq_callingExpiredTimers q"

lemma Timer_new_ok:
  assumes inv: "tq_inv E q" and a: "tq_heap q a = None" "a < UINTPTR_MAX" and s: "seconds_ok s"
  shows "tq_inv E (Timer_new a cb w s q) \<and> keeps E q (Timer_new a cb w s q)
    \<and> (alarm_for C P q \<longrightarrow> alarm_for C P (Timer_new a cb w s q))"
proof -
  let ?t = "\<lparr>tm_callback = cb, tm_expiration = w, tm_interval = s, tm_repeat = sec_positive s,
    tm_sequence = s_numCreated q + 1\<rparr>"
  let ?q = "q\<lparr>s_numCreated := s_numCreated q + 1, tq_heap := (tq_heap q)(a \<mapsto> ?t)\<rparr>"
  have eq: "Timer_new a cb w s q = ?q" by (simp add: Timer_new_def Let_def)
  note i = tq_invD [OF inv]
  have "timers_wf ?q" by (rule timers_wf_new [OF i(1) a(1)]) simp_all
  moreover have "heap_wf ?q" by (rule heap_wf_new [OF i(2) a s]) simp_all
  moreover have "a \<notin> E" using i(3) a(1) by fastforce
  moreover have "queued ?q = queued q" by (simp add: queued_def)
  ultimately show ?thesis using inv unfolding eq by (auto simp: tq_inv_def keeps_def alarm_for_def)
qed

lemma addTimerInLoop_ok:
  assumes inv: "tq_inv E q" and a: "tq_heap q a = Some t" "a \<notin> queued q" "a \<notin> E" and "clock \<le> C"
  shows "\<exists>q'. addTimerInLoop True clock a q = Inr q' \<and> tq_inv E q' \<and> keeps E q q'
    \<and> queued q' = insert a (queued q) \<and> tq_heap q' = tq_heap q
    \<and> (alarm_for C P q \<longrightarrow> alarm_for C P q')"
proof -
  note i = tq_invD [OF inv]
  let ?q = "q\<lparr>tq_timers := insort (tm_expiration t, a) (tq_timers q),
      tq_activeTimers := insert (a, tm_sequence t) (tq_activeTimers q)\<rparr>"
  let ?e = "tq_timers q = [] \<or> tm_expiration t < fst (hd (tq_timers q))"
  let ?q' = "if ?e then ?q\<lparr>tq_alarm := Some (max (clock + 100) (tm_expiration t))\<rparr> else ?q"
  have ins: "TimerQueue_insert True a q = Inr (?e, ?q)" "timers_wf ?q" "queued ?q = insert a (queued q)"
    using insert_ok [OF i(1) a(1,2) _ refl] heap_wfD(1) [OF i(2) a(1)] by auto
  have "addTimerInLoop True clock a q = Inr ?q'"
    using a(1) by (simp add: addTimerInLoop_def ins(1) resetTimerfd_alarm)
  moreover have "timers_wf ?q'" using ins(2) by (auto simp: timers_wf_def queued_def)
  moreover have "heap_wf ?q'" by (rule heap_wf_cong [OF i(2)]) simp_all
  moreover have "queued ?q' = insert a (queued q)" using ins(3) by (simp add: queued_def)
  moreover have "alarm_for C P q \<longrightarrow> alarm_for C P ?q'"
    using alarm_for_insort [of C P q ?q' "tm_expiration t" a clock] assms(5) by auto
  ultimately show ?thesis using inv a(3) by (intro exI [of _ ?q']) (auto simp: tq_inv_def keeps_def)
qed

lemma cancelInLoop_ok:
  assumes inv: "tq_inv E q" and P: "down_closed P"
  shows "\<exists>q'. cancelInLoop True timerId q = Inr q' \<and> tq_inv E q' \<and> keeps E q q'
    \<and> (alarm_for C P q \<longrightarrow> alarm_for C P q')"
proof (cases "timerId \<in> tq_activeTimers q")
  case True
  note i = tq_invD [OF inv]
  obtain a s where id: "timerId = (a, s)" by (cases timerId)
  from True timers_wf_active [OF i(1), of a s] obtain t
    where t: "tq_heap q a = Some t" "tm_sequence t = s" "a \<in> queued q" by (auto simp: id)
  let ?q = "q\<lparr>tq_timers := remove1 (tm_expiration t, a) (tq_timers q), tq_heap := (tq_heap q)(a := None),
      tq_activeTimers := tq_activeTimers q - {(a, tm_sequence t)}\<rparr>"
  have c: "cancelInLoop True timerId q = Inr ?q" "timers_wf ?q" "queued ?q = queued q - {a}"
    using cancel_active_ok [OF i(1) t(1,3) refl] t(2) by (simp_all add: id)
  have "heap_wf ?q" by (rule heap_wf_delete [OF i(2)]) simp_all
  moreover have "alarm_for C P q \<longrightarrow> alarm_for C P ?q"
    using alarm_for_shrink [of C P q ?q] P timers_wf_sorted [OF i(1)] set_remove1_subset [of _ "tq_timers q"] by auto
  moreover have "a \<notin> E" using i(4) t(3) by blast
  ultimately show ?thesis using inv c by (intro exI [of _ ?q]) (auto simp: tq_inv_def keeps_def)
next
  case False
  note i = tq_invD [OF inv]
  let ?q = "if tq_callingExpiredTimers q then q\<lparr>tq_cancelingTimers := insert timerId (tq_cancelingTimers q)\<rparr> else q"
  have "cancelInLoop True timerId q = Inr ?q" by (rule cancel_inactive_ok [OF i(1) False])
  moreover have "tq_inv E ?q" using inv by (auto simp: tq_inv_def timers_wf_def heap_wf_def queued_def)
  moreover have "alarm_for C P q \<longrightarrow> alarm_for C P ?q" by (auto simp: alarm_for_def)
  ultimately show ?thesis by (intro exI [of _ ?q]) (auto simp: keeps_def)
qed

section \<open>Callbacks and the alarm handler\<close>

text \<open>
  What code that runs in the loop, a callback in particular, can do to the queue: create a timer,
  hand a created timer to the queue, and cancel a timer, in any order and any number. \<open>C\<close> bounds
  the clock readings.
\<close>

inductive client_step :: "Timestamp \<Rightarrow> addr set \<Rightarrow> 'cb TimerQueue \<Rightarrow> 'cb TimerQueue \<Rightarrow> bool" for C E where
  step_create: "tq_heap q a = None \<Longrightarrow> a < UINTPTR_MAX \<Longrightarrow> seconds_ok s \<Longrightarrow>
    client_step C E q (Timer_new a cb w s q)"
| step_add: "tq_heap q a = Some t \<Longrightarrow> a \<notin> queued q \<Longrightarrow> a \<notin> E \<Longrightarrow> clock \<le> C \<Longrightarrow>
    addTimerInLoop True clock a q = Inr q' \<Longrightarrow> client_step C E q q'"
| step_cancel: "cancelInLoop True timerId q = Inr q' \<Longrightarrow> client_step C E q q'"

inductive_cases client_stepE: "client_step C E q q'"

lemma client_step_ok:
  assumes "client_step C E q q'" and "tq_inv E q" and "down_closed P"
  shows "tq_inv E q' \<and> keeps E q q' \<and> (alarm_for C P q \<longrightarrow> alarm_for C P q')"
  using assms(1)
proof cases
  case (step_create a s cb w)
  then show ?thesis using Timer_new_ok [OF assms(2)] by blast
next
  case (step_add a t clock)
  with addTimerInLoop_ok [OF assms(2) step_add(1-4), of P] show ?thesis by auto
next
  case (step_cancel timerId)
  with cancelInLoop_ok [OF assms(2,3), of timerId C] show ?thesis by auto
qed

lemma keeps_trans: "keeps E q r \<Longrightarrow> keeps E r s \<Longrightarrow> keeps E q s"
  by (simp add: keeps_def)

lemma client_steps_ok:
  assumes "(client_step C E)\<^sup>*\<^sup>* q q'" and "tq_inv E q" and "down_closed P"
  shows "tq_inv E q' \<and> keeps E q q' \<and> (alarm_for C P q \<longrightarrow> alarm_for C P q')"
  using assms(1)
proof (induction rule: rtranclp_induct)
  case base
  then show ?case using assms(2) by (simp add: keeps_def)
next
  case (step r s)
  with client_step_ok [OF step(2) _ assms(3)] keeps_trans show ?case by blast
qed

definition callbacks_ok :: "Timestamp \<Rightarrow> ('cb \<Rightarrow> 'cb TimerQueue \<Rightarrow> 'cb TimerQueue outcome) \<Rightarrow> bool" where
  "callbacks_ok C run \<longleftrightarrow> (\<forall>E cb q. tq_inv E q \<longrightarrow> (\<exists>q'. run cb q = Inr q' \<and> (client_step C E)\<^sup>*\<^sup>* q q'))"

lemma run_timers_ok:
  assumes run: "callbacks_ok C run" and "snd ` set es \<subseteq> E" and "tq_inv E q" and P: "down_closed P"
  shows "\<exists>q'. for_each (run_timer run) es q = Inr q' \<and> tq_inv E q' \<and> keeps E q q'
    \<and> (alarm_for C P q \<longrightarrow> alarm_for C P q')"
  using assms(2,3)
proof (induction es arbitrary: q)
  case Nil
  then show ?case by (simp add: keeps_def)
next
  case (Cons e es)
  from Cons.prems tq_invD(3) [OF Cons.prems(2), of "snd e"] obtain t where t: "tq_heap q (snd e) = Some t" by auto
  from run Cons.prems(2) obtain r where r: "run (tm_callback t) q = Inr r" "(client_step C E)\<^sup>*\<^sup>* q r"
    unfolding callbacks_ok_def by blast
  note rk = client_steps_ok [OF r(2) Cons.prems(2) P]
  from Cons.IH [of r] Cons.prems(1) rk obtain q' where "for_each (run_timer run) es r = Inr q'"
    "tq_inv E q'" "keeps E r q'" "alarm_for C P r \<longrightarrow> alarm_for C P q'" by auto
  moreover have "run_timer run e q = Inr r" using t r(1) by (simp add: run_timer_def)
  ultimately show ?case using rk by (auto intro: keeps_trans)
qed

definition after_reset :: "Timestamp \<Rightarrow> 'cb TimerQueue \<Rightarrow> addr \<Rightarrow> 'cb Timer \<Rightarrow> 'cb TimerQueue \<Rightarrow> bool" where
  "after_reset now q a t q' \<longleftrightarrow>
     (if tm_repeat t \<and> (a, tm_sequence t) \<notin> tq_cancelingTimers q
      then tq_heap q' a = Some (Timer_restart now t) \<and> a \<in> queued q'
      else tq_heap q' a = None \<and> a \<notin> queued q')"

definition reset_keeps :: "addr set \<Rightarrow> 'cb TimerQueue \<Rightarrow> 'cb TimerQueue \<Rightarrow> bool" where
  "reset_keeps A q q' \<longleftrightarrow> tq_cancelingTimers q' = tq_cancelingTimers q
     \<and> tq_callingExpiredTimers q' = tq_callingExpiredTimers q
     \<and> (\<forall>a. a \<notin> A \<longrightarrow> tq_heap q' a = tq_heap q a \<and> (a \<in> queued q' \<longleftrightarrow> a \<in> queued q))"

lemma reset_one_restart:
  assumes inv: "tq_inv (insert a E) q" and a: "a \<notin> E" "tq_heap q a = Some t"
    and again: "tm_repeat t" "(a, tm_sequence t) \<notin> tq_cancelingTimers q" and now: "0 < now"
  shows "\<exists>q'. reset_one now (w, a) q = Inr q' \<and> tq_inv E q' \<and> reset_keeps {a} q q' \<and> after_reset now q a t q'
    \<and> (alarm_for C (\<lambda>x. x \<le> 0) q \<longrightarrow> alarm_for C (\<lambda>x. x \<le> 0) q')"
proof -
  note i = tq_invD [OF inv]
  let ?t = "Timer_restart now t"
  let ?r = "q\<lparr>tq_heap := (tq_heap q)(a \<mapsto> ?t)\<rparr>"
  let ?q = "?r\<lparr>tq_timers := insort (tm_expiration ?t, a) (tq_timers q),
      tq_activeTimers := insert (a, tm_sequence ?t) (tq_activeTimers q)\<rparr>"
  have na: "a \<notin> queued q" using i(4) by simp
  have "timers_wf ?r"
  proof (rule timers_wfI)
    show "sorted_wrt (<) (tq_timers ?r)" using i(1) by (simp add: timers_wf_def)
    show "b < UINTPTR_MAX \<and> (\<exists>u. tq_heap ?r b = Some u \<and> tm_expiration u = x)" if "(x, b) \<in> set (tq_timers ?r)" for x b
    proof -
      from that have "b \<noteq> a" using na by (auto simp: queued_iff)
      with that timers_wfD [OF i(1), of x b] show ?thesis by simp
    qed
    show "(b, s) \<in> tq_activeTimers ?r \<longleftrightarrow> (\<exists>u. tq_heap ?r b = Some u \<and> tm_sequence u = s \<and> b \<in> queued ?r)" for b s
      using timers_wf_active [OF i(1), of b s] na by (auto simp: queued_def)
  qed
  moreover have "queued ?r = queued q" by (simp add: queued_def)
  moreover have "a < UINTPTR_MAX" using heap_wfD(1) [OF i(2) a(2)] by simp
  ultimately have ins: "TimerQueue_insert True a ?r = Inr (tq_timers q = [] \<or> tm_expiration ?t < fst (hd (tq_timers q)), ?q)"
    "timers_wf ?q" "queued ?q = insert a (queued q)"
    using insert_ok [of ?r a ?t, OF _ _ _ _ refl] na by auto
  have "heap_wf ?q" by (rule heap_wf_restart [OF i(2) a(2), of _ now]) simp_all
  moreover have "now \<le> tm_expiration ?t"
    using again heap_wfD(1) [OF i(2) a(2)] by (simp add: Timer_restart_def addTime_ge)
  then have "alarm_for C (\<lambda>x. x \<le> 0) q \<longrightarrow> alarm_for C (\<lambda>x. x \<le> 0) ?q"
    using alarm_for_insort_unset [of C "\<lambda>x. x \<le> 0" q ?q "tm_expiration ?t" a] now by auto
  moreover have "reset_one now (w, a) q = Inr ?q" using a(2) again ins(1) by (simp add: reset_one_def)
  ultimately show ?thesis using ins a again inv
    by (intro exI [of _ ?q]) (auto simp: tq_inv_def reset_keeps_def after_reset_def)
qed

lemma reset_one_delete:
  assumes inv: "tq_inv (insert a E) q" and a: "a \<notin> E" "tq_heap q a = Some t"
    and gone: "\<not> (tm_repeat t \<and> (a, tm_sequence t) \<notin> tq_cancelingTimers q)"
  shows "\<exists>q'. reset_one now (w, a) q = Inr q' \<and> tq_inv E q' \<and> reset_keeps {a} q q' \<and> after_reset now q a t q'
    \<and> (alarm_for C (\<lambda>x. x \<le> 0) q \<longrightarrow> alarm_for C (\<lambda>x. x \<le> 0) q')"
proof -
  note i = tq_invD [OF inv]
  let ?q = "q\<lparr>tq_heap := (tq_heap q)(a := None)\<rparr>"
  have na: "a \<notin> queued q" using i(4) by simp
  have "timers_wf ?q"
  proof (rule timers_wfI)
    show "sorted_wrt (<) (tq_timers ?q)" using i(1) by (simp add: timers_wf_def)
    show "b < UINTPTR_MAX \<and> (\<exists>u. tq_heap ?q b = Some u \<and> tm_expiration u = x)" if "(x, b) \<in> set (tq_timers ?q)" for x b
    proof -
      from that have "b \<noteq> a" using na by (auto simp: queued_iff)
      with that timers_wfD [OF i(1), of x b] show ?thesis by simp
    qed
    show "(b, s) \<in> tq_activeTimers ?q \<longleftrightarrow> (\<exists>u. tq_heap ?q b = Some u \<and> tm_sequence u = s \<and> b \<in> queued ?q)" for b s
      using timers_wf_active [OF i(1), of b s] na by (auto simp: queued_def)
  qed
  moreover have "heap_wf ?q" by (rule heap_wf_delete [OF i(2)]) simp_all
  moreover have qd: "queued ?q = queued q" by (simp add: queued_def)
  moreover have "reset_one now (w, a) q = Inr ?q"
    unfolding reset_one_def using a(2) gone by (auto simp: Timer_delete_def)
  ultimately show ?thesis using a gone inv na
    by (intro exI [of _ ?q]) (auto simp: tq_inv_def reset_keeps_def after_reset_def alarm_for_def)
qed

lemma reset_loop_ok:
  assumes "distinct (map snd es)" and "tq_inv (snd ` set es) q" and now: "0 < now"
  shows "\<exists>q'. for_each (reset_one now) es q = Inr q' \<and> tq_inv {} q' \<and> reset_keeps (snd ` set es) q q'
    \<and> (\<forall>a t. a \<in> snd ` set es \<longrightarrow> tq_heap q a = Some t \<longrightarrow> after_reset now q a t q')
    \<and> (alarm_for C (\<lambda>x. x \<le> 0) q \<longrightarrow> alarm_for C (\<lambda>x. x \<le> 0) q')"
  using assms(1,2)
proof (induction es arbitrary: q)
  case Nil
  then show ?case by (simp add: reset_keeps_def)
next
  case (Cons e es)
  obtain w a where e: "e = (w, a)" by (cases e)
  let ?E = "snd ` set es"
  have inv: "tq_inv (insert a ?E) q" and a: "a \<notin> ?E" "distinct (map snd es)" using Cons.prems by (simp_all add: e)
  then obtain t where t: "tq_heap q a = Some t" using tq_invD(3) [OF inv] by blast
  obtain r where r: "reset_one now (w, a) q = Inr r" "tq_inv ?E r" "reset_keeps {a} q r" "after_reset now q a t r"
    "alarm_for C (\<lambda>x. x \<le> 0) q \<longrightarrow> alarm_for C (\<lambda>x. x \<le> 0) r"
    using reset_one_restart [OF inv a(1) t _ _ now, of w C] reset_one_delete [OF inv a(1) t, of now w C] by blast
  from Cons.IH [OF a(2) r(2)] obtain q' where q': "for_each (reset_one now) es r = Inr q'" "tq_inv {} q'"
    "reset_keeps ?E r q'" "\<forall>b u. b \<in> ?E \<longrightarrow> tq_heap r b = Some u \<longrightarrow> after_reset now r b u q'"
    "alarm_for C (\<lambda>x. x \<le> 0) r \<longrightarrow> alarm_for C (\<lambda>x. x \<le> 0) q'" by blast
  have "after_reset now q b u q'" if "b \<in> insert a ?E" "tq_heap q b = Some u" for b u
  proof (cases "b = a")
    case True
    then show ?thesis using r(4) t that(2) q'(3) a(1) by (auto simp: after_reset_def reset_keeps_def)
  next
    case False
    then have "tq_heap r b = Some u" "b \<in> ?E" using that r(3) by (auto simp: reset_keeps_def)
    with q'(4) r(3) show ?thesis by (auto simp: after_reset_def reset_keeps_def)
  qed
  with r q' show ?case by (auto simp: e reset_keeps_def)
qed

text \<open>The whole handler, with what becomes of every timer that had expired.\<close>

lemma handleRead_ok:
  assumes inv: "tq_inv {} q" and run: "callbacks_ok C run" and now: "0 < now" and clock: "clock \<le> C"
  shows "\<exists>q'. TimerQueue_handleRead run True now clock q = Inr q' \<and> tq_inv {} q' \<and> alarm_ok C q'
    \<and> (\<forall>a t. tq_heap q a = Some t \<longrightarrow> a \<in> queued q \<longrightarrow> tm_expiration t \<le> now \<longrightarrow> after_reset now q' a t q')"
proof -
  note i = tq_invD [OF inv]
  let ?es = "expired_at now q"
  let ?E = "snd ` set ?es"
  let ?r = "readTimerfd q"
  let ?r' = "without_expired now ?r"
  have r: "timers_wf ?r" "heap_wf ?r" "expired_at now ?r = ?es" "queued ?r = queued q" "tq_heap ?r = tq_heap q"
    using i(1,2) by (auto simp: readTimerfd_def timers_wf_def heap_wf_def expired_at_def queued_def)
  have g: "getExpired now ?r = Inr (?es, ?r')" "timers_wf ?r'" "distinct (map snd ?es)" "?E \<inter> queued ?r' = {}" "?E \<subseteq> queued q"
    using getExpired_ok [OF r(1), of now] without_expired_wf [OF r(1)] without_expired_disjoint [OF r(1), of now]
      expired_subset [of now ?r] by (simp_all add: r)
  let ?s = "?r'\<lparr>tq_callingExpiredTimers := True, tq_cancelingTimers := {}\<rparr>"
  have E: "\<exists>t. tq_heap q a = Some t" if "a \<in> ?E" for a using that g(5) queuedD [OF i(1)] by blast
  have s: "tq_inv ?E ?s"
    unfolding tq_inv_def
  proof (intro conjI)
    show "timers_wf ?s" using g(2) by (auto simp: timers_wf_def queued_def)
    show "heap_wf ?s" by (rule heap_wf_cong [OF r(2)]) (simp_all add: without_expired_def)
    show "?E \<subseteq> dom (tq_heap ?s)" using E by (auto simp: r(5) without_expired_def)
    show "?E \<inter> queued ?s = {}" using g(4) by (simp add: queued_def)
  qed
  have "alarm_for C (\<lambda>x. x \<le> 0) ?s"
    using now hd_in_set [of "filter (\<lambda>e. now < fst e) (tq_timers ?r)"] by (auto simp: alarm_for_def without_expired_def)
  with run_timers_ok [OF run subset_refl s, of "\<lambda>x. x \<le> 0"] obtain u where
    u: "for_each (run_timer run) ?es ?s = Inr u" "tq_inv ?E u" "keeps ?E ?s u" "alarm_for C (\<lambda>x. x \<le> 0) u" by auto
  let ?u = "u\<lparr>tq_callingExpiredTimers := False\<rparr>"
  have u': "tq_inv ?E ?u" "alarm_for C (\<lambda>x. x \<le> 0) ?u"
    using u(2,4) by (auto simp: tq_inv_def timers_wf_def heap_wf_def queued_def alarm_for_def)
  from reset_loop_ok [OF g(3) u'(1) now, of C] u'(2) obtain v where v: "for_each (reset_one now) ?es ?u = Inr v"
    "tq_inv {} v" "reset_keeps ?E ?u v" "\<forall>a t. a \<in> ?E \<longrightarrow> tq_heap ?u a = Some t \<longrightarrow> after_reset now ?u a t v"
    "alarm_for C (\<lambda>x. x \<le> 0) v" by auto
  let ?v = "if tq_timers v \<noteq> [] \<and> 0 < fst (hd (tq_timers v))
    then v\<lparr>tq_alarm := Some (max (clock + 100) (fst (hd (tq_timers v))))\<rparr> else v"
  have "TimerQueue_reset clock ?es now ?u = Inr ?v"
  proof (cases "tq_timers v")
    case Nil
    then show ?thesis by (simp add: TimerQueue_reset_def v(1) Timestamp_valid_def Timestamp_invalid_def)
  next
    case (Cons e es)
    obtain w a where e: "e = (w, a)" by (cases e)
    with Cons timers_wfD [OF tq_invD(1) [OF v(2)], of w a] obtain t where "tq_heap v a = Some t" "tm_expiration t = w" by auto
    with Cons e show ?thesis
      by (simp add: TimerQueue_reset_def v(1) Timestamp_valid_def resetTimerfd_alarm)
  qed
  then have fin: "TimerQueue_handleRead run True now clock q = Inr ?v"
    by (simp add: TimerQueue_handleRead_def g(1) u(1))
  have inv': "tq_inv {} ?v" using v(2) by (auto simp: tq_inv_def timers_wf_def heap_wf_def queued_def)
  have al: "alarm_ok C ?v"
    using v(5) clock by (auto simp: alarm_ok_def alarm_for_def)
  have out: "after_reset now ?v a t ?v" if "tq_heap q a = Some t" "a \<in> queued q" "tm_expiration t \<le> now" for a t
  proof -
    have a: "a \<in> ?E" using expired_queued(1) [OF i(1) that(1), of now] that by blast
    then have "tq_heap ?u a = Some t" using u(3) that(1) by (auto simp: keeps_def r(5) without_expired_def)
    with v(4) a have "after_reset now ?u a t v" by blast
    moreover have "tq_heap ?v = tq_heap v" "queued ?v = queued v" "tq_cancelingTimers ?v = tq_cancelingTimers ?u"
      using v(3) by (simp_all add: queued_def reset_keeps_def)
    ultimately show ?thesis by (simp only: after_reset_def)
  qed
  from fin inv' al out show ?thesis by blast
qed

section \<open>Runs of the loop\<close>

text \<open>
  The operations a loop performs on its queue between two polls: a timer is created (possibly by
  another thread), a created timer is queued, a timer is cancelled, or the alarm fires.
\<close>

datatype 'cb tq_op =
    Op_create addr 'cb Timestamp seconds
  | Op_add addr Timestamp
  | Op_cancel TimerId
  | Op_alarm Timestamp Timestamp

fun tq_exec :: "('cb \<Rightarrow> 'cb TimerQueue \<Rightarrow> 'cb TimerQueue outcome) \<Rightarrow> 'cb tq_op \<Rightarrow> 'cb TimerQueue \<Rightarrow> 'cb TimerQueue outcome" where
  "tq_exec run (Op_create a cb w s) q = Inr (Timer_new a cb w s q)"
| "tq_exec run (Op_add a clock) q = addTimerInLoop True clock a q"
| "tq_exec run (Op_cancel timerId) q = cancelInLoop True timerId q"
| "tq_exec run (Op_alarm now clock) q = TimerQueue_handleRead run True now clock q"

fun tq_allowed :: "Timestamp \<Rightarrow> 'cb tq_op \<Rightarrow> 'cb TimerQueue \<Rightarrow> bool" where
  "tq_allowed C (Op_create a cb w s) q \<longleftrightarrow> tq_heap q a = None \<and> a < UINTPTR_MAX \<and> seconds_ok s"
| "tq_allowed C (Op_add a clock) q \<longleftrightarrow> tq_heap q a \<noteq> None \<and> a \<notin> queued q \<and> clock \<le> C"
| "tq_allowed C (Op_cancel timerId) q \<longleftrightarrow> True"
| "tq_allowed C (Op_alarm now clock) q \<longleftrightarrow> 0 < now \<and> clock \<le> C"

fun tq_schedule :: "Timestamp \<Rightarrow> ('cb \<Rightarrow> 'cb TimerQueue \<Rightarrow> 'cb TimerQueue outcome) \<Rightarrow> 'cb tq_op list \<Rightarrow> 'cb TimerQueue \<Rightarrow> bool" where
  "tq_schedule C run [] q \<longleftrightarrow> True"
| "tq_schedule C run (op # ops) q \<longleftrightarrow> tq_allowed C op q \<and> (case tq_exec run op q of Inl e \<Rightarrow> True | Inr q' \<Rightarrow> tq_schedule C run ops q')"

lemma tq_exec_ok:
  assumes inv: "tq_inv {} q" and al: "alarm_ok C q" and run: "callbacks_ok C run" and ok: "tq_allowed C op q"
  shows "\<exists>q'. tq_exec run op q = Inr q' \<and> tq_inv {} q' \<and> alarm_ok C q'"
proof (cases op)
  case (Op_create a cb w s)
  with Timer_new_ok [OF inv, of a s cb w C "\<lambda>_. True"] ok al show ?thesis by (simp add: alarm_ok_def)
next
  case (Op_add a clock)
  with ok obtain t where "tq_heap q a = Some t" by auto
  with addTimerInLoop_ok [OF inv this, of clock C "\<lambda>_. True"] Op_add ok al show ?thesis by (auto simp: alarm_ok_def)
next
  case (Op_cancel timerId)
  with cancelInLoop_ok [OF inv, of "\<lambda>_. True" timerId C] al show ?thesis by (auto simp: alarm_ok_def)
next
  case (Op_alarm now clock)
  with handleRead_ok [OF inv run, of now clock] ok show ?thesis by auto
qed

lemma TimerQueue_new_ok: "tq_inv {} (TimerQueue_new n)" "alarm_ok C (TimerQueue_new n)"
  by (simp_all add: tq_inv_def timers_wf_def heap_wf_def queued_def TimerQueue_new_def alarm_ok_def alarm_for_def)

lemma tq_run_ok:
  assumes "callbacks_ok C run" and "tq_inv {} q" and "alarm_ok C q" and "tq_schedule C run ops q"
  shows "\<exists>q'. for_each (tq_exec run) ops q = Inr q' \<and> tq_inv {} q' \<and> alarm_ok C q'"
  using assms(2-4)
proof (induction ops arbitrary: q)
  case (Cons op ops)
  with tq_exec_ok [OF Cons.prems(1,2) assms(1), of op] show ?case by auto
qed auto

section \<open>Properties\<close>

text \<open>Callbacks for the examples: one that does nothing and one that cancels a timer.\<close>

datatype sample_cb = Quiet | Cancels TimerId

fun sample_run :: "sample_cb \<Rightarrow> sample_cb TimerQueue \<Rightarrow> sample_cb TimerQueue outcome" where
  "sample_run Quiet q = Inr q"
| "sample_run (Cancels timerId) q = TimerQueue_cancel timerId q"

lemma sample_run_ok: "callbacks_ok C sample_run"
  unfolding callbacks_ok_def
proof (intro allI impI)
  fix E cb and q :: "sample_cb TimerQueue"
  assume inv: "tq_inv E q"
  show "\<exists>q'. sample_run cb q = Inr q' \<and> (client_step C E)\<^sup>*\<^sup>* q q'"
  proof (cases cb)
    case (Cancels timerId)
    from cancelInLoop_ok [OF inv, of "\<lambda>_. True" timerId] obtain q' where "cancelInLoop True timerId q = Inr q'" by auto
    then show ?thesis using Cancels by (auto simp: TimerQueue_cancel_def intro: step_cancel)
  qed simp
qed

definition once :: seconds where "once = \<lparr>sec_positive = False, sec_micros = 0\<rparr>"
definition every_ms :: seconds where "every_ms = \<lparr>sec_positive = True, sec_micros = 1000\<rparr>"

text \<open>Timer 16 repeats and cancels timer 24 from its callback, both are due at time 200.\<close>

definition sample_queue :: "sample_cb TimerQueue" where
  "sample_queue = \<lparr>tq_heap = [8 \<mapsto> \<lparr>tm_callback = Quiet, tm_expiration = 500, tm_interval = once, tm_repeat = False, tm_sequence = 1\<rparr>,
       16 \<mapsto> \<lparr>tm_callback = Cancels (24, 3), tm_expiration = 100, tm_interval = every_ms, tm_repeat = True, tm_sequence = 2\<rparr>,
       24 \<mapsto> \<lparr>tm_callback = Quiet, tm_expiration = 150, tm_interval = every_ms, tm_repeat = True, tm_sequence = 3\<rparr>],
     tq_timers = [(100, 16), (150, 24), (500, 8)], tq_activeTimers = {(8, 1), (16, 2), (24, 3)},
     tq_callingExpiredTimers = False, tq_cancelingTimers = {}, tq_alarm = Some 150, s_numCreated = 3\<rparr>"

lemma sample_queue_inv: "tq_inv {} sample_queue"
proof -
  have qd: "queued sample_queue = {8, 16, 24}" by (auto simp: queued_def sample_queue_def)
  have "timers_wf sample_queue"
  proof (rule timers_wfI)
    show "sorted_wrt (<) (tq_timers sample_queue)" by (simp add: sample_queue_def)
    show "(w, a) \<in> set (tq_timers sample_queue) \<Longrightarrow>
        a < UINTPTR_MAX \<and> (\<exists>t. tq_heap sample_queue a = Some t \<and> tm_expiration t = w)" for w a
      by (auto simp: sample_queue_def UINTPTR_MAX_def)
    show "(a, s) \<in> tq_activeTimers sample_queue \<longleftrightarrow>
        (\<exists>t. tq_heap sample_queue a = Some t \<and> tm_sequence t = s \<and> a \<in> queued sample_queue)" for a s
      unfolding qd by (auto simp: sample_queue_def)
  qed
  moreover have "heap_wf sample_queue"
    by (auto simp: heap_wf_def sample_queue_def UINTPTR_MAX_def once_def every_ms_def seconds_ok_def split: if_splits)
  ultimately show ?thesis by (simp add: tq_inv_def)
qed

definition sample_timer_ops :: "sample_cb tq_op list" where
  "sample_timer_ops = [Op_create 8 Quiet 500 once, Op_add 8 10, Op_alarm 600 601, Op_cancel (8, 1)]"

lemma schedule_tail:
  "tq_schedule C run [Op_alarm now clock, Op_cancel timerId] q \<longleftrightarrow> 0 < now \<and> clock \<le> C"
  by (auto split: sum.splits)

lemma sample_added:
  "tq_exec sample_run (Op_add 8 10) (Timer_new 8 Quiet 500 once (TimerQueue_new 0))
    = Inr ((Timer_new 8 Quiet 500 once (TimerQueue_new 0))\<lparr>tq_timers := [(500, 8)], tq_activeTimers := {(8, 1)},
        tq_alarm := Some 500\<rparr>)"
  by (simp add: TimerQueue_new_def Timer_new_def addTimerInLoop_def TimerQueue_insert_def same_size_def
      set_insert_def resetTimerfd_alarm Let_def)

lemma sample_timer_schedule: "tq_schedule 1000 sample_run sample_timer_ops (TimerQueue_new 0)"
proof -
  have "tq_allowed 1000 (Op_create 8 Quiet 500 once) (TimerQueue_new 0)"
    by (simp add: TimerQueue_new_def UINTPTR_MAX_def once_def seconds_ok_def)
  moreover have "tq_allowed 1000 (Op_add 8 10) (Timer_new 8 Quiet 500 once (TimerQueue_new 0))"
    by (simp add: TimerQueue_new_def Timer_new_def queued_def Let_def)
  ultimately show ?thesis
    unfolding sample_timer_ops_def tq_schedule.simps(2) [of _ _ "Op_create a cb w s" for a cb w s]
      tq_schedule.simps(2) [of _ _ "Op_add a c" for a c] schedule_tail tq_exec.simps(1)
    by (simp add: sample_added del: tq_exec.simps)
qed

text \<open>
  C4. The timer queue is memory safe and consistent: in every run of a loop in which timers are
  created, queued, cancelled and fire, with callbacks that themselves create, queue and cancel
  timers in any order, no assertion fails and no freed timer is touched; \<^verbatim>\<open>timers_\<close> and
  \<^verbatim>\<open>activeTimers_\<close> always hold the same timers, sorted by expiration, each allocated, and no two
  timers ever share a sequence number.
\<close>

theorem timer_queue_safe:
  assumes "callbacks_ok C run" and "tq_schedule C run ops (TimerQueue_new n)"
  shows "\<exists>q. for_each (tq_exec run) ops (TimerQueue_new n) = Inr q \<and> tq_inv {} q"
  using tq_run_ok [OF assms(1) TimerQueue_new_ok assms(2)] by blast

theorem timer_queue_safe_witness:
  "\<exists>q. for_each (tq_exec sample_run) sample_timer_ops (TimerQueue_new 0) = Inr q \<and> tq_inv {} q"
  by (rule timer_queue_safe [OF sample_run_ok sample_timer_schedule])

text \<open>
  C16. No timer is ever left without an alarm: in every such run, while timers are queued the timer
  descriptor is armed, and due no later than the earliest expiration or 100 microseconds after the
  latest clock reading. This holds although the descriptor is disarmed by being read, is not
  re-armed when the earliest timer is cancelled, and is left alone by \<^verbatim>\<open>reset\<close> when the earliest
  expiration is not a valid time.
\<close>

theorem alarm_always_pending:
  assumes "callbacks_ok C run" and "tq_schedule C run ops (TimerQueue_new n)"
    and "for_each (tq_exec run) ops (TimerQueue_new n) = Inr q" and "tq_timers q = (w, a) # es"
  shows "\<exists>t. tq_alarm q = Some t \<and> t \<le> max w (C + 100)"
  using tq_run_ok [OF assms(1) TimerQueue_new_ok assms(2)] assms(3,4) by (auto simp: alarm_ok_def alarm_for_def)

theorem alarm_always_pending_witness:
  "\<exists>q t. for_each (tq_exec sample_run) [Op_create 8 Quiet 500 once, Op_add 8 10] (TimerQueue_new 0) = Inr q
     \<and> tq_timers q = [(500, 8)] \<and> tq_alarm q = Some t \<and> t \<le> 1100"
proof -
  have s: "tq_schedule 1000 sample_run [Op_create 8 Quiet 500 once, Op_add 8 10] (TimerQueue_new 0)"
    using sample_timer_schedule sample_added by (simp add: sample_timer_ops_def)
  obtain q where q: "for_each (tq_exec sample_run) [Op_create 8 Quiet 500 once, Op_add 8 10] (TimerQueue_new 0) = Inr q"
    "tq_timers q = [(500, 8)]"
    using sample_added by simp
  from alarm_always_pending [OF sample_run_ok s q] q show ?thesis by auto
qed



text \<open>
  \<^verbatim>\<open>getExpired\<close> moves out exactly the timers whose expiration is not after \<open>now\<close>, in order of
  expiration, and keeps exactly the others; with the sentry of the largest address no timer that
  expires at \<open>now\<close> itself is missed.
\<close>

theorem getExpired_exact:
  assumes "timers_wf q"
  shows "\<exists>q'. getExpired now q = Inr (filter (\<lambda>e. fst e \<le> now) (tq_timers q), q')
    \<and> tq_timers q' = filter (\<lambda>e. now < fst e) (tq_timers q) \<and> timers_wf q' \<and> tq_heap q' = tq_heap q"
  using getExpired_ok [OF assms, of now] without_expired_wf [OF assms, of now]
  by (intro exI [of _ "without_expired now q"]) (simp add: expired_at_def without_expired_def)

theorem getExpired_exact_witness:
  "\<exists>q'. getExpired 150 sample_queue = Inr ([(100, 16), (150, 24)], q') \<and> tq_timers q' = [(500, 8)]"
proof -
  have "timers_wf sample_queue" using sample_queue_inv by (simp add: tq_inv_def)
  from getExpired_exact [OF this, of 150] show ?thesis by (auto simp: sample_queue_def)
qed

text \<open>
  C19. A timer id cancels its own timer and no other. If the id names a queued timer that timer is
  freed and removed and everything else stays; in every other case, a timer that has fired, that was
  cancelled before, or whose memory now holds a newer timer, no timer is affected and the id is at
  most noted for the round in progress.
\<close>

theorem cancel_own_timer_only:
  assumes "tq_inv E q"
  shows "case tq_heap q a of
      Some t \<Rightarrow> if tm_sequence t = s \<and> a \<in> queued q
        then \<exists>q'. cancelInLoop True (a, s) q = Inr q' \<and> tq_heap q' = (tq_heap q)(a := None)
          \<and> set (tq_timers q') = set (tq_timers q) - {(tm_expiration t, a)}
        else cancelInLoop True (a, s) q = Inr (if tq_callingExpiredTimers q
          then q\<lparr>tq_cancelingTimers := insert (a, s) (tq_cancelingTimers q)\<rparr> else q)
    | None \<Rightarrow> cancelInLoop True (a, s) q = Inr (if tq_callingExpiredTimers q
          then q\<lparr>tq_cancelingTimers := insert (a, s) (tq_cancelingTimers q)\<rparr> else q)"
proof -
  note i = tq_invD [OF assms]
  show ?thesis
  proof (cases "tq_heap q a")
    case None
    with cancel_inactive_ok [OF i(1), of "(a, s)"] timers_wf_active [OF i(1), of a s] show ?thesis by simp
  next
    case (Some t)
    show ?thesis
    proof (cases "tm_sequence t = s \<and> a \<in> queued q")
      case True
      with cancel_active_ok [OF i(1) Some _ refl] timers_wf_sorted [OF i(1)] Some show ?thesis by auto
    next
      case False
      with Some have "(a, s) \<notin> tq_activeTimers q" using timers_wf_active [OF i(1), of a s] by auto
      with cancel_inactive_ok [OF i(1) this] Some False show ?thesis by auto
    qed
  qed
qed

theorem cancel_own_timer_only_witness:
  "cancelInLoop True (16, 1) sample_queue = Inr sample_queue
   \<and> (\<exists>q'. cancelInLoop True (16, 2) sample_queue = Inr q' \<and> tq_heap q' 16 = None \<and> tq_heap q' 8 \<noteq> None)"
  using cancel_own_timer_only [OF sample_queue_inv, of 16 1] cancel_own_timer_only [OF sample_queue_inv, of 16 2]
  by (auto simp: sample_queue_def queued_def)

end
