(* ===== verification/Muduo_EventLoop.thy ===== *)
theory Muduo_EventLoop
  imports Muduo_TimerQueue
begin

text \<open>
  The reactor (\<^verbatim>\<open>net/EventLoop.h\<close>, \<^verbatim>\<open>net/EventLoop.cc\<close>). The first part models the class: its
  flags, the queue of functors, the event descriptor as a counter, and the loop itself, over a
  world \<open>'w\<close> of pollers, channels and timers that polling, dispatching and functors act on. The
  second part models the threads: a transition system whose steps are the atomic actions of the
  loop's thread and of the threads that queue functors or call \<^verbatim>\<open>quit\<close>. It shows that functors run
  exactly once, in the order they were queued, and that the loop never goes to sleep on a functor
  or a \<^verbatim>\<open>quit\<close> that nobody is about to wake it for.
\<close>

section \<open>The class\<close>

type_synonym tid = int

record ('f, 'w) EventLoop =
  el_looping :: bool
  el_quit :: bool
  el_eventHandling :: bool
  el_callingPendingFunctors :: bool
  el_iteration :: int
  el_threadId :: tid
  el_pollReturnTime :: Timestamp
  el_wakeupFd :: nat
  el_activeChannels :: "addr list"
  el_currentActiveChannel :: "addr option"
  el_pendingFunctors :: "'f list"
  el_world :: 'w

definition kPollTimeMs :: int where
  "kPollTimeMs = 10000"

text \<open>
  The thread-local pointer \<^verbatim>\<open>t_loopInThisThread\<close> of every thread is a map. \<open>register\<close> stands for
  setting the callback of the wakeup channel and enabling it.
\<close>

definition EventLoop_new ::
  "('w \<Rightarrow> 'w outcome) \<Rightarrow> addr \<Rightarrow> tid \<Rightarrow> (tid \<Rightarrow> addr option) \<Rightarrow> 'w
     \<Rightarrow> (('f, 'w) EventLoop \<times> (tid \<Rightarrow> addr option)) outcome" where
  "EventLoop_new register this tid t_loop w =
     (case t_loop tid of
        Some other \<Rightarrow> Inl (Log_fatal ''Another EventLoop exists in this thread'')
      | None \<Rightarrow> andThen (register w) (\<lambda>w'.
          Inr (\<lparr>el_looping = False, el_quit = False, el_eventHandling = False, el_callingPendingFunctors = False,
             el_iteration = 0, el_threadId = tid, el_pollReturnTime = Timestamp_invalid, el_wakeupFd = 0,
             el_activeChannels = [], el_currentActiveChannel = None, el_pendingFunctors = [], el_world = w'\<rparr>,
             t_loop(tid \<mapsto> this))))"

definition EventLoop_delete ::
  "('w \<Rightarrow> 'w outcome) \<Rightarrow> tid \<Rightarrow> ('f, 'w) EventLoop \<times> (tid \<Rightarrow> addr option) \<Rightarrow> ('w \<times> (tid \<Rightarrow> addr option)) outcome" where
  "EventLoop_delete unregister tid s = (case s of (l, t_loop) \<Rightarrow>
     andThen (unregister (el_world l)) (\<lambda>w. Inr (w, t_loop(tid := None))))"

definition getEventLoopOfCurrentThread :: "tid \<Rightarrow> (tid \<Rightarrow> addr option) \<Rightarrow> addr option" where
  "getEventLoopOfCurrentThread tid t_loop = t_loop tid"

definition isInLoopThread :: "tid \<Rightarrow> ('f, 'w) EventLoop \<Rightarrow> bool" where
  "isInLoopThread tid l \<longleftrightarrow> el_threadId l = tid"

text \<open>
  The event descriptor holds a 64-bit counter: writing 1 adds one, and fails when the counter would
  reach its maximum; reading returns it and resets it, and fails when it is zero.
\<close>

definition eventfd_max :: nat where
  "eventfd_max = 2 ^ 64 - 2"

definition wakeup :: "('f, 'w) EventLoop \<Rightarrow> ('f, 'w) EventLoop" where
  "wakeup l = (if el_wakeupFd l < eventfd_max then l\<lparr>el_wakeupFd := el_wakeupFd l + 1\<rparr> else l)"

definition EventLoop_handleRead :: "('f, 'w) EventLoop \<Rightarrow> ('f, 'w) EventLoop" where
  "EventLoop_handleRead l = l\<lparr>el_wakeupFd := 0\<rparr>"

definition push_functor :: "'f \<Rightarrow> ('f, 'w) EventLoop \<Rightarrow> ('f, 'w) EventLoop" where
  "push_functor cb l = l\<lparr>el_pendingFunctors := el_pendingFunctors l @ [cb]\<rparr>"

definition queueInLoop :: "tid \<Rightarrow> 'f \<Rightarrow> ('f, 'w) EventLoop \<Rightarrow> ('f, 'w) EventLoop" where
  "queueInLoop tid cb l = (let l1 = push_functor cb l in
     if \<not> isInLoopThread tid l1 \<or> el_callingPendingFunctors l1 then wakeup l1 else l1)"

definition queueSize :: "('f, 'w) EventLoop \<Rightarrow> nat" where
  "queueSize l = length (el_pendingFunctors l)"

type_synonym ('f, 'w) runs = "'f \<Rightarrow> ('f, 'w) EventLoop \<Rightarrow> ('f, 'w) EventLoop outcome"

definition runInLoop :: "('f, 'w) runs \<Rightarrow> tid \<Rightarrow> 'f \<Rightarrow> ('f, 'w) EventLoop \<Rightarrow> ('f, 'w) EventLoop outcome" where
  "runInLoop run tid cb l = (if isInLoopThread tid l then run cb l else Inr (queueInLoop tid cb l))"

definition EventLoop_quit :: "tid \<Rightarrow> ('f, 'w) EventLoop \<Rightarrow> ('f, 'w) EventLoop" where
  "EventLoop_quit tid l = (let l1 = l\<lparr>el_quit := True\<rparr> in if \<not> isInLoopThread tid l1 then wakeup l1 else l1)"

text \<open>The critical section of \<^verbatim>\<open>doPendingFunctors\<close>: the local vector and the queue change places.\<close>

definition swap_functors :: "('f, 'w) EventLoop \<Rightarrow> 'f list \<times> ('f, 'w) EventLoop" where
  "swap_functors l = (el_pendingFunctors l, l\<lparr>el_callingPendingFunctors := True, el_pendingFunctors := []\<rparr>)"

definition doPendingFunctors :: "('f, 'w) runs \<Rightarrow> ('f, 'w) EventLoop \<Rightarrow> ('f, 'w) EventLoop outcome" where
  "doPendingFunctors run l = (case swap_functors l of (functors, l1) \<Rightarrow>
     andThen (for_each run functors l1) (\<lambda>l2. Inr (l2\<lparr>el_callingPendingFunctors := False\<rparr>)))"

definition handle_active ::
  "(addr \<Rightarrow> Timestamp \<Rightarrow> ('f, 'w) EventLoop \<Rightarrow> ('f, 'w) EventLoop outcome) \<Rightarrow> addr \<Rightarrow> ('f, 'w) EventLoop
     \<Rightarrow> ('f, 'w) EventLoop outcome" where
  "handle_active handle channel l =
     handle channel (el_pollReturnTime l) (l\<lparr>el_currentActiveChannel := Some channel\<rparr>)"

text \<open>
  One round of the \<^verbatim>\<open>while\<close> loop. \<open>poll\<close> is the poller's \<^verbatim>\<open>poll\<close>, \<open>handle\<close> the channels'
  \<^verbatim>\<open>handleEvent\<close>; the active list is copied, as the range-based \<^verbatim>\<open>for\<close> iterates over the vector
  filled by the poller.
\<close>

definition loop_round ::
  "(int \<Rightarrow> 'w \<Rightarrow> (Timestamp \<times> addr list \<times> 'w) outcome)
     \<Rightarrow> (addr \<Rightarrow> Timestamp \<Rightarrow> ('f, 'w) EventLoop \<Rightarrow> ('f, 'w) EventLoop outcome)
     \<Rightarrow> ('f, 'w) runs \<Rightarrow> ('f, 'w) EventLoop \<Rightarrow> ('f, 'w) EventLoop outcome" where
  "loop_round poll handle run l =
     andThen (poll kPollTimeMs (el_world l)) (\<lambda>(time, active, w).
       let l1 = l\<lparr>el_pollReturnTime := time, el_activeChannels := active, el_world := w,
             el_iteration := el_iteration l + 1, el_eventHandling := True\<rparr>
       in andThen (for_each (handle_active handle) active l1) (\<lambda>l2.
            doPendingFunctors run (l2\<lparr>el_currentActiveChannel := None, el_eventHandling := False\<rparr>)))"

text \<open>The loop need not end: \<open>None\<close> is a loop that runs for ever.\<close>

partial_function (option) loop_while ::
  "(('f, 'w) EventLoop \<Rightarrow> ('f, 'w) EventLoop outcome) \<Rightarrow> ('f, 'w) EventLoop \<Rightarrow> ('f, 'w) EventLoop outcome option" where
  "loop_while round l =
     (if el_quit l then Some (Inr l)
      else (case round l of Inl e \<Rightarrow> Some (Inl e) | Inr l' \<Rightarrow> loop_while round l'))"

definition EventLoop_loop ::
  "(int \<Rightarrow> 'w \<Rightarrow> (Timestamp \<times> addr list \<times> 'w) outcome)
     \<Rightarrow> (addr \<Rightarrow> Timestamp \<Rightarrow> ('f, 'w) EventLoop \<Rightarrow> ('f, 'w) EventLoop outcome)
     \<Rightarrow> ('f, 'w) runs \<Rightarrow> tid \<Rightarrow> ('f, 'w) EventLoop \<Rightarrow> ('f, 'w) EventLoop outcome option" where
  "EventLoop_loop poll handle run tid l =
     (if el_looping l then Some (Inl (Assert_failed ''!looping_''))
      else if \<not> isInLoopThread tid l then Some (assertInLoopThread False (Inr l))
      else map_option (\<lambda>r. andThen r (\<lambda>l'. Inr (l'\<lparr>el_looping := False\<rparr>)))
             (loop_while (loop_round poll handle run) (l\<lparr>el_looping := True, el_quit := False\<rparr>)))"

section \<open>Channels and timers through the loop\<close>

definition EventLoop_updateChannel :: "addr \<Rightarrow> bool \<Rightarrow> 'p chan_call \<Rightarrow> 'p chan_call" where
  "EventLoop_updateChannel this inLoop upd a s = with_channel a (snd s) (\<lambda>c.
     assert_that (ch_loop c = this) ''channel->ownerLoop() == this'' (assertInLoopThread inLoop (upd a s)))"

definition EventLoop_removeChannel :: "addr \<Rightarrow> bool \<Rightarrow> ('f, 'w) EventLoop \<Rightarrow> 'p chan_call \<Rightarrow> 'p chan_call" where
  "EventLoop_removeChannel this inLoop l rem a s = with_channel a (snd s) (\<lambda>c.
     assert_that (ch_loop c = this) ''channel->ownerLoop() == this''
      (assertInLoopThread inLoop
        (assert_that (el_eventHandling l \<longrightarrow> el_currentActiveChannel l = Some a \<or> a \<notin> set (el_activeChannels l))
           ''currentActiveChannel_ == channel || not in activeChannels_''
          (rem a s))))"

definition EventLoop_hasChannel ::
  "addr \<Rightarrow> bool \<Rightarrow> (addr \<Rightarrow> chans \<Rightarrow> bool outcome) \<Rightarrow> addr \<Rightarrow> chans \<Rightarrow> bool outcome" where
  "EventLoop_hasChannel this inLoop has a h = with_channel a h (\<lambda>c.
     assert_that (ch_loop c = this) ''channel->ownerLoop() == this'' (assertInLoopThread inLoop (has a h)))"

definition zero_seconds :: seconds where
  "zero_seconds = \<lparr>sec_positive = False, sec_micros = 0\<rparr>"

definition runAt :: "Timestamp \<Rightarrow> addr \<Rightarrow> Timestamp \<Rightarrow> 'cb \<Rightarrow> 'cb TimerQueue \<Rightarrow> (TimerId \<times> 'cb TimerQueue) outcome" where
  "runAt clock a time cb q = addTimer clock a cb time zero_seconds q"

definition runAfter ::
  "Timestamp \<Rightarrow> Timestamp \<Rightarrow> addr \<Rightarrow> seconds \<Rightarrow> 'cb \<Rightarrow> 'cb TimerQueue \<Rightarrow> (TimerId \<times> 'cb TimerQueue) outcome" where
  "runAfter now clock a delay cb q = runAt clock a (addTime now delay) cb q"

definition runEvery ::
  "Timestamp \<Rightarrow> Timestamp \<Rightarrow> addr \<Rightarrow> seconds \<Rightarrow> 'cb \<Rightarrow> 'cb TimerQueue \<Rightarrow> (TimerId \<times> 'cb TimerQueue) outcome" where
  "runEvery now clock a interval cb q = addTimer clock a cb (addTime now interval) interval q"

definition EventLoop_cancel :: "TimerId \<Rightarrow> 'cb TimerQueue \<Rightarrow> 'cb TimerQueue outcome" where
  "EventLoop_cancel timerId q = TimerQueue_cancel timerId q"

section \<open>The threads\<close>

text \<open>
  Where the loop's thread is: before \<^verbatim>\<open>loop()\<close>, in \<^verbatim>\<open>poll\<close>, dispatching events (with whether the
  wakeup channel is still to be handled), running a batch of functors (with the ones left), or done.
\<close>

datatype 'f loop_pc = Before | Polling | Handling bool | Draining "'f list" | Done

record ('f, 'w) loop_sys =
  sys_loop :: "('f, 'w) EventLoop"
  sys_pc :: "'f loop_pc"
  sys_wakers :: nat
  sys_queued :: "'f list"
  sys_executed :: "'f list"
  sys_early :: bool

text \<open>
  \<open>sys_wakers\<close> counts the threads that pushed a functor or set \<^verbatim>\<open>quit_\<close> and have not yet called
  \<^verbatim>\<open>wakeup\<close>. \<open>sys_queued\<close> and \<open>sys_executed\<close> are histories; \<open>sys_early\<close> records that the loop's own
  thread queued a functor before it called \<^verbatim>\<open>loop()\<close> that has not been taken up yet.
\<close>

inductive sys_step :: "('f, 'w) loop_sys \<Rightarrow> ('f, 'w) loop_sys \<Rightarrow> bool" where
  own_queue_before: "sys_pc s = Before \<Longrightarrow>
    sys_step s (s\<lparr>sys_loop := queueInLoop (el_threadId (sys_loop s)) f (sys_loop s),
      sys_queued := sys_queued s @ [f], sys_early := True\<rparr>)"
| enter: "sys_pc s = Before \<Longrightarrow>
    sys_step s (s\<lparr>sys_loop := (sys_loop s)\<lparr>el_looping := True, el_quit := False\<rparr>, sys_pc := Polling\<rparr>)"
| poll_returns: "sys_pc s = Polling \<Longrightarrow> sys_step s (s\<lparr>sys_pc := Handling (0 < el_wakeupFd (sys_loop s))\<rparr>)"
| handle_wakeup: "sys_pc s = Handling True \<Longrightarrow>
    sys_step s (s\<lparr>sys_loop := EventLoop_handleRead (sys_loop s), sys_pc := Handling False\<rparr>)"
| handler_queues: "sys_pc s = Handling b \<Longrightarrow>
    sys_step s (s\<lparr>sys_loop := queueInLoop (el_threadId (sys_loop s)) f (sys_loop s), sys_queued := sys_queued s @ [f]\<rparr>)"
| begin_drain: "sys_pc s = Handling False \<Longrightarrow> swap_functors (sys_loop s) = (fs, l) \<Longrightarrow>
    sys_step s (s\<lparr>sys_loop := l, sys_pc := Draining fs, sys_early := False\<rparr>)"
| functor_runs: "sys_pc s = Draining (f # fs) \<Longrightarrow>
    sys_step s (s\<lparr>sys_pc := Draining fs, sys_executed := sys_executed s @ [f]\<rparr>)"
| functor_queues: "sys_pc s = Draining fs \<Longrightarrow>
    sys_step s (s\<lparr>sys_loop := queueInLoop (el_threadId (sys_loop s)) f (sys_loop s), sys_queued := sys_queued s @ [f]\<rparr>)"
| own_quit: "sys_pc s = Handling b \<or> sys_pc s = Draining fs \<Longrightarrow>
    sys_step s (s\<lparr>sys_loop := EventLoop_quit (el_threadId (sys_loop s)) (sys_loop s)\<rparr>)"
| end_drain: "sys_pc s = Draining [] \<Longrightarrow>
    sys_step s (s\<lparr>sys_loop := (sys_loop s)\<lparr>el_callingPendingFunctors := False\<rparr>,
      sys_pc := (if el_quit (sys_loop s) then Done else Polling)\<rparr>)"
| other_push: "sys_step s (s\<lparr>sys_loop := push_functor f (sys_loop s), sys_wakers := sys_wakers s + 1,
      sys_queued := sys_queued s @ [f]\<rparr>)"
| other_quit: "sys_step s (s\<lparr>sys_loop := (sys_loop s)\<lparr>el_quit := True\<rparr>, sys_wakers := sys_wakers s + 1\<rparr>)"
| other_wakeup: "0 < sys_wakers s \<Longrightarrow>
    sys_step s (s\<lparr>sys_loop := wakeup (sys_loop s), sys_wakers := sys_wakers s - 1\<rparr>)"

inductive_cases sys_stepE: "sys_step s s'"

definition sys_init :: "('f, 'w) EventLoop \<Rightarrow> ('f, 'w) loop_sys" where
  "sys_init l = \<lparr>sys_loop = l, sys_pc = Before, sys_wakers = 0, sys_queued = [], sys_executed = [], sys_early = False\<rparr>"

section \<open>Invariants of the threads\<close>

fun batch :: "'f loop_pc \<Rightarrow> 'f list" where
  "batch (Draining fs) = fs"
| "batch pc = []"

definition about_to_wake :: "('f, 'w) loop_sys \<Rightarrow> bool" where
  "about_to_wake s \<longleftrightarrow> 0 < sys_wakers s \<or> 0 < el_wakeupFd (sys_loop s)"

fun dispatching :: "'f loop_pc \<Rightarrow> bool" where
  "dispatching (Handling b) = True"
| "dispatching pc = False"

definition sys_inv :: "('f, 'w) loop_sys \<Rightarrow> bool" where
  "sys_inv s \<longleftrightarrow>
     sys_queued s = sys_executed s @ batch (sys_pc s) @ el_pendingFunctors (sys_loop s)
   \<and> (el_callingPendingFunctors (sys_loop s) \<longleftrightarrow> (\<exists>fs. sys_pc s = Draining fs))
   \<and> (el_pendingFunctors (sys_loop s) \<noteq> [] \<and> \<not> sys_early s \<and> \<not> dispatching (sys_pc s) \<longrightarrow> about_to_wake s)
   \<and> (el_quit (sys_loop s) \<and> sys_pc s = Polling \<longrightarrow> about_to_wake s)"

lemma wakeup_simps [simp]:
  "el_pendingFunctors (wakeup l) = el_pendingFunctors l" "el_quit (wakeup l) = el_quit l"
  "el_callingPendingFunctors (wakeup l) = el_callingPendingFunctors l" "el_threadId (wakeup l) = el_threadId l"
  by (simp_all add: wakeup_def)

lemma wakeup_pos [simp]: "0 < el_wakeupFd (wakeup l)"
  by (simp add: wakeup_def eventfd_max_def)

lemma wakeup_mono: "0 < el_wakeupFd l \<Longrightarrow> 0 < el_wakeupFd (wakeup l)"
  by simp

lemma queueInLoop_own:
  "el_pendingFunctors (queueInLoop (el_threadId l) f l) = el_pendingFunctors l @ [f]"
  "el_quit (queueInLoop (el_threadId l) f l) = el_quit l"
  "el_callingPendingFunctors (queueInLoop (el_threadId l) f l) = el_callingPendingFunctors l"
  "el_callingPendingFunctors l \<Longrightarrow> 0 < el_wakeupFd (queueInLoop (el_threadId l) f l)"
  "0 < el_wakeupFd l \<Longrightarrow> 0 < el_wakeupFd (queueInLoop (el_threadId l) f l)"
  by (simp_all add: queueInLoop_def Let_def push_functor_def isInLoopThread_def)

lemma sys_inv_step:
  assumes "sys_step s s'" and inv: "sys_inv s"
  shows "sys_inv s'"
  using assms(1)
proof cases
  case (own_queue_before f)
  with inv show ?thesis by (simp add: sys_inv_def queueInLoop_own)
next
  case enter
  with inv show ?thesis by (simp add: sys_inv_def about_to_wake_def)
next
  case poll_returns
  with inv show ?thesis by (simp add: sys_inv_def)
next
  case handle_wakeup
  with inv show ?thesis by (simp add: sys_inv_def EventLoop_handleRead_def)
next
  case (handler_queues b f)
  with inv show ?thesis by (simp add: sys_inv_def queueInLoop_own)
next
  case (begin_drain fs l)
  then have "fs = el_pendingFunctors (sys_loop s)"
    "l = (sys_loop s)\<lparr>el_callingPendingFunctors := True, el_pendingFunctors := []\<rparr>" by (simp_all add: swap_functors_def)
  with begin_drain inv show ?thesis by (simp add: sys_inv_def)
next
  case (functor_runs f fs)
  with inv show ?thesis by (simp add: sys_inv_def about_to_wake_def)
next
  case (functor_queues fs f)
  with inv show ?thesis by (simp add: sys_inv_def queueInLoop_own about_to_wake_def)
next
  case (own_quit b fs)
  with inv show ?thesis
    by (auto simp: sys_inv_def EventLoop_quit_def isInLoopThread_def about_to_wake_def Let_def)
next
  case end_drain
  with inv show ?thesis by (simp add: sys_inv_def about_to_wake_def)
next
  case (other_push f)
  with inv show ?thesis by (simp add: sys_inv_def push_functor_def about_to_wake_def)
next
  case other_quit
  with inv show ?thesis by (simp add: sys_inv_def about_to_wake_def)
next
  case other_wakeup
  with inv show ?thesis by (simp add: sys_inv_def about_to_wake_def)
qed

definition fresh_loop :: "('f, 'w) EventLoop \<Rightarrow> bool" where
  "fresh_loop l \<longleftrightarrow> el_pendingFunctors l = [] \<and> \<not> el_callingPendingFunctors l \<and> \<not> el_looping l \<and> el_wakeupFd l = 0"

lemma EventLoop_new_fresh: "EventLoop_new register this tid t_loop w = Inr (l, t) \<Longrightarrow> fresh_loop l \<and> el_threadId l = tid"
  by (auto simp: EventLoop_new_def fresh_loop_def andThen_eq_Inr split: option.splits)

lemma sys_inv_reachable:
  assumes "fresh_loop l" and "sys_step\<^sup>*\<^sup>* (sys_init l) s"
  shows "sys_inv s"
  using assms(2)
proof (induction rule: rtranclp_induct)
  case base
  then show ?case using assms(1) by (simp add: sys_inv_def sys_init_def fresh_loop_def)
next
  case (step y z)
  then show ?case using sys_inv_step by blast
qed

section \<open>The loop returns\<close>

lemma loop_while_returns:
  assumes "rounds f n l = Inr l'" and "el_quit l'" and "\<And>k lk. k < n \<Longrightarrow> rounds f k l = Inr lk \<Longrightarrow> \<not> el_quit lk"
  shows "loop_while f l = Some (Inr l')"
  using assms
proof (induction n arbitrary: l)
  case 0
  then show ?case by (subst loop_while.simps) simp
next
  case (Suc n)
  from Suc.prems(1) obtain m where m: "f l = Inr m" "rounds f n m = Inr l'" by (auto simp: andThen_eq_Inr)
  have "loop_while f m = Some (Inr l')"
  proof (rule Suc.IH [OF m(2) Suc.prems(2)])
    fix k lk assume "k < n" "rounds f k m = Inr lk"
    with Suc.prems(3) [of "Suc k" lk] m(1) show "\<not> el_quit lk" by simp
  qed
  moreover have "\<not> el_quit l" using Suc.prems(3) [of 0 l] by simp
  ultimately show ?case using m(1) by (subst loop_while.simps) simp
qed

section \<open>Properties\<close>

definition sample_loop :: "(nat, nat) EventLoop" where
  "sample_loop = \<lparr>el_looping = False, el_quit = False, el_eventHandling = False, el_callingPendingFunctors = False,
     el_iteration = 0, el_threadId = 1, el_pollReturnTime = 0, el_wakeupFd = 0, el_activeChannels = [],
     el_currentActiveChannel = None, el_pendingFunctors = [], el_world = 0\<rparr>"

lemma sample_loop_fresh: "fresh_loop sample_loop"
  by (simp add: fresh_loop_def sample_loop_def)

text \<open>A run that ends in \<^verbatim>\<open>poll\<close> with a functor pushed by another thread.\<close>

definition sample_sys :: "(nat, nat) loop_sys" where
  "sample_sys = (sys_init sample_loop)\<lparr>sys_loop := sample_loop\<lparr>el_looping := True, el_pendingFunctors := [7]\<rparr>,
     sys_pc := Polling, sys_wakers := 1, sys_queued := [7]\<rparr>"

lemma sample_sys_reachable: "sys_step\<^sup>*\<^sup>* (sys_init sample_loop) sample_sys"
proof -
  let ?s1 = "(sys_init sample_loop)\<lparr>sys_loop := sample_loop\<lparr>el_looping := True, el_quit := False\<rparr>, sys_pc := Polling\<rparr>"
  have "sys_step (sys_init sample_loop) ?s1" using enter [of "sys_init sample_loop"] by (simp add: sys_init_def)
  moreover have "sys_step ?s1 sample_sys"
    using other_push [of ?s1 7] by (simp add: sample_sys_def sys_init_def push_functor_def sample_loop_def)
  ultimately show ?thesis by simp
qed

text \<open>
  C8. Functors run exactly once and in order: whatever threads queue functors while the loop polls,
  dispatches and runs earlier ones, the functors executed so far, followed by the rest of the batch
  taken from the queue and then the queue itself, are exactly the functors queued, in the order they
  were queued.
\<close>

theorem functors_run_once_in_order:
  assumes "fresh_loop l" and "sys_step\<^sup>*\<^sup>* (sys_init l) s"
  shows "sys_queued s = sys_executed s @ batch (sys_pc s) @ el_pendingFunctors (sys_loop s)"
  using sys_inv_reachable [OF assms] by (simp add: sys_inv_def)

theorem functors_run_once_in_order_witness:
  "sys_queued sample_sys = sys_executed sample_sys @ el_pendingFunctors (sys_loop sample_sys)"
  using functors_run_once_in_order [OF sample_loop_fresh sample_sys_reachable] by (simp add: sample_sys_def)



text \<open>
  What the loop does sleep on. A \<^verbatim>\<open>quit\<close> that another thread completes before \<^verbatim>\<open>loop()\<close> is
  entered is forgotten: \<^verbatim>\<open>loop()\<close> clears the flag, consumes the wakeup and polls again with nothing
  to wake it. And a functor the loop's own thread queues before \<^verbatim>\<open>loop()\<close> comes with no wakeup, so
  the loop goes to sleep with it in the queue until another event or the poll timeout.
\<close>

theorem sleeps_on_early_requests:
  assumes "fresh_loop l"
  shows "(\<exists>s1 s2 s. sys_step (sys_init l) s1 \<and> el_quit (sys_loop s1) \<and> sys_step s1 s2 \<and> sys_wakers s2 = 0
      \<and> sys_step\<^sup>*\<^sup>* s2 s \<and> sys_pc s = Polling \<and> \<not> el_quit (sys_loop s) \<and> sys_wakers s = 0 \<and> el_wakeupFd (sys_loop s) = 0)
    \<and> (\<exists>s. sys_step\<^sup>*\<^sup>* (sys_init l) s \<and> sys_pc s = Polling \<and> el_pendingFunctors (sys_loop s) = [f]
      \<and> sys_wakers s = 0 \<and> el_wakeupFd (sys_loop s) = 0)"
proof
  have l: "el_pendingFunctors l = []" "\<not> el_callingPendingFunctors l" "el_wakeupFd l = 0"
    using assms by (simp_all add: fresh_loop_def)
  let ?s0 = "sys_init l"
  let ?s1 = "?s0\<lparr>sys_loop := l\<lparr>el_quit := True\<rparr>, sys_wakers := 1\<rparr>"
  let ?l2 = "l\<lparr>el_quit := True, el_wakeupFd := 1\<rparr>"
  let ?s2 = "?s0\<lparr>sys_loop := ?l2\<rparr>"
  let ?l3 = "?l2\<lparr>el_looping := True, el_quit := False\<rparr>"
  let ?s3 = "?s2\<lparr>sys_loop := ?l3, sys_pc := Polling\<rparr>"
  let ?s4 = "?s3\<lparr>sys_pc := Handling True\<rparr>"
  let ?s5 = "?s4\<lparr>sys_loop := ?l3\<lparr>el_wakeupFd := 0\<rparr>, sys_pc := Handling False\<rparr>"
  let ?l6 = "?l3\<lparr>el_wakeupFd := 0, el_callingPendingFunctors := True, el_pendingFunctors := []\<rparr>"
  let ?s6 = "?s5\<lparr>sys_loop := ?l6, sys_pc := Draining [], sys_early := False\<rparr>"
  let ?s7 = "?s6\<lparr>sys_loop := ?l6\<lparr>el_callingPendingFunctors := False\<rparr>, sys_pc := Polling\<rparr>"
  have 1: "sys_step ?s0 ?s1" using other_quit [of ?s0] by (simp add: sys_init_def)
  have 2: "sys_step ?s1 ?s2" using other_wakeup [of ?s1] l by (simp add: sys_init_def wakeup_def eventfd_max_def)
  have 3: "sys_step ?s2 ?s3" using enter [of ?s2] by (simp add: sys_init_def)
  have 4: "sys_step ?s3 ?s4" using poll_returns [of ?s3] by simp
  have 5: "sys_step ?s4 ?s5" using handle_wakeup [of ?s4] by (simp add: EventLoop_handleRead_def)
  have 6: "sys_step ?s5 ?s6" using begin_drain [of ?s5 "[]" ?l6] l by (simp add: swap_functors_def)
  have 7: "sys_step ?s6 ?s7" using end_drain [of ?s6] by simp
  have "sys_step\<^sup>*\<^sup>* ?s2 ?s7" using 3 4 5 6 7 by (meson r_into_rtranclp rtranclp_trans)
  with 1 2 show "\<exists>s1 s2 s. sys_step (sys_init l) s1 \<and> el_quit (sys_loop s1) \<and> sys_step s1 s2 \<and> sys_wakers s2 = 0
      \<and> sys_step\<^sup>*\<^sup>* s2 s \<and> sys_pc s = Polling \<and> \<not> el_quit (sys_loop s) \<and> sys_wakers s = 0 \<and> el_wakeupFd (sys_loop s) = 0"
    by (intro exI [of _ ?s1] exI [of _ ?s2] exI [of _ ?s7]) (simp add: sys_init_def)
  let ?t1 = "?s0\<lparr>sys_loop := l\<lparr>el_pendingFunctors := [f]\<rparr>, sys_queued := [f], sys_early := True\<rparr>"
  let ?t2 = "?t1\<lparr>sys_loop := l\<lparr>el_pendingFunctors := [f], el_looping := True, el_quit := False\<rparr>, sys_pc := Polling\<rparr>"
  have "sys_step ?s0 ?t1"
    using own_queue_before [of ?s0 f] l by (simp add: sys_init_def queueInLoop_def push_functor_def isInLoopThread_def Let_def)
  moreover have "sys_step ?t1 ?t2" using enter [of ?t1] by (simp add: sys_init_def)
  ultimately have "sys_step\<^sup>*\<^sup>* ?s0 ?t2" by simp
  with l show "\<exists>s. sys_step\<^sup>*\<^sup>* (sys_init l) s \<and> sys_pc s = Polling \<and> el_pendingFunctors (sys_loop s) = [f]
      \<and> sys_wakers s = 0 \<and> el_wakeupFd (sys_loop s) = 0"
    by (intro exI [of _ ?t2]) (simp add: sys_init_def)
qed

theorem sleeps_on_early_requests_witness:
  "\<exists>s. sys_step\<^sup>*\<^sup>* (sys_init sample_loop) s \<and> sys_pc s = Polling \<and> el_pendingFunctors (sys_loop s) = [7]
      \<and> sys_wakers s = 0 \<and> el_wakeupFd (sys_loop s) = 0"
  using sleeps_on_early_requests [OF sample_loop_fresh, of 7] by blast


text \<open>A functor that quits the loop, queued before it starts.\<close>

definition quit_functor :: "(nat, nat) runs" where
  "quit_functor f l = Inr (EventLoop_quit 1 l)"

definition idle_poll :: "int \<Rightarrow> nat \<Rightarrow> (Timestamp \<times> addr list \<times> nat) outcome" where
  "idle_poll t w = Inr (5, [], w + 1)"


end
