(* ===== verification/Muduo_LoopThreads.thy ===== *)
theory Muduo_LoopThreads
  imports Muduo_EventLoop
begin

text \<open>
  The threads that run event loops: \<^verbatim>\<open>net/EventLoopThread.cc\<close>, which starts a thread and hands
  the address of the loop on that thread's stack to the thread that started it, and
  \<^verbatim>\<open>net/EventLoopThreadPool.cc\<close>, which spreads connections over such loops. The hand-over is a
  transition system of the two threads; each critical section of the mutex is one step, and waiting
  on the condition variable releases the mutex in the step that found the test true.
\<close>

section \<open>EventLoopThread\<close>

text \<open>
  Where the starting thread is: before \<^verbatim>\<open>startLoop\<close>, about to take the mutex and test \<^verbatim>\<open>loop_\<close>,
  blocked in \<^verbatim>\<open>cond_.wait()\<close>, past \<^verbatim>\<open>startLoop\<close> with the pointer it returned, and in the destructor:
  about to call \<^verbatim>\<open>quit\<close> on the pointer it read, in \<^verbatim>\<open>join\<close>, and past it. Where the new thread is: not
  started, constructing the loop, about to call the callback, about to publish the loop, in
  \<^verbatim>\<open>loop()\<close>, about to reset \<^verbatim>\<open>loop_\<close>, and ended.
\<close>

datatype owner_pc = Owner_idle | Owner_test | Owner_waits | Owner_has addr | Owner_quits addr | Owner_joins | Owner_past

datatype io_pc = Io_none | Io_constructs | Io_callback | Io_publishes | Io_loops | Io_resets | Io_ended

record EventLoopThread =
  lt_loop :: "addr option"
  lt_exiting :: bool
  lt_callback :: bool
  lt_owner :: owner_pc
  lt_io :: io_pc
  lt_called :: "addr list"
  lt_quit :: "addr list"

definition EventLoopThread_new :: "bool \<Rightarrow> EventLoopThread" where
  "EventLoopThread_new cb = \<lparr>lt_loop = None, lt_exiting = False, lt_callback = cb, lt_owner = Owner_idle,
     lt_io = Io_none, lt_called = [], lt_quit = []\<rparr>"

text \<open>\<^verbatim>\<open>notify()\<close> wakes the waiting thread, if there is one.\<close>

definition notify :: "EventLoopThread \<Rightarrow> EventLoopThread" where
  "notify t = (if lt_owner t = Owner_waits then t\<lparr>lt_owner := Owner_test\<rparr> else t)"

text \<open>The steps of \<^verbatim>\<open>startLoop\<close> and of the destructor; a wait may also end without a notification.\<close>

inductive startLoop_step :: "EventLoopThread \<Rightarrow> EventLoopThread \<Rightarrow> bool" where
  start: "lt_owner t = Owner_idle \<Longrightarrow> lt_io t = Io_none \<Longrightarrow>
    startLoop_step t (t\<lparr>lt_owner := Owner_test, lt_io := Io_constructs\<rparr>)"
| test_null: "lt_owner t = Owner_test \<Longrightarrow> lt_loop t = None \<Longrightarrow> startLoop_step t (t\<lparr>lt_owner := Owner_waits\<rparr>)"
| test_set: "lt_owner t = Owner_test \<Longrightarrow> lt_loop t = Some l \<Longrightarrow> startLoop_step t (t\<lparr>lt_owner := Owner_has l\<rparr>)"
| spurious: "lt_owner t = Owner_waits \<Longrightarrow> startLoop_step t (t\<lparr>lt_owner := Owner_test\<rparr>)"

inductive dtor_step :: "EventLoopThread \<Rightarrow> EventLoopThread \<Rightarrow> bool" where
  dtor_test: "lt_owner t = Owner_has l \<or> lt_owner t = Owner_idle \<Longrightarrow>
    dtor_step t (t\<lparr>lt_exiting := True,
      lt_owner := (case lt_loop t of None \<Rightarrow> Owner_past | Some l' \<Rightarrow> Owner_quits l')\<rparr>)"
| dtor_quit: "lt_owner t = Owner_quits l \<Longrightarrow>
    dtor_step t (t\<lparr>lt_quit := lt_quit t @ [l], lt_owner := Owner_joins\<rparr>)"
| dtor_join: "lt_owner t = Owner_joins \<Longrightarrow> lt_io t = Io_ended \<Longrightarrow> dtor_step t (t\<lparr>lt_owner := Owner_past\<rparr>)"

text \<open>\<open>this\<close> is the address of the loop on the new thread's stack.\<close>

inductive threadFunc_step :: "addr \<Rightarrow> EventLoopThread \<Rightarrow> EventLoopThread \<Rightarrow> bool" where
  construct: "lt_io t = Io_constructs \<Longrightarrow>
    threadFunc_step this t (t\<lparr>lt_io := (if lt_callback t then Io_callback else Io_publishes)\<rparr>)"
| callback: "lt_io t = Io_callback \<Longrightarrow>
    threadFunc_step this t (t\<lparr>lt_called := lt_called t @ [this], lt_io := Io_publishes\<rparr>)"
| publish: "lt_io t = Io_publishes \<Longrightarrow> threadFunc_step this t (notify (t\<lparr>lt_loop := Some this, lt_io := Io_loops\<rparr>))"
| loop_ends: "lt_io t = Io_loops \<Longrightarrow> threadFunc_step this t (t\<lparr>lt_io := Io_resets\<rparr>)"
| reset: "lt_io t = Io_resets \<Longrightarrow> threadFunc_step this t (t\<lparr>lt_loop := None, lt_io := Io_ended\<rparr>)"

definition lt_step :: "addr \<Rightarrow> EventLoopThread \<Rightarrow> EventLoopThread \<Rightarrow> bool" where
  "lt_step this t t' \<longleftrightarrow> startLoop_step t t' \<or> dtor_step t t' \<or> threadFunc_step this t t'"

definition loop_alive :: "EventLoopThread \<Rightarrow> bool" where
  "loop_alive t \<longleftrightarrow> lt_io t \<in> {Io_callback, Io_publishes, Io_loops, Io_resets}"

section \<open>Invariant of the hand-over\<close>

definition lt_inv :: "addr \<Rightarrow> bool \<Rightarrow> EventLoopThread \<Rightarrow> bool" where
  "lt_inv this cb t \<longleftrightarrow>
     lt_callback t = cb \<and> (lt_io t = Io_callback \<longrightarrow> cb)
   \<and> lt_loop t = (if lt_io t \<in> {Io_loops, Io_resets} then Some this else None)
   \<and> (lt_owner t = Owner_waits \<longrightarrow> lt_io t \<notin> {Io_none, Io_loops, Io_resets})
   \<and> (lt_owner t = Owner_test \<longrightarrow> lt_io t \<noteq> Io_none)
   \<and> (lt_owner t = Owner_idle \<longrightarrow> lt_io t = Io_none)
   \<and> lt_called t = (if cb \<and> lt_io t \<in> {Io_publishes, Io_loops, Io_resets, Io_ended} then [this] else [])
   \<and> (\<forall>l. lt_owner t = Owner_has l \<longrightarrow> l = this \<and> lt_io t \<in> {Io_loops, Io_resets, Io_ended})
   \<and> (\<forall>l. lt_owner t = Owner_quits l \<longrightarrow> l = this \<and> lt_quit t = [] \<and> lt_io t \<in> {Io_loops, Io_resets, Io_ended})
   \<and> (lt_owner t \<notin> {Owner_joins, Owner_past} \<longrightarrow> lt_quit t = [])
   \<and> (lt_owner t = Owner_joins \<longrightarrow> lt_quit t = [this] \<and> lt_io t \<in> {Io_loops, Io_resets, Io_ended})
   \<and> (lt_owner t = Owner_past \<longrightarrow> lt_io t \<in> {Io_none, Io_ended})"

lemma lt_inv_new: "lt_inv this cb (EventLoopThread_new cb)"
  by (simp add: lt_inv_def EventLoopThread_new_def)

lemma lt_inv_startLoop: "startLoop_step t t' \<Longrightarrow> lt_inv this cb t \<Longrightarrow> lt_inv this cb t'"
  by (erule startLoop_step.cases; cases "lt_io t"; simp add: lt_inv_def)

lemma lt_inv_dtor: "dtor_step t t' \<Longrightarrow> lt_inv this cb t \<Longrightarrow> lt_inv this cb t'"
  by (erule dtor_step.cases; cases "lt_io t"; cases "lt_owner t"; simp add: lt_inv_def)

lemma lt_inv_threadFunc: "threadFunc_step this t t' \<Longrightarrow> lt_inv this cb t \<Longrightarrow> lt_inv this cb t'"
  by (induction rule: threadFunc_step.induct) (simp_all add: lt_inv_def notify_def)

lemma lt_inv_reachable: "(lt_step this)\<^sup>*\<^sup>* (EventLoopThread_new cb) t \<Longrightarrow> lt_inv this cb t"
proof (induction rule: rtranclp_induct)
  case base
  then show ?case by (rule lt_inv_new)
next
  case (step y z)
  then show ?case using lt_inv_startLoop lt_inv_dtor lt_inv_threadFunc by (auto simp: lt_step_def)
qed

text \<open>The new thread runs on its own up to \<^verbatim>\<open>loop()\<close>, and the starter then returns from \<^verbatim>\<open>startLoop\<close>.\<close>

lemma threadFunc_reaches_loop:
  assumes "lt_io t \<in> {Io_constructs, Io_callback, Io_publishes}" and "lt_owner t \<in> {Owner_test, Owner_waits}"
  shows "\<exists>t'. (threadFunc_step this)\<^sup>*\<^sup>* t t' \<and> lt_io t' = Io_loops \<and> lt_loop t' = Some this \<and> lt_owner t' = Owner_test"
proof -
  have pub: "\<exists>t'. (threadFunc_step this)\<^sup>*\<^sup>* t t' \<and> lt_io t' = Io_loops \<and> lt_loop t' = Some this \<and> lt_owner t' = Owner_test"
    if "lt_io t = Io_publishes" "lt_owner t \<in> {Owner_test, Owner_waits}" for t
    using that
    by (intro exI [of _ "notify (t\<lparr>lt_loop := Some this, lt_io := Io_loops\<rparr>)"] conjI r_into_rtranclp publish)
      (auto simp: notify_def)
  have cb: "\<exists>t'. (threadFunc_step this)\<^sup>*\<^sup>* t t' \<and> lt_io t' = Io_loops \<and> lt_loop t' = Some this \<and> lt_owner t' = Owner_test"
    if "lt_io t = Io_callback" "lt_owner t \<in> {Owner_test, Owner_waits}" for t
    using callback [of t this] that pub [of "t\<lparr>lt_called := lt_called t @ [this], lt_io := Io_publishes\<rparr>"]
    by (auto intro: converse_rtranclp_into_rtranclp)
  show ?thesis
  proof (cases "lt_io t = Io_constructs")
    case True
    show ?thesis
    proof (cases "lt_callback t")
      case cbt: True
      with construct [OF True, of this] cb [of "t\<lparr>lt_io := Io_callback\<rparr>"] assms show ?thesis
        by (auto intro: converse_rtranclp_into_rtranclp)
    next
      case False
      with construct [OF True, of this] pub [of "t\<lparr>lt_io := Io_publishes\<rparr>"] assms show ?thesis
        by (auto intro: converse_rtranclp_into_rtranclp)
    qed
  next
    case False
    with assms pub [of t] cb [of t] show ?thesis by blast
  qed
qed

lemma threadFunc_lt_step: "(threadFunc_step this)\<^sup>*\<^sup>* t t' \<Longrightarrow> (lt_step this)\<^sup>*\<^sup>* t t'"
  by (erule rtranclp_mono [THEN predicate2D, rotated]) (auto simp: lt_step_def)

lemma startLoop_completes:
  assumes "lt_inv this cb t" and "lt_owner t \<in> {Owner_test, Owner_waits}" and "lt_io t \<noteq> Io_ended"
    and "lt_io t \<noteq> Io_none"
  shows "\<exists>t'. (lt_step this)\<^sup>*\<^sup>* t t' \<and> lt_owner t' = Owner_has this \<and> loop_alive t'"
proof (cases "lt_io t \<in> {Io_loops, Io_resets}")
  case True
  with assms(1,2) have "lt_owner t = Owner_test" "lt_loop t = Some this" by (auto simp: lt_inv_def)
  from test_set [OF this] have "lt_step this t (t\<lparr>lt_owner := Owner_has this\<rparr>)" by (simp add: lt_step_def)
  then show ?thesis using True by (auto simp: loop_alive_def intro!: exI [of _ "t\<lparr>lt_owner := Owner_has this\<rparr>"])
next
  case False
  with assms have "lt_io t \<in> {Io_constructs, Io_callback, Io_publishes}" by (cases "lt_io t") auto
  from threadFunc_reaches_loop [OF this assms(2)] obtain t'
    where t': "(lt_step this)\<^sup>*\<^sup>* t t'" "lt_io t' = Io_loops" "lt_loop t' = Some this" "lt_owner t' = Owner_test"
    using threadFunc_lt_step by blast
  from test_set [OF t'(4,3)] have "lt_step this t' (t'\<lparr>lt_owner := Owner_has this\<rparr>)" by (simp add: lt_step_def)
  with t'(1) have "(lt_step this)\<^sup>*\<^sup>* t (t'\<lparr>lt_owner := Owner_has this\<rparr>)" by (rule rtranclp.rtrancl_into_rtrancl)
  then show ?thesis using t'(2) by (auto simp: loop_alive_def intro!: exI [of _ "t'\<lparr>lt_owner := Owner_has this\<rparr>"])
qed

section \<open>EventLoopThreadPool\<close>

record EventLoopThreadPool =
  tp_baseLoop :: addr
  tp_name :: string
  tp_started :: bool
  tp_numThreads :: int
  tp_next :: int
  tp_threads :: "string list"
  tp_loops :: "addr list"

definition EventLoopThreadPool_new :: "addr \<Rightarrow> string \<Rightarrow> EventLoopThreadPool" where
  "EventLoopThreadPool_new baseLoop nameArg = \<lparr>tp_baseLoop = baseLoop, tp_name = nameArg, tp_started = False,
     tp_numThreads = 0, tp_next = 0, tp_threads = [], tp_loops = []\<rparr>"

definition tp_setThreadNum :: "int \<Rightarrow> EventLoopThreadPool \<Rightarrow> EventLoopThreadPool" where
  "tp_setThreadNum numThreads p = p\<lparr>tp_numThreads := numThreads\<rparr>"

text \<open>
  The body of the loop of \<^verbatim>\<open>start\<close>; \<open>startLoop\<close> creates a thread of that name and returns its loop.
  The thread, kept by a pointer, is represented by its name.
\<close>

definition start_thread ::
  "(string \<Rightarrow> 'w \<Rightarrow> (addr \<times> 'w) outcome) \<Rightarrow> int \<Rightarrow> EventLoopThreadPool \<times> 'w \<Rightarrow> (EventLoopThreadPool \<times> 'w) outcome" where
  "start_thread startLoop i s = (case s of (p, w) \<Rightarrow>
     let buf = tp_name p @ dec_int i; p1 = p\<lparr>tp_threads := tp_threads p @ [buf]\<rparr>
     in andThen (startLoop buf w) (\<lambda>(l, w'). Inr (p1\<lparr>tp_loops := tp_loops p1 @ [l]\<rparr>, w')))"

text \<open>\<open>cb\<close> is the initialisation callback, \<open>None\<close> for an empty function.\<close>

definition tp_start ::
  "bool \<Rightarrow> (string \<Rightarrow> 'w \<Rightarrow> (addr \<times> 'w) outcome) \<Rightarrow> (addr \<Rightarrow> 'w \<Rightarrow> 'w outcome) option
     \<Rightarrow> EventLoopThreadPool \<Rightarrow> 'w \<Rightarrow> (EventLoopThreadPool \<times> 'w) outcome" where
  "tp_start inLoop startLoop cb p w =
     assert_that (\<not> tp_started p) ''!started_'' (assertInLoopThread inLoop
       (andThen (for_each (start_thread startLoop) [0..tp_numThreads p - 1] (p\<lparr>tp_started := True\<rparr>, w)) (\<lambda>(p', w').
          case cb of
            Some f \<Rightarrow> if tp_numThreads p' = 0 then andThen (f (tp_baseLoop p') w') (\<lambda>w''. Inr (p', w'')) else Inr (p', w')
          | None \<Rightarrow> Inr (p', w'))))"

definition getNextLoop :: "bool \<Rightarrow> EventLoopThreadPool \<Rightarrow> (addr \<times> EventLoopThreadPool) outcome" where
  "getNextLoop inLoop p = assertInLoopThread inLoop (assert_that (tp_started p) ''started_''
     (if tp_loops p \<noteq> [] then
        (if 0 \<le> tp_next p \<and> nat (tp_next p) < length (tp_loops p) then
           let loop = tp_loops p ! nat (tp_next p); next' = tp_next p + 1
           in Inr (loop, p\<lparr>tp_next := (if int_to_size next' \<ge> length (tp_loops p) then 0 else next')\<rparr>)
         else Inl Out_of_bounds)
      else Inr (tp_baseLoop p, p)))"

definition getLoopForHash :: "bool \<Rightarrow> nat \<Rightarrow> EventLoopThreadPool \<Rightarrow> addr outcome" where
  "getLoopForHash inLoop hashCode p = assertInLoopThread inLoop
     (Inr (if tp_loops p \<noteq> [] then tp_loops p ! (hashCode mod length (tp_loops p)) else tp_baseLoop p))"

definition getAllLoops :: "bool \<Rightarrow> EventLoopThreadPool \<Rightarrow> addr list outcome" where
  "getAllLoops inLoop p = assertInLoopThread inLoop (assert_that (tp_started p) ''started_''
     (Inr (if tp_loops p = [] then [tp_baseLoop p] else tp_loops p)))"

text \<open>Successive calls.\<close>

fun getNextLoops :: "nat \<Rightarrow> EventLoopThreadPool \<Rightarrow> (addr list \<times> EventLoopThreadPool) outcome" where
  "getNextLoops 0 p = Inr ([], p)"
| "getNextLoops (Suc k) p = andThen (getNextLoop True p) (\<lambda>(l, p').
     andThen (getNextLoops k p') (\<lambda>(ls, p''). Inr (l # ls, p'')))"

section \<open>Round robin\<close>

text \<open>The pool after \<^verbatim>\<open>start\<close>: the next index is inside the vector, and the vector is not absurdly long.\<close>

definition tp_wf :: "EventLoopThreadPool \<Rightarrow> bool" where
  "tp_wf p \<longleftrightarrow> tp_started p \<and> 0 \<le> tp_next p \<and> (tp_loops p \<noteq> [] \<longrightarrow> tp_next p < int (length (tp_loops p)))
     \<and> length (tp_loops p) < 2 ^ 31"

definition pool_loops :: "EventLoopThreadPool \<Rightarrow> addr list" where
  "pool_loops p = (if tp_loops p = [] then [tp_baseLoop p] else tp_loops p)"

definition pool_index :: "EventLoopThreadPool \<Rightarrow> nat" where
  "pool_index p = (if tp_loops p = [] then 0 else nat (tp_next p))"

lemma pool_loops_nonempty [simp]: "0 < length (pool_loops p)"
  by (simp add: pool_loops_def)

lemma getNextLoop_wf:
  assumes "tp_wf p"
  shows "\<exists>p'. getNextLoop True p = Inr (pool_loops p ! pool_index p, p') \<and> tp_wf p' \<and> pool_loops p' = pool_loops p
           \<and> pool_index p' = (pool_index p + 1) mod length (pool_loops p)"
proof (cases "tp_loops p = []")
  case True
  with assms show ?thesis by (auto simp: getNextLoop_def tp_wf_def pool_loops_def pool_index_def)
next
  case False
  with assms obtain n where n: "tp_next p = int n" "n < length (tp_loops p)" "length (tp_loops p) < 2 ^ 31"
    by (auto simp: tp_wf_def intro: that [of "nat (tp_next p)"])
  then have "int_to_size (int n + 1) = n + 1" using int_to_size_of_nat [of "n + 1"] by (simp add: add.commute)
  with n False assms show ?thesis
    by (auto simp: getNextLoop_def tp_wf_def pool_loops_def pool_index_def Let_def nat_add_distrib mod_if)
qed

lemma getNextLoops_wf:
  assumes "tp_wf p"
  shows "\<exists>p'. getNextLoops k p =
           Inr (map (\<lambda>i. pool_loops p ! ((pool_index p + i) mod length (pool_loops p))) [0..<k], p')
           \<and> tp_wf p' \<and> pool_loops p' = pool_loops p"
  using assms
proof (induction k arbitrary: p)
  case 0
  then show ?case by simp
next
  case (Suc k)
  from getNextLoop_wf [OF Suc.prems] obtain p' where p': "getNextLoop True p = Inr (pool_loops p ! pool_index p, p')"
    "tp_wf p'" "pool_loops p' = pool_loops p" "pool_index p' = (pool_index p + 1) mod length (pool_loops p)"
    by blast
  have "pool_index p < length (pool_loops p)"
    using Suc.prems by (auto simp: tp_wf_def pool_index_def pool_loops_def)
  with Suc.IH [OF p'(2)] p' show ?case
    by (auto simp: upt_conv_Cons map_Suc_upt [symmetric] mod_add_left_eq simp del: upt_Suc)
qed

text \<open>Starting \<open>n\<close> threads appends the loop of each, in order.\<close>

lemma start_threads:
  assumes "\<And>i w. i \<in> set is \<Longrightarrow> \<exists>w'. startLoop (tp_name p @ dec_int i) w = Inr (f i, w')"
  shows "\<exists>w'. for_each (start_thread startLoop) is (p, w) =
    Inr (p\<lparr>tp_threads := tp_threads p @ map (\<lambda>i. tp_name p @ dec_int i) is, tp_loops := tp_loops p @ map f is\<rparr>, w')"
  using assms
proof (induction "is" arbitrary: p w)
  case Nil
  then show ?case by simp
next
  case (Cons i "is")
  from Cons.prems [of i w] obtain w1 where w1: "startLoop (tp_name p @ dec_int i) w = Inr (f i, w1)" by auto
  let ?p = "p\<lparr>tp_threads := tp_threads p @ [tp_name p @ dec_int i], tp_loops := tp_loops p @ [f i]\<rparr>"
  from Cons.IH [of ?p w1] Cons.prems obtain w2 where
    "for_each (start_thread startLoop) is (?p, w1) =
       Inr (?p\<lparr>tp_threads := tp_threads ?p @ map (\<lambda>i. tp_name p @ dec_int i) is, tp_loops := tp_loops ?p @ map f is\<rparr>, w2)"
    by auto
  moreover from w1 have "start_thread startLoop i (p, w) = Inr (?p, w1)" by (simp add: start_thread_def Let_def)
  ultimately show ?case by simp
qed

lemma pool_started:
  assumes start: "\<And>i w. \<exists>w'. startLoop (name @ dec_int i) w = Inr (f i, w')" and "n < 2 ^ 31"
  shows "\<exists>p w'. tp_start True startLoop None (tp_setThreadNum n (EventLoopThreadPool_new base name)) w = Inr (p, w')
    \<and> tp_threads p = map (\<lambda>i. name @ dec_int i) [0..n - 1] \<and> tp_loops p = map f [0..n - 1]
    \<and> tp_baseLoop p = base \<and> tp_next p = 0 \<and> tp_wf p"
proof -
  let ?p = "tp_setThreadNum n (EventLoopThreadPool_new base name)"
  have p: "\<not> tp_started ?p" "tp_numThreads ?p = n" "tp_name ?p = name" "tp_threads ?p = []" "tp_loops ?p = []"
    "tp_baseLoop ?p = base" "tp_next ?p = 0"
    by (simp_all add: tp_setThreadNum_def EventLoopThreadPool_new_def)
  from start_threads [of "[0..n - 1]" startLoop "?p\<lparr>tp_started := True\<rparr>" f w] start p obtain w' where
    "for_each (start_thread startLoop) [0..n - 1] (?p\<lparr>tp_started := True\<rparr>, w) =
      Inr (?p\<lparr>tp_started := True, tp_threads := map (\<lambda>i. name @ dec_int i) [0..n - 1], tp_loops := map f [0..n - 1]\<rparr>, w')"
    by auto
  with p assms(2) show ?thesis by (auto simp: tp_start_def tp_wf_def)
qed

section \<open>Runs of the two threads\<close>

lemma lt_invD:
  assumes "lt_inv this cb t"
  shows "lt_owner t = Owner_has l \<Longrightarrow> l = this \<and> lt_called t = (if cb then [this] else [])"
    and "lt_owner t = Owner_waits \<Longrightarrow> lt_io t \<in> {Io_constructs, Io_callback, Io_publishes, Io_ended}"
    and "lt_owner t \<in> {Owner_test, Owner_waits} \<Longrightarrow> lt_io t \<noteq> Io_none"
    and "lt_owner t = Owner_past \<Longrightarrow> \<not> loop_alive t"
proof -
  show "lt_owner t = Owner_has l \<Longrightarrow> l = this \<and> lt_called t = (if cb then [this] else [])"
    using assms by (simp add: lt_inv_def)
  show "lt_owner t = Owner_waits \<Longrightarrow> lt_io t \<in> {Io_constructs, Io_callback, Io_publishes, Io_ended}"
    using assms by (cases "lt_io t"; simp add: lt_inv_def)
  show "lt_owner t \<in> {Owner_test, Owner_waits} \<Longrightarrow> lt_io t \<noteq> Io_none"
    using assms by (cases "lt_owner t"; simp add: lt_inv_def)
  show "lt_owner t = Owner_past \<Longrightarrow> \<not> loop_alive t"
    using assms by (cases "lt_io t"; simp add: lt_inv_def loop_alive_def)
qed

text \<open>The states of a run in which the starter has not begun the destructor.\<close>

definition lt_state :: "bool \<Rightarrow> addr \<Rightarrow> owner_pc \<Rightarrow> io_pc \<Rightarrow> EventLoopThread" where
  "lt_state cb this ow io = \<lparr>lt_loop = (if io \<in> {Io_loops, Io_resets} then Some this else None), lt_exiting = False,
     lt_callback = cb, lt_owner = ow, lt_io = io,
     lt_called = (if cb \<and> io \<in> {Io_publishes, Io_loops, Io_resets, Io_ended} then [this] else []), lt_quit = []\<rparr>"

lemma lt_state_steps:
  "lt_step this (lt_state cb this Owner_idle Io_none) (lt_state cb this Owner_test Io_constructs)"
  "io \<notin> {Io_loops, Io_resets} \<Longrightarrow> lt_step this (lt_state cb this Owner_test io) (lt_state cb this Owner_waits io)"
  "lt_step this (lt_state cb this ow Io_constructs) (lt_state cb this ow (if cb then Io_callback else Io_publishes))"
  "cb \<Longrightarrow> lt_step this (lt_state cb this ow Io_callback) (lt_state cb this ow Io_publishes)"
  "lt_step this (lt_state cb this Owner_waits Io_publishes) (lt_state cb this Owner_test Io_loops)"
  "lt_step this (lt_state cb this ow Io_loops) (lt_state cb this ow Io_resets)"
  "lt_step this (lt_state cb this ow Io_resets) (lt_state cb this ow Io_ended)"
  unfolding lt_step_def
  subgoal using startLoop_step.start [of "lt_state cb this Owner_idle Io_none"] by (simp add: lt_state_def)
  subgoal using startLoop_step.test_null [of "lt_state cb this Owner_test io"] by (simp add: lt_state_def)
  subgoal using threadFunc_step.construct [of "lt_state cb this ow Io_constructs" this] by (cases cb) (simp_all add: lt_state_def)
  subgoal using threadFunc_step.callback [of "lt_state cb this ow Io_callback" this] by (simp add: lt_state_def)
  subgoal using threadFunc_step.publish [of "lt_state cb this Owner_waits Io_publishes" this] by (simp add: lt_state_def notify_def)
  subgoal using threadFunc_step.loop_ends [of "lt_state cb this ow Io_loops" this] by (simp add: lt_state_def)
  subgoal using threadFunc_step.reset [of "lt_state cb this ow Io_resets" this] by (simp add: lt_state_def)
  done

lemmas lt_state_runs = lt_state_steps [THEN r_into_rtranclp [of "lt_step _"]]

lemma waiting_reachable: "(lt_step this)\<^sup>*\<^sup>* (EventLoopThread_new cb) (lt_state cb this Owner_waits Io_publishes)"
proof -
  have "EventLoopThread_new cb = lt_state cb this Owner_idle Io_none" by (simp add: EventLoopThread_new_def lt_state_def)
  also note lt_state_runs(1)
  also have "(lt_step this)\<^sup>*\<^sup>* (lt_state cb this Owner_test Io_constructs) (lt_state cb this Owner_waits Io_constructs)"
    by (rule lt_state_runs) simp
  also have "(lt_step this)\<^sup>*\<^sup>* \<dots> (lt_state cb this Owner_waits (if cb then Io_callback else Io_publishes))"
    by (rule lt_state_runs)
  also have "(lt_step this)\<^sup>*\<^sup>* \<dots> (lt_state cb this Owner_waits Io_publishes)"
    using lt_state_runs(4) [of cb this Owner_waits] by (cases cb) simp_all
  finally show ?thesis .
qed

lemma missed_reachable: "(lt_step this)\<^sup>*\<^sup>* (EventLoopThread_new cb) (lt_state cb this Owner_waits Io_ended)"
proof -
  note waiting_reachable [of this cb]
  also note lt_state_runs(5)
  also note lt_state_runs(6)
  also note lt_state_runs(7)
  also have "(lt_step this)\<^sup>*\<^sup>* (lt_state cb this Owner_test Io_ended) (lt_state cb this Owner_waits Io_ended)"
    by (rule lt_state_runs) simp
  finally show ?thesis .
qed

lemma missed_stuck:
  assumes "(lt_step this)\<^sup>*\<^sup>* (lt_state cb this Owner_waits Io_ended) t"
  shows "lt_owner t \<in> {Owner_waits, Owner_test}"
proof -
  from assms have "lt_owner t \<in> {Owner_waits, Owner_test} \<and> lt_io t = Io_ended \<and> lt_loop t = None"
  proof (induction rule: rtranclp_induct)
    case base
    then show ?case by (simp add: lt_state_def)
  next
    case (step y z)
    from step.hyps(2) step.IH show ?case
      unfolding lt_step_def by (elim disjE startLoop_step.cases dtor_step.cases threadFunc_step.cases) simp_all
  qed
  then show ?thesis ..
qed

section \<open>Properties\<close>



text \<open>The hand-over tests a pointer that the new thread resets when its loop ends. A loop that ends
  before the starter has taken the mutex leaves the starter blocked for ever: such a state is
  reachable, and from it \<^verbatim>\<open>startLoop\<close> never returns.\<close>

theorem startLoop_misses_short_loop:
  "\<exists>t. (lt_step this)\<^sup>*\<^sup>* (EventLoopThread_new cb) t \<and> lt_owner t = Owner_waits
     \<and> {lt_owner t' |t'. (lt_step this)\<^sup>*\<^sup>* t t'} \<subseteq> {Owner_waits, Owner_test}"
proof (intro exI conjI subsetI)
  show "(lt_step this)\<^sup>*\<^sup>* (EventLoopThread_new cb) (lt_state cb this Owner_waits Io_ended)" by (rule missed_reachable)
  show "lt_owner (lt_state cb this Owner_waits Io_ended) = Owner_waits" by (simp add: lt_state_def)
  show "x \<in> {Owner_waits, Owner_test}" if "x \<in> {lt_owner t' |t'. (lt_step this)\<^sup>*\<^sup>* (lt_state cb this Owner_waits Io_ended) t'}" for x
    using that missed_stuck by blast
qed

text \<open>A pool set to \<open>n\<close> threads and started owns \<open>n\<close> loops, named after the pool and their number,
  and the \<open>k\<close>-th call of \<^verbatim>\<open>getNextLoop\<close> after that returns loop \<open>k mod n\<close>, the base loop when there is no
  thread: any \<open>n\<close> successive connections go to \<open>n\<close> different loops. \<^verbatim>\<open>getLoopForHash\<close> depends on the hash
  code alone, and both return loops listed by \<^verbatim>\<open>getAllLoops\<close>.\<close>

theorem pool_round_robin:
  assumes "\<And>i w. \<exists>w'. startLoop (name @ dec_int i) w = Inr (f i, w')" and "0 \<le> n" and "n < 2 ^ 31"
  shows "\<exists>p w'. tp_start True startLoop None (tp_setThreadNum n (EventLoopThreadPool_new base name)) w = Inr (p, w')
    \<and> tp_threads p = map (\<lambda>i. name @ dec_int i) [0..n - 1]
    \<and> getAllLoops True p = Inr (if n = 0 then [base] else map f [0..n - 1])
    \<and> (\<exists>p'. getNextLoops k p = Inr (map (\<lambda>i. if n = 0 then base else f (int i mod n)) [0..<k], p'))
    \<and> getLoopForHash True h p = Inr (if n = 0 then base else f (int h mod n))"
proof -
  from pool_started [of startLoop name f n base w, OF assms(1,3)] obtain p w' where
    start: "tp_start True startLoop None (tp_setThreadNum n (EventLoopThreadPool_new base name)) w = Inr (p, w')"
      "tp_threads p = map (\<lambda>i. name @ dec_int i) [0..n - 1]" and
    p: "tp_loops p = map f [0..n - 1]" "tp_baseLoop p = base" "tp_next p = 0" "tp_wf p" by blast
  have nth: "pool_loops p ! (i mod length (pool_loops p)) = (if n = 0 then base else f (int i mod n))" for i
  proof (cases "n = 0")
    case False
    then obtain m where m: "n = int m" "0 < m" using assms(2) by (metis nonneg_int_cases of_nat_0_less_iff order_less_le)
    then have "nth [0..int m - 1] (i mod m) = int (i mod m)" by (subst nth_upto) auto
    with m p(1) show ?thesis by (simp add: pool_loops_def zmod_int)
  qed (simp add: pool_loops_def p)
  from getNextLoops_wf [OF p(4), of k] obtain p' where
    "getNextLoops k p = Inr (map (\<lambda>i. pool_loops p ! (i mod length (pool_loops p))) [0..<k], p')"
    by (auto simp: pool_index_def p(3))
  then have next_k: "getNextLoops k p = Inr (map (\<lambda>i. if n = 0 then base else f (int i mod n)) [0..<k], p')"
    by (simp add: nth cong: map_cong)
  have "getLoopForHash True h p = Inr (pool_loops p ! (h mod length (pool_loops p)))"
    by (simp add: getLoopForHash_def pool_loops_def)
  then have hash: "getLoopForHash True h p = Inr (if n = 0 then base else f (int h mod n))" by (simp add: nth)
  have "getAllLoops True p = Inr (if n = 0 then [base] else map f [0..n - 1])"
    using p assms(2) by (auto simp: getAllLoops_def tp_wf_def)
  with start next_k hash show ?thesis by blast
qed

theorem pool_round_robin_witness:
  "\<exists>p w'. tp_start True (\<lambda>nm w. Inr (1000 + undec (drop 2 nm), w + 1)) None
       (tp_setThreadNum 3 (EventLoopThreadPool_new 50 ''io'')) (0 :: nat) = Inr (p, w')
     \<and> getAllLoops True p = Inr [1000, 1001, 1002]
     \<and> (\<exists>p'. getNextLoops 4 p = Inr ([1000, 1001, 1002, 1000], p')) \<and> getLoopForHash True 5 p = Inr 1002"
  using pool_round_robin [of "\<lambda>nm w. Inr (1000 + undec (drop 2 nm), w + 1)" "''io''" "\<lambda>i. 1000 + undec (dec_int i)" 3 50
      "0 :: nat" 4 5]
  by (simp add: dec_int_def undec_dec_nat upto.simps upt_rec) blast

end
