(* ===== verification/Muduo_TcpServer.thy ===== *)
theory Muduo_TcpServer
  imports Muduo_LoopThreads Muduo_TcpConnection
begin

text \<open>
  Servers: \<^verbatim>\<open>net/Acceptor.cc\<close> and \<^verbatim>\<open>net/TcpServer.cc\<close>. The acceptor turns readiness of the listening
  socket into new connections; the server names them, keeps them in a map, spreads them over the loops
  of its pool, and sees to it that each is established and destroyed in its own loop. System calls are
  arguments. What the server asks of the loops with \<^verbatim>\<open>runInLoop\<close> and \<^verbatim>\<open>queueInLoop\<close> is recorded in order
  in a list of functors with the loop they go to; \<^verbatim>\<open>runInLoop\<close> runs the functor on the spot when the
  caller is in the loop's thread and queues it otherwise, and \<open>Muduo_EventLoop\<close> shows that queued functors
  run once and in order. Log lines are left out.
\<close>

section \<open>Acceptor\<close>

record Acceptor =
  ac_loop :: addr
  ac_socket :: int
  ac_channel :: addr
  ac_newConnectionCallback :: bool
  ac_listening :: bool
  ac_idleFd :: int

text \<open>\<open>open_null\<close> opens \<^verbatim>\<open>/dev/null\<close>; its result is negative when there is no descriptor left.\<close>

definition Acceptor_new ::
  "(nat \<Rightarrow> 'k \<Rightarrow> (errno + int) \<times> 'k) \<Rightarrow> 'k setsockopt \<Rightarrow> (int \<Rightarrow> InetAddress \<Rightarrow> 'k \<Rightarrow> bool \<times> 'k) \<Rightarrow> ('k \<Rightarrow> int \<times> 'k)
     \<Rightarrow> addr \<Rightarrow> InetAddress \<Rightarrow> bool \<Rightarrow> addr \<Rightarrow> chans \<Rightarrow> 'k \<Rightarrow> (Acceptor \<times> chans \<times> 'k) outcome" where
  "Acceptor_new socket setsockopt bind open_null loop listenAddr reuseport a h k =
     andThen (createNonblockingOrDie socket (sa_family listenAddr) k) (\<lambda>(fd, k1). case open_null k1 of (idle, k2) \<Rightarrow>
       assert_that (idle \<ge> 0) ''idleFd_ >= 0''
         (let k3 = setReusePort setsockopt fd reuseport (setReuseAddr setsockopt fd True k2)
          in andThen (bindOrDie bind fd listenAddr k3) (\<lambda>k4.
               Inr (\<lparr>ac_loop = loop, ac_socket = fd, ac_channel = a, ac_newConnectionCallback = False,
                      ac_listening = False, ac_idleFd = idle\<rparr>,
                    h(a \<mapsto> setReadCallback (Channel_new loop fd)), k4))))"

definition Acceptor_delete ::
  "'p chan_call \<Rightarrow> 'p chan_call \<Rightarrow> (int \<Rightarrow> 'k \<Rightarrow> 'k) \<Rightarrow> Acceptor \<Rightarrow> 'p \<times> chans \<Rightarrow> 'k \<Rightarrow> (('p \<times> chans) \<times> 'k) outcome" where
  "Acceptor_delete upd rem close ac s k =
     andThen (disableAll upd (ac_channel ac) s) (\<lambda>s1.
       andThen (Channel_remove rem (ac_channel ac) s1) (\<lambda>s2. Inr (s2, close (ac_idleFd ac) k)))"

definition Acceptor_listen ::
  "bool \<Rightarrow> 'p chan_call \<Rightarrow> (int \<Rightarrow> 'k \<Rightarrow> bool \<times> 'k) \<Rightarrow> Acceptor \<Rightarrow> 'p \<times> chans \<Rightarrow> 'k \<Rightarrow> (Acceptor \<times> ('p \<times> chans) \<times> 'k) outcome" where
  "Acceptor_listen inLoop upd listen ac s k = assertInLoopThread inLoop
     (let ac1 = ac\<lparr>ac_listening := True\<rparr>
      in andThen (listenOrDie listen (ac_socket ac1) k) (\<lambda>k1.
           andThen (enableReading upd (ac_channel ac1) s) (\<lambda>s1. Inr (ac1, s1, k1))))"

text \<open>
  When the process is out of descriptors the connection cannot be accepted and the listening socket stays
  readable. The spare descriptor is given up to accept the connection and close it at once.
\<close>

definition drop_connection ::
  "(int \<Rightarrow> 'k \<Rightarrow> 'k) \<Rightarrow> (int \<Rightarrow> 'k \<Rightarrow> (errno + int \<times> InetAddress) \<times> 'k) \<Rightarrow> ('k \<Rightarrow> int \<times> 'k) \<Rightarrow> Acceptor \<Rightarrow> 'k \<Rightarrow> Acceptor \<times> 'k" where
  "drop_connection close accept open_null ac k =
     (let k1 = close (ac_idleFd ac) k;
          (r, k2) = accept (ac_socket ac) k1;
          fd = (case r of Inr (fd, _) \<Rightarrow> fd | Inl e \<Rightarrow> -1);
          k3 = close fd k2;
          (idle, k4) = open_null k3
      in (ac\<lparr>ac_idleFd := idle\<rparr>, k4))"

text \<open>\<open>newConnection\<close> is the callback the server installed.\<close>

definition Acceptor_handleRead ::
  "bool \<Rightarrow> (int \<Rightarrow> 'k \<Rightarrow> 'k) \<Rightarrow> (int \<Rightarrow> 'k \<Rightarrow> (errno + int \<times> InetAddress) \<times> 'k) \<Rightarrow> ('k \<Rightarrow> int \<times> 'k)
     \<Rightarrow> (int \<Rightarrow> InetAddress \<Rightarrow> 'w \<Rightarrow> 'w outcome) \<Rightarrow> Acceptor \<Rightarrow> 'w \<Rightarrow> 'k \<Rightarrow> (Acceptor \<times> 'w \<times> 'k) outcome" where
  "Acceptor_handleRead inLoop close accept open_null newConnection ac w k = assertInLoopThread inLoop
     (andThen (Socket_accept accept (ac_socket ac) memZero k) (\<lambda>(r, peerAddr, k1).
        case r of
          Inr connfd \<Rightarrow>
            if ac_newConnectionCallback ac then andThen (newConnection connfd peerAddr w) (\<lambda>w'. Inr (ac, w', k1))
            else Inr (ac, w, close connfd k1)
        | Inl err \<Rightarrow>
            if err = EMFILE then (case drop_connection close accept open_null ac k1 of (ac', k2) \<Rightarrow> Inr (ac', w, k2))
            else Inr (ac, w, k1)))"

section \<open>TcpServer\<close>

datatype server_functor =
    Acceptor_listens
  | ConnectEstablished addr
  | ConnectDestroyed addr
  | RemoveConnectionInLoop addr

text \<open>
  \<open>sv_conns\<close> are the connection objects by address, \<open>sv_connections\<close> the server's map of them by name and
  \<open>sv_dispatched\<close> the functors given to loops so far.
\<close>

record TcpServer =
  sv_loop :: addr
  sv_ipPort :: string
  sv_name :: string
  sv_listening :: bool
  sv_threadPool :: EventLoopThreadPool
  sv_writeCompleteCallback :: bool
  sv_started :: int
  sv_nextConnId :: int
  sv_connections :: "string \<Rightarrow> addr option"
  sv_conns :: "addr \<Rightarrow> TcpConnection option"
  sv_dispatched :: "(addr \<times> server_functor) list"

definition TcpServer_new :: "addr \<Rightarrow> string \<Rightarrow> string \<Rightarrow> TcpServer" where
  "TcpServer_new loop ipPort nameArg = \<lparr>sv_loop = loop, sv_ipPort = ipPort, sv_name = nameArg, sv_listening = False,
     sv_threadPool = EventLoopThreadPool_new loop nameArg, sv_writeCompleteCallback = False, sv_started = 0, sv_nextConnId = 1,
     sv_connections = Map.empty, sv_conns = Map.empty, sv_dispatched = []\<rparr>"

definition dispatch_to :: "addr \<Rightarrow> server_functor \<Rightarrow> TcpServer \<Rightarrow> TcpServer" where
  "dispatch_to loop f sv = sv\<lparr>sv_dispatched := sv_dispatched sv @ [(loop, f)]\<rparr>"

definition TcpServer_setThreadNum :: "int \<Rightarrow> TcpServer \<Rightarrow> TcpServer outcome" where
  "TcpServer_setThreadNum numThreads sv = assert_that (0 \<le> numThreads) ''0 <= numThreads''
     (Inr (sv\<lparr>sv_threadPool := tp_setThreadNum numThreads (sv_threadPool sv)\<rparr>))"

definition TcpServer_start ::
  "bool \<Rightarrow> (string \<Rightarrow> 'w \<Rightarrow> (addr \<times> 'w) outcome) \<Rightarrow> (addr \<Rightarrow> 'w \<Rightarrow> 'w outcome) option \<Rightarrow> TcpServer \<Rightarrow> 'w \<Rightarrow> (TcpServer \<times> 'w) outcome" where
  "TcpServer_start inLoop startLoop threadInitCallback sv w =
     (let sv1 = sv\<lparr>sv_started := 1\<rparr> in
      if sv_started sv = 0 then
        andThen (tp_start inLoop startLoop threadInitCallback (sv_threadPool sv1) w) (\<lambda>(pool, w').
          assert_that (\<not> sv_listening sv1) ''!acceptor_->listening()''
            (Inr (dispatch_to (sv_loop sv1) Acceptor_listens (sv1\<lparr>sv_threadPool := pool\<rparr>), w')))
      else Inr (sv1, w))"

text \<open>The name of the next connection: the buffer for its second part has 64 bytes.\<close>

definition conn_name :: "TcpServer \<Rightarrow> string" where
  "conn_name sv = sv_name sv @ snprintf 64 (''-'' @ sv_ipPort sv @ ''#'' @ dec_int (sv_nextConnId sv))"

text \<open>\<open>a\<close> and \<open>ch\<close> are the addresses of the new connection and of its channel.\<close>

definition TcpServer_newConnection ::
  "bool \<Rightarrow> (int \<Rightarrow> InetAddress option) \<Rightarrow> addr \<Rightarrow> addr \<Rightarrow> int \<Rightarrow> InetAddress \<Rightarrow> TcpServer \<times> chans \<Rightarrow> (TcpServer \<times> chans) outcome" where
  "TcpServer_newConnection inLoop getsockname a ch sockfd peerAddr s = (case s of (sv, h) \<Rightarrow> assertInLoopThread inLoop
     (andThen (getNextLoop inLoop (sv_threadPool sv)) (\<lambda>(ioLoop, pool).
        let connName = conn_name sv;
            sv1 = sv\<lparr>sv_threadPool := pool, sv_nextConnId := sv_nextConnId sv + 1\<rparr>;
            localAddr = getLocalAddr getsockname sockfd
        in andThen (TcpConnection_new ioLoop connName sockfd localAddr peerAddr ch h) (\<lambda>(conn, h').
             let conn' = (if sv_writeCompleteCallback sv1 then setWriteCompleteCallback conn else conn);
                 sv2 = sv1\<lparr>sv_connections := (sv_connections sv1)(connName \<mapsto> a), sv_conns := (sv_conns sv1)(a \<mapsto> conn')\<rparr>
             in Inr (dispatch_to ioLoop (ConnectEstablished a) sv2, h')))))"

definition removeConnection :: "addr \<Rightarrow> TcpServer \<Rightarrow> TcpServer" where
  "removeConnection conn sv = dispatch_to (sv_loop sv) (RemoveConnectionInLoop conn) sv"

definition removeConnectionInLoop :: "bool \<Rightarrow> addr \<Rightarrow> TcpServer \<Rightarrow> TcpServer outcome" where
  "removeConnectionInLoop inLoop conn sv = assertInLoopThread inLoop (case sv_conns sv conn of
       None \<Rightarrow> Inl Bad_pointer
     | Some c \<Rightarrow>
         let n = (case sv_connections sv (tc_name c) of None \<Rightarrow> 0 | Some _ \<Rightarrow> (1 :: nat));
             sv1 = sv\<lparr>sv_connections := (sv_connections sv)(tc_name c := None)\<rparr>
         in assert_that (n = 1) ''n == 1'' (Inr (dispatch_to (tc_loop c) (ConnectDestroyed conn) sv1)))"

text \<open>The destructor visits the map in the order \<open>names\<close> of its keys.\<close>

definition destroy_item :: "string \<Rightarrow> TcpServer \<Rightarrow> TcpServer outcome" where
  "destroy_item name sv = (case sv_connections sv name of
       None \<Rightarrow> Inr sv
     | Some conn \<Rightarrow> (case sv_conns sv conn of
           None \<Rightarrow> Inl Bad_pointer
         | Some c \<Rightarrow> Inr (dispatch_to (tc_loop c) (ConnectDestroyed conn) (sv\<lparr>sv_connections := (sv_connections sv)(name := None)\<rparr>))))"

definition TcpServer_delete :: "bool \<Rightarrow> string list \<Rightarrow> TcpServer \<Rightarrow> TcpServer outcome" where
  "TcpServer_delete inLoop names sv = assertInLoopThread inLoop (for_each destroy_item names sv)"

section \<open>The life of the connections of a server\<close>

fun about :: "addr \<Rightarrow> addr \<times> server_functor \<Rightarrow> bool" where
  "about a (l, Acceptor_listens) = False"
| "about a (l, ConnectEstablished b) = (b = a)"
| "about a (l, ConnectDestroyed b) = (b = a)"
| "about a (l, RemoveConnectionInLoop b) = (b = a)"

definition life :: "addr \<Rightarrow> TcpServer \<Rightarrow> (addr \<times> server_functor) list" where
  "life a sv = filter (about a) (sv_dispatched sv)"

text \<open>
  The steps of a running server: the acceptor hands it a connection, at addresses not in use; a
  connection is closed and calls the close callback, which it does once; and the server's loop
  executes \<^verbatim>\<open>removeConnectionInLoop\<close> for it. Connection numbers are \<^verbatim>\<open>int\<close>s.
\<close>

inductive server_step :: "TcpServer \<times> chans \<Rightarrow> TcpServer \<times> chans \<Rightarrow> bool" where
  accepted: "sv_conns sv a = None \<Longrightarrow> sv_nextConnId sv < 2 ^ 31 - 1 \<Longrightarrow>
    TcpServer_newConnection True getsockname a ch sockfd peerAddr (sv, h) = Inr s' \<Longrightarrow> server_step (sv, h) s'"
| closed: "sv_conns sv a = Some c \<Longrightarrow> (sv_loop sv, RemoveConnectionInLoop a) \<notin> set (sv_dispatched sv) \<Longrightarrow>
    server_step (sv, h) (removeConnection a sv, h)"
| removed: "(sv_loop sv, RemoveConnectionInLoop a) \<in> set (sv_dispatched sv) \<Longrightarrow>
    \<not> (\<exists>l. (l, ConnectDestroyed a) \<in> set (sv_dispatched sv)) \<Longrightarrow>
    removeConnectionInLoop True a sv = Inr sv' \<Longrightarrow> server_step (sv, h) (sv', h)"

definition nth_name :: "TcpServer \<Rightarrow> int \<Rightarrow> string" where
  "nth_name sv i = sv_name sv @ ''-'' @ sv_ipPort sv @ ''#'' @ dec_int i"

definition server_inv :: "TcpServer \<Rightarrow> bool" where
  "server_inv sv \<longleftrightarrow> tp_wf (sv_threadPool sv) \<and> length (sv_ipPort sv) \<le> 51 \<and> 1 \<le> sv_nextConnId sv
   \<and> (\<forall>a c. sv_conns sv a = Some c \<longrightarrow>
        (\<exists>i. 1 \<le> i \<and> i < sv_nextConnId sv \<and> tc_name c = nth_name sv i)
      \<and> (\<exists>n \<le> 2. life a sv = take (Suc n) [(tc_loop c, ConnectEstablished a), (sv_loop sv, RemoveConnectionInLoop a), (tc_loop c, ConnectDestroyed a)]
           \<and> sv_connections sv (tc_name c) = (if n = 2 then None else Some a)))
   \<and> (\<forall>a b c d. sv_conns sv a = Some c \<and> sv_conns sv b = Some d \<and> tc_name c = tc_name d \<longrightarrow> a = b)
   \<and> (\<forall>a. sv_conns sv a = None \<longrightarrow> life a sv = [])"

lemma nth_name_inj: "1 \<le> i \<Longrightarrow> 1 \<le> j \<Longrightarrow> nth_name sv i = nth_name sv j \<longleftrightarrow> i = j"
  by (auto simp: nth_name_def dec_int_def dec_nat_inj)

lemma conn_name_nth:
  assumes "length (sv_ipPort sv) \<le> 51" and "1 \<le> sv_nextConnId sv" and "sv_nextConnId sv < 2 ^ 31 - 1"
  shows "conn_name sv = nth_name sv (sv_nextConnId sv)"
proof -
  have "length (dec_nat (nat (sv_nextConnId sv))) \<le> 10" using assms(2,3) by (intro length_dec_nat) auto
  with assms show ?thesis by (simp add: conn_name_def nth_name_def snprintf_def dec_int_def)
qed

lemma dispatch_simps [simp]:
  "sv_loop (dispatch_to l f sv) = sv_loop sv" "sv_ipPort (dispatch_to l f sv) = sv_ipPort sv"
  "sv_name (dispatch_to l f sv) = sv_name sv" "sv_threadPool (dispatch_to l f sv) = sv_threadPool sv"
  "sv_nextConnId (dispatch_to l f sv) = sv_nextConnId sv" "sv_connections (dispatch_to l f sv) = sv_connections sv"
  "sv_conns (dispatch_to l f sv) = sv_conns sv" "nth_name (dispatch_to l f sv) i = nth_name sv i"
  "sv_dispatched (dispatch_to l f sv) = sv_dispatched sv @ [(l, f)]"
  "life a (dispatch_to l f sv) = life a sv @ (if about a (l, f) then [(l, f)] else [])"
  by (simp_all add: dispatch_to_def life_def nth_name_def)

lemma server_invD:
  assumes "server_inv sv"
  shows "tp_wf (sv_threadPool sv)" "length (sv_ipPort sv) \<le> 51" "1 \<le> sv_nextConnId sv"
    "sv_conns sv a = None \<Longrightarrow> life a sv = []"
    "sv_conns sv a = Some c \<Longrightarrow> \<exists>i. 1 \<le> i \<and> i < sv_nextConnId sv \<and> tc_name c = nth_name sv i"
    "sv_conns sv a = Some c \<Longrightarrow> \<exists>n \<le> 2. life a sv = take (Suc n) [(tc_loop c, ConnectEstablished a),
        (sv_loop sv, RemoveConnectionInLoop a), (tc_loop c, ConnectDestroyed a)]
        \<and> sv_connections sv (tc_name c) = (if n = 2 then None else Some a)"
    "sv_conns sv a = Some c \<Longrightarrow> sv_conns sv b = Some d \<Longrightarrow> tc_name c = tc_name d \<Longrightarrow> a = b"
  using assms unfolding server_inv_def by blast+

lemma newConnection_inv:
  assumes inv: "server_inv sv" and "sv_conns sv a = None" and "sv_nextConnId sv < 2 ^ 31 - 1"
    and "TcpServer_newConnection True getsockname a ch sockfd peerAddr (sv, h) = Inr (sv', h')"
  shows "server_inv sv' \<and> sv_loop sv' = sv_loop sv"
proof -
  note I = server_invD [OF inv]
  from getNextLoop_wf [OF I(1)] obtain io p where p: "getNextLoop True (sv_threadPool sv) = Inr (io, p)" "tp_wf p" by blast
  obtain c hh where c: "TcpConnection_new io (conn_name sv) sockfd (getLocalAddr getsockname sockfd) peerAddr ch h = Inr (c, hh)"
    "tc_name c = conn_name sv" "tc_loop c = io"
    using init_buffer by (auto simp: TcpConnection_new_def)
  let ?c = "if sv_writeCompleteCallback sv then setWriteCompleteCallback c else c"
  let ?sv = "sv\<lparr>sv_threadPool := p, sv_nextConnId := sv_nextConnId sv + 1, sv_connections := (sv_connections sv)(conn_name sv \<mapsto> a),
      sv_conns := (sv_conns sv)(a \<mapsto> ?c)\<rparr>"
  have sv': "sv' = dispatch_to io (ConnectEstablished a) ?sv"
    using assms(4) p(1) c by (simp add: TcpServer_newConnection_def Let_def)
  have nm: "conn_name sv = nth_name sv (sv_nextConnId sv)" by (rule conn_name_nth [OF I(2,3) assms(3)])
  have c': "tc_name ?c = conn_name sv" "tc_loop ?c = io" using c by (simp_all add: setWriteCompleteCallback_def)
  have fresh: "tc_name d \<noteq> conn_name sv" if "sv_conns sv b = Some d" for b d
    using I(5) [OF that] nth_name_inj I(3) nm by fastforce
  have same: "nth_name ?sv i = nth_name sv i" "life b ?sv = life b sv" for b i by (simp_all add: nth_name_def life_def)
  show ?thesis
    unfolding sv' server_inv_def
  proof (intro conjI allI impI)
    fix b d assume b: "sv_conns (dispatch_to io (ConnectEstablished a) ?sv) b = Some d"
    show "\<exists>i\<ge>1. i < sv_nextConnId (dispatch_to io (ConnectEstablished a) ?sv) \<and> tc_name d = nth_name (dispatch_to io (ConnectEstablished a) ?sv) i"
    proof (cases "b = a")
      case True
      then show ?thesis using b I(3) c' nm by (intro exI [of _ "sv_nextConnId sv"]) (auto simp: nth_name_def)
    next
      case False
      with b I(5) [of b d] obtain i where "1 \<le> i" "i < sv_nextConnId sv" "tc_name d = nth_name sv i" by auto
      then show ?thesis by (intro exI [of _ i]) (simp add: same)
    qed
    show "\<exists>n\<le>2. life b (dispatch_to io (ConnectEstablished a) ?sv) = take (Suc n) [(tc_loop d, ConnectEstablished b),
        (sv_loop (dispatch_to io (ConnectEstablished a) ?sv), RemoveConnectionInLoop b), (tc_loop d, ConnectDestroyed b)] \<and>
        sv_connections (dispatch_to io (ConnectEstablished a) ?sv) (tc_name d) = (if n = 2 then None else Some b)"
    proof (cases "b = a")
      case True
      then show ?thesis using b c' I(4) [OF assms(2)] by (intro exI [of _ 0]) (simp add: life_def)
    next
      case False
      with b have "sv_conns sv b = Some d" by simp
      with I(6) [OF this] fresh [OF this] False show ?thesis by (simp add: same)
    qed
  next
    fix b e d d' assume *: "sv_conns (dispatch_to io (ConnectEstablished a) ?sv) b = Some d
        \<and> sv_conns (dispatch_to io (ConnectEstablished a) ?sv) e = Some d' \<and> tc_name d = tc_name d'"
    then show "b = e" using I(7) [of b d e d'] fresh [of b d] fresh [of e d'] c' by (auto split: if_splits)
  next
    fix b assume "sv_conns (dispatch_to io (ConnectEstablished a) ?sv) b = None"
    then show "life b (dispatch_to io (ConnectEstablished a) ?sv) = []" using I(4) [of b] by (auto simp: same split: if_splits)
  qed (use p(2) I(2,3) in simp_all)
qed

text \<open>Where a connection is in its life, from the functors dispatched for it.\<close>

lemma life_mem: "about a x \<Longrightarrow> x \<in> set (life a sv) \<longleftrightarrow> x \<in> set (sv_dispatched sv)"
  by (simp add: life_def)

lemma life_open:
  assumes "server_inv sv" and "sv_conns sv a = Some c" and "(sv_loop sv, RemoveConnectionInLoop a) \<notin> set (sv_dispatched sv)"
  shows "life a sv = [(tc_loop c, ConnectEstablished a)] \<and> sv_connections sv (tc_name c) = Some a"
proof -
  from server_invD(6) [OF assms(1,2)] obtain n where n: "n \<le> 2" "life a sv = take (Suc n) [(tc_loop c, ConnectEstablished a),
      (sv_loop sv, RemoveConnectionInLoop a), (tc_loop c, ConnectDestroyed a)]"
    "sv_connections sv (tc_name c) = (if n = 2 then None else Some a)" by blast
  have "(sv_loop sv, RemoveConnectionInLoop a) \<notin> set (life a sv)" using assms(3) life_mem [of a "(sv_loop sv, RemoveConnectionInLoop a)"] by simp
  with n(2) have "n = 0" by (cases n) simp_all
  with n show ?thesis by simp
qed

lemma life_closing:
  assumes "server_inv sv" and "(sv_loop sv, RemoveConnectionInLoop a) \<in> set (sv_dispatched sv)"
    and "\<not> (\<exists>l. (l, ConnectDestroyed a) \<in> set (sv_dispatched sv))"
  shows "\<exists>c. sv_conns sv a = Some c \<and> sv_connections sv (tc_name c) = Some a
    \<and> life a sv = [(tc_loop c, ConnectEstablished a), (sv_loop sv, RemoveConnectionInLoop a)]"
proof -
  have mem: "(sv_loop sv, RemoveConnectionInLoop a) \<in> set (life a sv)" "(l, ConnectDestroyed a) \<notin> set (life a sv)" for l
    using assms(2,3) life_mem [of a "(sv_loop sv, RemoveConnectionInLoop a)" sv] life_mem [of a "(l, ConnectDestroyed a)" sv] by auto
  then obtain c where c: "sv_conns sv a = Some c" using server_invD(4) [OF assms(1)] by (cases "sv_conns sv a") auto
  from server_invD(6) [OF assms(1) c] obtain n where n: "n \<le> 2" "life a sv = take (Suc n) [(tc_loop c, ConnectEstablished a),
      (sv_loop sv, RemoveConnectionInLoop a), (tc_loop c, ConnectDestroyed a)]"
    "sv_connections sv (tc_name c) = (if n = 2 then None else Some a)" by blast
  from mem n(1,2) have "n = 1" by (cases n; cases "n - 1") auto
  with n c show ?thesis by simp
qed

text \<open>Moving one connection one step on.\<close>

lemma server_inv_advance:
  assumes inv: "server_inv sv" and c: "sv_conns sv a = Some c"
    and sv': "sv_conns sv' = sv_conns sv" "sv_threadPool sv' = sv_threadPool sv" "sv_ipPort sv' = sv_ipPort sv"
      "sv_nextConnId sv' = sv_nextConnId sv" "sv_loop sv' = sv_loop sv" "\<And>i. nth_name sv' i = nth_name sv i"
      "\<And>b. b \<noteq> a \<Longrightarrow> life b sv' = life b sv" "\<And>nm. nm \<noteq> tc_name c \<Longrightarrow> sv_connections sv' nm = sv_connections sv nm"
    and a: "\<exists>n \<le> 2. life a sv' = take (Suc n) [(tc_loop c, ConnectEstablished a), (sv_loop sv, RemoveConnectionInLoop a),
        (tc_loop c, ConnectDestroyed a)] \<and> sv_connections sv' (tc_name c) = (if n = 2 then None else Some a)"
  shows "server_inv sv'"
  unfolding server_inv_def sv'(1-6)
proof (intro conjI allI impI)
  note I = server_invD [OF inv]
  fix b d assume b: "sv_conns sv b = Some d"
  show "\<exists>i\<ge>1. i < sv_nextConnId sv \<and> tc_name d = nth_name sv i" using I(5) [OF b] by blast
  show "\<exists>n\<le>2. life b sv' = take (Suc n) [(tc_loop d, ConnectEstablished b), (sv_loop sv, RemoveConnectionInLoop b),
        (tc_loop d, ConnectDestroyed b)] \<and> sv_connections sv' (tc_name d) = (if n = 2 then None else Some b)"
  proof (cases "b = a")
    case True
    with b c have "d = c" by simp
    with a True show ?thesis by blast
  next
    case False
    then have "tc_name d \<noteq> tc_name c" using I(7) [OF b c] by blast
    with I(6) [OF b] sv'(7) [OF False] sv'(8) show ?thesis by simp
  qed
next
  fix b assume b: "sv_conns sv b = None"
  with c have "b \<noteq> a" by auto
  with server_invD(4) [OF inv b] sv'(7) [of b] show "life b sv' = []" by simp
qed (use server_invD [OF inv] in blast)+

lemma removeConnectionInLoop_ok:
  assumes "server_inv sv" and "(sv_loop sv, RemoveConnectionInLoop a) \<in> set (sv_dispatched sv)"
    and "\<not> (\<exists>l. (l, ConnectDestroyed a) \<in> set (sv_dispatched sv))"
  shows "\<exists>sv'. removeConnectionInLoop True a sv = Inr sv' \<and> server_inv sv'"
proof -
  from life_closing [OF assms] obtain c where c: "sv_conns sv a = Some c" "sv_connections sv (tc_name c) = Some a"
    "life a sv = [(tc_loop c, ConnectEstablished a), (sv_loop sv, RemoveConnectionInLoop a)]" by blast
  let ?sv = "dispatch_to (tc_loop c) (ConnectDestroyed a) (sv\<lparr>sv_connections := (sv_connections sv)(tc_name c := None)\<rparr>)"
  have "removeConnectionInLoop True a sv = Inr ?sv" using c(1,2) by (simp add: removeConnectionInLoop_def Let_def)
  moreover have "server_inv ?sv"
    by (rule server_inv_advance [OF assms(1) c(1)]) (use c(3) in \<open>auto simp: life_def nth_name_def intro!: exI [of _ 2]\<close>)
  ultimately show ?thesis by blast
qed

lemma server_step_inv:
  assumes "server_step s s'" and "server_inv (fst s)"
  shows "server_inv (fst s')"
  using assms
proof (induction rule: server_step.induct)
  case (accepted sv a getsockname ch sockfd peerAddr h s')
  then show ?case using newConnection_inv [of sv a getsockname ch sockfd peerAddr h] by (cases s') auto
next
  case (closed sv a c h)
  then have inv: "server_inv sv" by simp
  from life_open [OF inv closed.hyps] have "server_inv (removeConnection a sv)"
    by (intro server_inv_advance [OF inv closed.hyps(1)]) (auto simp: removeConnection_def intro!: exI [of _ 1])
  then show ?case by simp
next
  case (removed sv a sv' h)
  then show ?case using removeConnectionInLoop_ok [of sv a] by auto
qed

lemma server_reachable: "server_step\<^sup>*\<^sup>* s s' \<Longrightarrow> server_inv (fst s) \<Longrightarrow> server_inv (fst s')"
  by (induction rule: rtranclp_induct) (auto intro: server_step_inv)

lemma start_threads_wf:
  assumes "for_each (start_thread startLoop) is (p, w) = Inr (p', w')"
  shows "tp_started p' = tp_started p \<and> tp_next p' = tp_next p \<and> length (tp_loops p') = length (tp_loops p) + length is"
  using assms
proof (induction "is" arbitrary: p w)
  case (Cons i "is")
  from Cons.prems obtain p1 w1 where 1: "start_thread startLoop i (p, w) = Inr (p1, w1)"
    "for_each (start_thread startLoop) is (p1, w1) = Inr (p', w')" by (auto simp: andThen_eq_Inr)
  from 1(1) have "tp_started p1 = tp_started p \<and> tp_next p1 = tp_next p \<and> length (tp_loops p1) = length (tp_loops p) + 1"
    by (auto simp: start_thread_def Let_def andThen_eq_Inr)
  with Cons.IH [OF 1(2)] show ?case by simp
qed simp

lemma tp_start_wf:
  assumes "tp_start inLoop startLoop cb p w = Inr (p', w')" and "tp_next p = 0" and "tp_loops p = []" and "tp_numThreads p < 2 ^ 31"
  shows "tp_wf p'"
proof (cases "for_each (start_thread startLoop) [0..tp_numThreads p - 1] (p\<lparr>tp_started := True\<rparr>, w)")
  case (Inl e)
  with assms(1) show ?thesis by (cases inLoop) (simp_all add: tp_start_def assert_that_def split: if_splits)
next
  case (Inr q)
  obtain p1 w1 where q: "q = (p1, w1)" by (cases q)
  have "p1 = p'"
  proof (cases "inLoop \<and> \<not> tp_started p")
    case True
    with assms(1) have "(case cb of
        Some f \<Rightarrow> if tp_numThreads p1 = 0 then andThen (f (tp_baseLoop p1) w1) (\<lambda>w''. Inr (p1, w'')) else Inr (p1, w1)
      | None \<Rightarrow> Inr (p1, w1)) = Inr (p', w')"
      by (simp add: tp_start_def Inr [unfolded q])
    then show ?thesis by (simp add: andThen_eq_Inr split: option.splits if_splits)
  qed (use assms(1) in \<open>cases inLoop; simp add: tp_start_def assert_that_def split: if_splits\<close>)
  with start_threads_wf [OF Inr [unfolded q]] assms(2-4)
  have "tp_started p'" "tp_next p' = 0" "length (tp_loops p') = nat (tp_numThreads p)" by simp_all
  with assms(4) show ?thesis by (cases "tp_loops p'") (auto simp: tp_wf_def)
qed

lemma server_started_inv:
  assumes "TcpServer_setThreadNum n (TcpServer_new loop ipPort name) = Inr sv0" and "n < 2 ^ 31" and "length ipPort \<le> 51"
    and "TcpServer_start inLoop startLoop cb sv0 w = Inr (sv, w')"
  shows "server_inv sv"
proof -
  from assms(1) have sv0: "sv0 = (TcpServer_new loop ipPort name)\<lparr>sv_threadPool := tp_setThreadNum n (EventLoopThreadPool_new loop name)\<rparr>"
    by (simp add: TcpServer_setThreadNum_def assert_that_eq_Inr TcpServer_new_def)
  with assms(4) obtain p where p: "tp_start inLoop startLoop cb (tp_setThreadNum n (EventLoopThreadPool_new loop name)) w = Inr (p, w')"
    "sv = dispatch_to loop Acceptor_listens (sv0\<lparr>sv_started := 1, sv_threadPool := p\<rparr>)"
    by (auto simp: TcpServer_start_def TcpServer_new_def Let_def andThen_eq_Inr assert_that_eq_Inr)
  have "tp_wf p" by (rule tp_start_wf [OF p(1)]) (use assms(2) in \<open>simp_all add: tp_setThreadNum_def EventLoopThreadPool_new_def\<close>)
  with assms(3) show ?thesis by (simp add: p(2) sv0 server_inv_def TcpServer_new_def life_def)
qed

section \<open>Properties\<close>

text \<open>C12. Every connection a server accepts has a name of its own, is established once, and is established
  and destroyed in its own loop. Whatever the order in which connections arrive, close and are
  removed, the functors dispatched for a connection are \<^verbatim>\<open>connectEstablished\<close>, then the removal in the
  server's loop, then \<^verbatim>\<open>connectDestroyed\<close>, each at most once; the server's map holds the connection
  until the last of them is dispatched; and the assertion of \<^verbatim>\<open>removeConnectionInLoop\<close>, that it erases
  one entry, holds.\<close>

theorem server_connections:
  assumes "TcpServer_setThreadNum n (TcpServer_new loop ipPort name) = Inr sv0" and "n < 2 ^ 31" and "length ipPort \<le> 51"
    and "TcpServer_start True startLoop cb sv0 w = Inr (sv1, w')" and "server_step\<^sup>*\<^sup>* (sv1, h1) (sv, h)"
    and "sv_conns sv a = Some c"
  shows "(\<exists>k \<le> 2. life a sv = take (Suc k) [(tc_loop c, ConnectEstablished a), (sv_loop sv, RemoveConnectionInLoop a), (tc_loop c, ConnectDestroyed a)]
        \<and> sv_connections sv (tc_name c) = (if k = 2 then None else Some a)
        \<and> (k = 1 \<longrightarrow> (\<exists>sv'. removeConnectionInLoop True a sv = Inr sv')))
    \<and> (sv_conns sv b = Some d \<and> tc_name d = tc_name c \<longrightarrow> b = a)"
proof -
  from server_reachable [OF assms(5)] server_started_inv [OF assms(1-4)] have inv: "server_inv sv" by simp
  from server_invD(6) [OF inv assms(6)] obtain k where k: "k \<le> 2" "life a sv = take (Suc k) [(tc_loop c, ConnectEstablished a),
      (sv_loop sv, RemoveConnectionInLoop a), (tc_loop c, ConnectDestroyed a)]"
    "sv_connections sv (tc_name c) = (if k = 2 then None else Some a)" by blast
  have "\<exists>sv'. removeConnectionInLoop True a sv = Inr sv'" if "k = 1"
    using that k(3) assms(6) by (simp add: removeConnectionInLoop_def Let_def)
  with k server_invD(7) [OF inv _ assms(6), of b d] show ?thesis by blast
qed

text \<open>A server with two io loops accepts a connection.\<close>

lemma sample_server:
  "\<exists>sv0 sv1 sv c h. TcpServer_setThreadNum 2 (TcpServer_new 10 ''0.0.0.0:80'' ''web'') = Inr sv0
     \<and> TcpServer_start True (\<lambda>nm w. Inr (w, w + 1)) None sv0 20 = Inr (sv1, 22 :: nat)
     \<and> server_step\<^sup>*\<^sup>* (sv1, Map.empty) (sv, h) \<and> sv_conns sv 5 = Some c \<and> tc_name c = ''web-0.0.0.0:80#1'' \<and> tc_loop c = 20"
proof -
  let ?sv0 = "(TcpServer_new 10 ''0.0.0.0:80'' ''web'')\<lparr>sv_threadPool := tp_setThreadNum 2 (EventLoopThreadPool_new 10 ''web'')\<rparr>"
  have 0: "TcpServer_setThreadNum 2 (TcpServer_new 10 ''0.0.0.0:80'' ''web'') = Inr ?sv0"
    by (simp add: TcpServer_setThreadNum_def TcpServer_new_def)
  obtain sv1 where 1: "TcpServer_start True (\<lambda>nm w. Inr (w, w + 1)) None ?sv0 20 = Inr (sv1, 22 :: nat)"
    "sv_threadPool sv1 = (tp_setThreadNum 2 (EventLoopThreadPool_new 10 ''web''))
        \<lparr>tp_started := True, tp_threads := [''web'' @ dec_int 0, ''web'' @ dec_int 1], tp_loops := [20, 21]\<rparr>"
    "sv_nextConnId sv1 = 1" "sv_conns sv1 = Map.empty" "sv_ipPort sv1 = ''0.0.0.0:80''" "sv_name sv1 = ''web''"
    by (simp add: TcpServer_start_def TcpServer_new_def Let_def tp_start_def tp_setThreadNum_def EventLoopThreadPool_new_def
        upto.simps start_thread_def dispatch_to_def)
  have nm: "conn_name sv1 = ''web-0.0.0.0:80#1''"
    by (simp add: conn_name_def 1 snprintf_def dec_int_def dec_nat.simps digit_chars)
  have next1: "\<exists>p. getNextLoop True (sv_threadPool sv1) = Inr (20, p)"
    by (simp add: getNextLoop_def 1(2) tp_setThreadNum_def EventLoopThreadPool_new_def Let_def)
  then obtain sv h where new: "TcpServer_newConnection True (\<lambda>fd. None) 5 6 7 memZero (sv1, Map.empty) = Inr (sv, h)"
    and c: "\<exists>c. sv_conns sv 5 = Some c \<and> tc_name c = ''web-0.0.0.0:80#1'' \<and> tc_loop c = 20"
    by (auto simp: TcpServer_newConnection_def Let_def nm TcpConnection_new_def init_buffer setWriteCompleteCallback_def)
  have "server_step (sv1, Map.empty) (sv, h)" by (rule server_step.accepted [OF _ _ new]) (simp_all add: 1)
  then have "server_step\<^sup>*\<^sup>* (sv1, Map.empty) (sv, h)" by (rule r_into_rtranclp)
  with 0 1(1) c show ?thesis by (intro exI [of _ ?sv0] exI [of _ sv1] exI [of _ sv]) blast
qed

theorem server_connections_witness:
  "\<exists>sv c. sv_conns sv 5 = Some c \<and> tc_name c = ''web-0.0.0.0:80#1'' \<and> (\<exists>k. life 5 sv = take (Suc k) [(20, ConnectEstablished 5),
     (sv_loop sv, RemoveConnectionInLoop 5), (20, ConnectDestroyed 5)])"
proof -
  from sample_server obtain sv0 sv1 sv c h where s: "TcpServer_setThreadNum 2 (TcpServer_new 10 ''0.0.0.0:80'' ''web'') = Inr sv0"
    "TcpServer_start True (\<lambda>nm w. Inr (w, w + 1)) None sv0 20 = Inr (sv1, 22 :: nat)" "server_step\<^sup>*\<^sup>* (sv1, Map.empty) (sv, h)"
    "sv_conns sv 5 = Some c" "tc_name c = ''web-0.0.0.0:80#1''" "tc_loop c = 20" by blast
  have "2 < (2 :: int) ^ 31" "length ''0.0.0.0:80'' \<le> 51" by simp_all
  from server_connections [OF s(1) this s(2-4), of 5 c] s(6) obtain k where
    "life 5 sv = take (Suc k) [(20, ConnectEstablished 5), (sv_loop sv, RemoveConnectionInLoop 5), (20, ConnectDestroyed 5)]" by auto
  with s(4,5) show ?thesis by blast
qed

end
