(* ===== verification/Muduo_Http.thy ===== *)
theory Muduo_Http
  imports Muduo_TcpServer
begin

text \<open>
  HTTP: \<^verbatim>\<open>net/http/HttpRequest.h\<close>, \<^verbatim>\<open>HttpContext.cc\<close>, \<^verbatim>\<open>HttpResponse.cc\<close> and \<^verbatim>\<open>HttpServer.cc\<close>. The context
  parses a request from the input buffer of a connection as the bytes arrive, a line at a time; the
  server answers a complete request through the connection's output. A pair of pointers into the buffer
  is the string between them. The loop of the parser has a state in which it never returns, so it is a
  partial function, and that it returns is a theorem.
\<close>

section \<open>Ordered maps of strings\<close>

text \<open>
  \<^verbatim>\<open>std::map<string, string>\<close>, which iterates in the order of the keys, as a sorted association list;
  \<^verbatim>\<open>std::string\<close> compares bytes as unsigned numbers.
\<close>

fun string_less :: "string \<Rightarrow> string \<Rightarrow> bool" where
  "string_less xs [] = False"
| "string_less [] (y # ys) = True"
| "string_less (x # xs) (y # ys) =
     (of_char x < (of_char y :: nat) \<or> x = y \<and> string_less xs ys)"

type_synonym string_map = "(string \<times> string) list"

fun map_set :: "string \<Rightarrow> string \<Rightarrow> string_map \<Rightarrow> string_map" where
  "map_set k v [] = [(k, v)]"
| "map_set k v ((k', v') # m) =
     (if k = k' then (k, v) # m else if string_less k k' then (k, v) # (k', v') # m else (k', v') # map_set k v m)"

section \<open>HttpRequest\<close>

datatype Method = kInvalid | kGet | kPost | kHead | kPut | kDelete

datatype Version = kUnknown | kHttp10 | kHttp11

record HttpRequest =
  hr_method :: Method
  hr_version :: Version
  hr_path :: string
  hr_query :: string
  hr_receiveTime :: Timestamp
  hr_headers :: string_map

definition HttpRequest_new :: HttpRequest where
  "HttpRequest_new = \<lparr>hr_method = kInvalid, hr_version = kUnknown, hr_path = [], hr_query = [],
     hr_receiveTime = Timestamp_invalid, hr_headers = []\<rparr>"

definition setVersion :: "Version \<Rightarrow> HttpRequest \<Rightarrow> HttpRequest" where
  "setVersion v r = r\<lparr>hr_version := v\<rparr>"

definition setMethod :: "string \<Rightarrow> HttpRequest \<Rightarrow> (bool \<times> HttpRequest) outcome" where
  "setMethod m r = assert_that (hr_method r = kInvalid) ''method_ == kInvalid''
     (let meth = (if m = ''GET'' then kGet
                  else if m = ''POST'' then kPost
                  else if m = ''HEAD'' then kHead
                  else if m = ''PUT'' then kPut
                  else if m = ''DELETE'' then kDelete
                  else kInvalid)
      in Inr (meth \<noteq> kInvalid, r\<lparr>hr_method := meth\<rparr>))"

definition methodString :: "HttpRequest \<Rightarrow> string" where
  "methodString r = (case hr_method r of
       kGet \<Rightarrow> ''GET'' | kPost \<Rightarrow> ''POST'' | kHead \<Rightarrow> ''HEAD'' | kPut \<Rightarrow> ''PUT'' | kDelete \<Rightarrow> ''DELETE'' | kInvalid \<Rightarrow> ''UNKNOWN'')"

definition setPath :: "string \<Rightarrow> HttpRequest \<Rightarrow> HttpRequest" where
  "setPath p r = r\<lparr>hr_path := p\<rparr>"

definition setQuery :: "string \<Rightarrow> HttpRequest \<Rightarrow> HttpRequest" where
  "setQuery q r = r\<lparr>hr_query := q\<rparr>"

definition setReceiveTime :: "Timestamp \<Rightarrow> HttpRequest \<Rightarrow> HttpRequest" where
  "setReceiveTime t r = r\<lparr>hr_receiveTime := t\<rparr>"

text \<open>\<^verbatim>\<open>isspace\<close> in the C locale.\<close>

definition isspace :: "char \<Rightarrow> bool" where
  "isspace c \<longleftrightarrow> c \<in> {CHR 0x20, CHR 0x09, CHR 0x0A, CHR 0x0B, CHR 0x0C, CHR 0x0D}"

text \<open>\<open>line\<close> is the range from \<^verbatim>\<open>start\<close> to \<^verbatim>\<open>end\<close> and \<open>colon\<close> an offset in it.\<close>

definition HttpRequest_addHeader :: "string \<Rightarrow> nat \<Rightarrow> HttpRequest \<Rightarrow> HttpRequest" where
  "HttpRequest_addHeader line colon r =
     (let field = take colon line;
          value = dropWhile isspace (drop (colon + 1) line);
          value = rev (dropWhile isspace (rev value))
      in r\<lparr>hr_headers := map_set field value (hr_headers r)\<rparr>)"

definition getHeader :: "string \<Rightarrow> HttpRequest \<Rightarrow> string" where
  "getHeader field r = (case map_of (hr_headers r) field of Some v \<Rightarrow> v | None \<Rightarrow> [])"

definition HttpRequest_swap :: "HttpRequest \<Rightarrow> HttpRequest \<Rightarrow> HttpRequest \<times> HttpRequest" where
  "HttpRequest_swap r that =
     (r\<lparr>hr_method := hr_method that, hr_version := hr_version that, hr_path := hr_path that, hr_query := hr_query that,
        hr_receiveTime := hr_receiveTime that, hr_headers := hr_headers that\<rparr>,
      that\<lparr>hr_method := hr_method r, hr_version := hr_version r, hr_path := hr_path r, hr_query := hr_query r,
        hr_receiveTime := hr_receiveTime r, hr_headers := hr_headers r\<rparr>)"

section \<open>HttpContext\<close>

datatype HttpRequestParseState = kExpectRequestLine | kExpectHeaders | kExpectBody | kGotAll

record HttpContext =
  hc_state :: HttpRequestParseState
  hc_request :: HttpRequest

definition HttpContext_new :: HttpContext where
  "HttpContext_new = \<lparr>hc_state = kExpectRequestLine, hc_request = HttpRequest_new\<rparr>"

definition gotAll :: "HttpContext \<Rightarrow> bool" where
  "gotAll c \<longleftrightarrow> hc_state c = kGotAll"

definition HttpContext_reset :: "HttpContext \<Rightarrow> HttpContext" where
  "HttpContext_reset c = c\<lparr>hc_state := kExpectRequestLine, hc_request := fst (HttpRequest_swap (hc_request c) HttpRequest_new)\<rparr>"

definition processRequestLine :: "string \<Rightarrow> HttpRequest \<Rightarrow> (bool \<times> HttpRequest) outcome" where
  "processRequestLine line r =
     (let space = std_find (CHR '' '') line in
      if space \<noteq> length line then
        andThen (setMethod (take space line) r) (\<lambda>(ok, r1).
          if ok then
            let start = drop (space + 1) line;
                space = std_find (CHR '' '') start
            in if space \<noteq> length start then
                 let url = take space start;
                     question = std_find (CHR ''?'') url;
                     r2 = (if question \<noteq> length url
                           then setQuery (drop question url) (setPath (take question url) r1)
                           else setPath url r1);
                     start = drop (space + 1) start
                 in if length start = 8 \<and> take 7 start = ''HTTP/1.'' then
                      (if last start = CHR ''1'' then Inr (True, setVersion kHttp11 r2)
                       else if last start = CHR ''0'' then Inr (True, setVersion kHttp10 r2)
                       else Inr (False, r2))
                    else Inr (False, r2)
               else Inr (False, r1)
          else Inr (False, r1))
      else Inr (False, r))"

text \<open>One turn of the loop of \<^verbatim>\<open>parseRequest\<close>: \<^verbatim>\<open>ok\<close>, \<^verbatim>\<open>hasMore\<close>, the context and the buffer after it.\<close>

definition parse_turn ::
  "Timestamp \<Rightarrow> HttpContext \<Rightarrow> Buffer \<Rightarrow> (bool \<times> bool \<times> HttpContext \<times> Buffer) outcome" where
  "parse_turn receiveTime c buf = (case hc_state c of
       kExpectRequestLine \<Rightarrow> (case findCRLF buf of
           Some crlf \<Rightarrow>
             andThen (processRequestLine (bytes_between buf (peek buf) crlf) (hc_request c)) (\<lambda>(ok, r).
               if ok then
                 andThen (retrieveUntil (crlf + 2) buf) (\<lambda>buf'.
                   Inr (True, True, c\<lparr>hc_request := setReceiveTime receiveTime r, hc_state := kExpectHeaders\<rparr>, buf'))
               else Inr (False, False, c\<lparr>hc_request := r\<rparr>, buf))
         | None \<Rightarrow> Inr (True, False, c, buf))
     | kExpectHeaders \<Rightarrow> (case findCRLF buf of
           Some crlf \<Rightarrow>
             let line = bytes_between buf (peek buf) crlf;
                 colon = std_find (CHR '':'') line;
                 hasMore = (colon \<noteq> length line);
                 c' = (if hasMore then c\<lparr>hc_request := HttpRequest_addHeader line colon (hc_request c)\<rparr>
                       else c\<lparr>hc_state := kGotAll\<rparr>)
             in andThen (retrieveUntil (crlf + 2) buf) (\<lambda>buf'. Inr (True, hasMore, c', buf'))
         | None \<Rightarrow> Inr (True, False, c, buf))
     | kExpectBody \<Rightarrow> Inr (True, True, c, buf)
     | kGotAll \<Rightarrow> Inr (True, True, c, buf))"

text \<open>The loop; \<open>None\<close> is a loop that does not end.\<close>

partial_function (option) parseRequest ::
  "Timestamp \<Rightarrow> HttpContext \<Rightarrow> Buffer \<Rightarrow> (bool \<times> HttpContext \<times> Buffer) outcome option" where
  "parseRequest receiveTime c buf = (case parse_turn receiveTime c buf of
       Inl e \<Rightarrow> Some (Inl e)
     | Inr (ok, hasMore, c', buf') \<Rightarrow>
         if hasMore then parseRequest receiveTime c' buf' else Some (Inr (ok, c', buf')))"

section \<open>HttpResponse\<close>

datatype HttpStatusCode = Status_kUnknown | k200Ok | k301MovedPermanently | k400BadRequest | k404NotFound

fun status_code :: "HttpStatusCode \<Rightarrow> int" where
  "status_code Status_kUnknown = 0"
| "status_code k200Ok = 200"
| "status_code k301MovedPermanently = 301"
| "status_code k400BadRequest = 400"
| "status_code k404NotFound = 404"

record HttpResponse =
  hp_headers :: string_map
  hp_statusCode :: HttpStatusCode
  hp_statusMessage :: string
  hp_closeConnection :: bool
  hp_body :: string

definition HttpResponse_new :: "bool \<Rightarrow> HttpResponse" where
  "HttpResponse_new close = \<lparr>hp_headers = [], hp_statusCode = Status_kUnknown, hp_statusMessage = [],
     hp_closeConnection = close, hp_body = []\<rparr>"

definition setStatusCode :: "HttpStatusCode \<Rightarrow> HttpResponse \<Rightarrow> HttpResponse" where
  "setStatusCode code p = p\<lparr>hp_statusCode := code\<rparr>"

definition setStatusMessage :: "string \<Rightarrow> HttpResponse \<Rightarrow> HttpResponse" where
  "setStatusMessage message p = p\<lparr>hp_statusMessage := message\<rparr>"

definition setCloseConnection :: "bool \<Rightarrow> HttpResponse \<Rightarrow> HttpResponse" where
  "setCloseConnection on p = p\<lparr>hp_closeConnection := on\<rparr>"

definition HttpResponse_addHeader :: "string \<Rightarrow> string \<Rightarrow> HttpResponse \<Rightarrow> HttpResponse" where
  "HttpResponse_addHeader key value p = p\<lparr>hp_headers := map_set key value (hp_headers p)\<rparr>"

definition setContentType :: "string \<Rightarrow> HttpResponse \<Rightarrow> HttpResponse" where
  "setContentType contentType p = HttpResponse_addHeader ''Content-Type'' contentType p"

definition setBody :: "string \<Rightarrow> HttpResponse \<Rightarrow> HttpResponse" where
  "setBody body p = p\<lparr>hp_body := body\<rparr>"

text \<open>\<^verbatim>\<open>append\<close> of a C string or a \<^verbatim>\<open>std::string\<close>, which converts to a \<^verbatim>\<open>StringPiece\<close>.\<close>

definition append_string :: "string \<Rightarrow> Buffer \<Rightarrow> Buffer outcome" where
  "append_string str b = append_piece (StringPiece_of_string str) b"

definition append_header :: "string \<times> string \<Rightarrow> Buffer \<Rightarrow> Buffer outcome" where
  "append_header header = for_each append_string [fst header, '': '', snd header, kCRLF]"

definition appendToBuffer :: "HttpResponse \<Rightarrow> Buffer \<Rightarrow> Buffer outcome" where
  "appendToBuffer p output =
     andThen (for_each append_string
        [snprintf 32 (''HTTP/1.1 '' @ dec_int (status_code (hp_statusCode p)) @ '' ''), hp_statusMessage p, kCRLF] output) (\<lambda>output.
     andThen (if hp_closeConnection p then append_string (''Connection: close'' @ kCRLF) output
        else for_each append_string
          [snprintf 32 (''Content-Length: '' @ dec_nat (length (hp_body p)) @ kCRLF), ''Connection: Keep-Alive'' @ kCRLF] output) (\<lambda>output.
     andThen (for_each append_header (hp_headers p) output) (\<lambda>output.
     for_each append_string [kCRLF, hp_body p] output)))"

section \<open>HttpServer\<close>

text \<open>
  The callbacks \<^verbatim>\<open>HttpServer\<close> installs in its \<^verbatim>\<open>TcpServer\<close>, on one connection with its context (a
  \<^verbatim>\<open>boost::any\<close>, empty before \<^verbatim>\<open>onConnection\<close>). They run in the loop of the connection. \<open>cb\<close> is the
  user's \<^verbatim>\<open>httpCallback_\<close>.
\<close>

type_synonym http_callback = "HttpRequest \<Rightarrow> HttpResponse \<Rightarrow> HttpResponse"

record HttpServer =
  hs_server :: TcpServer
  hs_httpCallback :: http_callback

definition defaultHttpCallback :: http_callback where
  "defaultHttpCallback req resp =
     setCloseConnection True (setStatusMessage ''Not Found'' (setStatusCode k404NotFound resp))"

definition HttpServer_new :: "addr \<Rightarrow> string \<Rightarrow> string \<Rightarrow> HttpServer" where
  "HttpServer_new loop ipPort name = \<lparr>hs_server = TcpServer_new loop ipPort name, hs_httpCallback = defaultHttpCallback\<rparr>"

definition setHttpCallback :: "http_callback \<Rightarrow> HttpServer \<Rightarrow> HttpServer" where
  "setHttpCallback cb hs = hs\<lparr>hs_httpCallback := cb\<rparr>"

definition HttpServer_setThreadNum :: "int \<Rightarrow> HttpServer \<Rightarrow> HttpServer outcome" where
  "HttpServer_setThreadNum n hs = andThen (TcpServer_setThreadNum n (hs_server hs)) (\<lambda>sv. Inr (hs\<lparr>hs_server := sv\<rparr>))"

definition HttpServer_start ::
  "bool \<Rightarrow> (string \<Rightarrow> 'w \<Rightarrow> (addr \<times> 'w) outcome) \<Rightarrow> HttpServer \<Rightarrow> 'w \<Rightarrow> (HttpServer \<times> 'w) outcome" where
  "HttpServer_start inLoop startLoop hs w =
     andThen (TcpServer_start inLoop startLoop None (hs_server hs) w) (\<lambda>(sv, w'). Inr (hs\<lparr>hs_server := sv\<rparr>, w'))"

definition HttpServer_onConnection :: "HttpContext option \<times> 'p conn_sys \<Rightarrow> HttpContext option \<times> 'p conn_sys" where
  "HttpServer_onConnection s = (case s of (ctx, conn) \<Rightarrow>
     if connected (cs_conn conn) then (Some HttpContext_new, conn) else (ctx, conn))"

definition HttpServer_onRequest ::
  "http_callback \<Rightarrow> write_call \<Rightarrow> 'p chan_call \<Rightarrow> HttpRequest \<Rightarrow> 'p conn_sys \<Rightarrow> 'p conn_sys outcome" where
  "HttpServer_onRequest cb wr upd req conn =
     (let connection = getHeader ''Connection'' req;
          close = (connection = ''close'' \<or> hr_version req = kHttp10 \<and> connection \<noteq> ''Keep-Alive'');
          response = cb req (HttpResponse_new close)
      in andThen (Buffer_new kInitialSize) (\<lambda>buf.
         andThen (appendToBuffer response buf) (\<lambda>buf.
         andThen (send_buffer True wr upd buf conn) (\<lambda>(buf, conn).
         if hp_closeConnection response then shutdown True conn else Inr conn))))"

definition HttpServer_onMessage ::
  "http_callback \<Rightarrow> write_call \<Rightarrow> 'p chan_call \<Rightarrow> Timestamp \<Rightarrow> HttpContext option \<times> 'p conn_sys
     \<Rightarrow> (HttpContext option \<times> 'p conn_sys) outcome option" where
  "HttpServer_onMessage cb wr upd receiveTime s = (case s of
       (None, conn) \<Rightarrow> Some (Inl Bad_pointer)
     | (Some ctx, conn) \<Rightarrow> (case parseRequest receiveTime ctx (tc_inputBuffer (cs_conn conn)) of
           None \<Rightarrow> None
         | Some parsed \<Rightarrow> Some (andThen parsed (\<lambda>(ok, ctx, buf).
             let conn = conn\<lparr>cs_conn := (cs_conn conn)\<lparr>tc_inputBuffer := buf\<rparr>\<rparr> in
             andThen (if ok then Inr conn
                      else andThen (send True wr upd (''HTTP/1.1 400 Bad Request'' @ kCRLF @ kCRLF) conn) (shutdown True)) (\<lambda>conn.
             if gotAll ctx then
               andThen (HttpServer_onRequest cb wr upd (hc_request ctx) conn) (\<lambda>conn. Inr (Some (HttpContext_reset ctx), conn))
             else Inr (Some ctx, conn))))))"

section \<open>Lines\<close>

text \<open>The first line of a text and what follows its CR LF.\<close>

definition next_line :: "string \<Rightarrow> (string \<times> string) option" where
  "next_line s = (let k = std_search kCRLF s in if k = length s then None else Some (take k s, drop (k + 2) s))"

lemma next_line_SomeD:
  assumes "next_line s = Some (line, rest)"
  shows "s = line @ kCRLF @ rest \<and> length rest < length s"
proof -
  let ?k = "std_search kCRLF s"
  have k: "?k < length s" "line = take ?k s" "rest = drop (?k + 2) s"
    using assms std_search_le [of kCRLF s] by (auto simp: next_line_def Let_def split: if_splits)
  have "take 2 (drop ?k s) = kCRLF" using std_search_match [of kCRLF s] k(1) by simp
  moreover have "drop 2 (drop ?k s) = rest" using k(3) by (simp add: add.commute)
  ultimately have "drop ?k s = kCRLF @ rest" using append_take_drop_id [of 2 "drop ?k s"] by simp
  then have "s = line @ kCRLF @ rest" using k(2) append_take_drop_id [of ?k s] by simp
  then show ?thesis by (simp add: kCRLF_def)
qed

lemma std_search_append:
  assumes "pat \<noteq> []" and "std_search pat xs < length xs"
  shows "std_search pat (xs @ ys) = std_search pat xs"
  using assms(2)
proof (induction xs)
  case (Cons x xs)
  have app: "take (length pat) (x # xs @ ys) = take (length pat) (x # xs)" if "length pat \<le> Suc (length xs)"
    using that take_append [of "length pat" "x # xs" ys] by simp
  have "length pat \<le> Suc (length xs)" if "take (length pat) (x # xs) = pat"
    using arg_cong [OF that, of length] by simp
  moreover have "length pat \<le> Suc (length xs)" if "std_search pat xs < length xs"
    using arg_cong [OF std_search_match [OF assms(1) that], of length] by simp
  ultimately show ?case using Cons app by (auto split: if_splits)
qed simp

lemma next_line_append: "next_line s = Some (line, rest) \<Longrightarrow> next_line (s @ u) = Some (line, rest @ u)"
proof -
  assume a: "next_line s = Some (line, rest)"
  let ?k = "std_search kCRLF s"
  have k: "?k < length s" "line = take ?k s" "rest = drop (?k + 2) s"
    using a std_search_le [of kCRLF s] by (auto simp: next_line_def Let_def split: if_splits)
  have "length s = length line + 2 + length rest" using next_line_SomeD [OF a] arg_cong [of s _ length] by fastforce
  then have "?k + 2 \<le> length s" using k(1,2) by simp
  then show ?thesis using k std_search_append [of kCRLF s u] by (simp add: next_line_def Let_def)
qed

lemma std_search_fresh:
  assumes "hd pat \<notin> set xs" and "pat \<noteq> []"
  shows "std_search pat (xs @ pat @ ys) = length xs"
  using assms(1)
proof (induction xs)
  case Nil
  then show ?case using assms(2) by (cases pat) auto
next
  case (Cons x xs)
  have "take (length pat) (x # xs @ pat @ ys) \<noteq> pat"
    using Cons.prems assms(2) by (cases pat) auto
  with Cons show ?case by simp
qed

lemma next_line_text: "CHR 0x0D \<notin> set line \<Longrightarrow> next_line (line @ kCRLF @ rest) = Some (line, rest)"
  using std_search_fresh [of kCRLF line rest] by (simp add: next_line_def kCRLF_def Let_def)

text \<open>Taking a line from a buffer is taking it from its content.\<close>

lemma buffer_no_line: "buf_inv b \<Longrightarrow> next_line (content b) = None \<Longrightarrow> findCRLF b = None"
  by (simp add: findCRLF_content next_line_def Let_def split: if_splits)

lemma buffer_line:
  assumes "buf_inv b" and "next_line (content b) = Some (line, rest)"
  shows "\<exists>crlf b'. findCRLF b = Some crlf \<and> bytes_between b (peek b) crlf = line
    \<and> retrieveUntil (crlf + 2) b = Inr b' \<and> buf_inv b' \<and> content b' = rest"
proof -
  let ?k = "std_search kCRLF (content b)"
  have k: "?k \<noteq> length (content b)" "line = take ?k (content b)" "rest = drop (?k + 2) (content b)"
    using assms(2) by (auto simp: next_line_def Let_def split: if_splits)
  have f: "findCRLF b = Some (peek b + ?k)" using k(1) by (simp add: findCRLF_content [OF assms(1)])
  from findCRLF_SomeD [OF assms(1) f] have n: "?k + 2 \<le> length (content b)" by auto
  have "bytes_between b (peek b) (peek b + ?k) = line"
    unfolding k(2) by (rule bytes_from_peek [OF assms(1)]) (use n in linarith)
  moreover have "\<exists>b'. retrieveUntil (peek b + ?k + 2) b = Inr b' \<and> buf_inv b' \<and> content b' = rest"
    unfolding k(3) add.assoc by (rule retrieveUntil_ok [OF assms(1) n])
  ultimately show ?thesis using f by blast
qed

section \<open>The parser on texts\<close>

text \<open>
  The parser as a function on the bytes of the buffer: a turn takes a line, and the loop ends
  because every turn that goes on has taken one.
\<close>

definition text_turn :: "Timestamp \<Rightarrow> HttpContext \<Rightarrow> string \<Rightarrow> (bool \<times> bool \<times> HttpContext \<times> string) outcome" where
  "text_turn t c s = (case next_line s of
       None \<Rightarrow> Inr (True, False, c, s)
     | Some (line, rest) \<Rightarrow>
         if hc_state c = kExpectRequestLine then
           andThen (processRequestLine line (hc_request c)) (\<lambda>(ok, r).
             Inr (if ok then (True, True, c\<lparr>hc_request := setReceiveTime t r, hc_state := kExpectHeaders\<rparr>, rest)
                  else (False, False, c\<lparr>hc_request := r\<rparr>, s)))
         else if std_find (CHR '':'') line \<noteq> length line then
           Inr (True, True, c\<lparr>hc_request := HttpRequest_addHeader line (std_find (CHR '':'') line) (hc_request c)\<rparr>, rest)
         else Inr (True, False, c\<lparr>hc_state := kGotAll\<rparr>, rest))"

function text_parse :: "Timestamp \<Rightarrow> HttpContext \<Rightarrow> string \<Rightarrow> (bool \<times> HttpContext \<times> string) outcome" where
  "text_parse t c s = (case text_turn t c s of
       Inl e \<Rightarrow> Inl e
     | Inr (ok, hasMore, c', s') \<Rightarrow> if hasMore \<and> length s' < length s then text_parse t c' s' else Inr (ok, c', s'))"
  by pat_completeness auto
termination by (relation "measure (\<lambda>(t, c, s). length s)") auto

declare text_parse.simps [simp del]

definition active :: "HttpContext \<Rightarrow> bool" where
  "active c \<longleftrightarrow> hc_state c \<in> {kExpectRequestLine, kExpectHeaders}"

lemma active_new [simp]: "active HttpContext_new"
  by (simp add: active_def HttpContext_new_def)

lemma text_turn_more:
  "text_turn t c s = Inr (ok, True, c', s') \<Longrightarrow> active c \<Longrightarrow> ok \<and> active c' \<and> length s' < length s"
  using next_line_SomeD [of s]
  by (auto simp: text_turn_def active_def andThen_eq_Inr split: option.splits prod.splits if_splits)

lemma parse_turn_text:
  assumes "buf_inv b" and "active c"
  shows "case text_turn t c (content b) of
      Inl e \<Rightarrow> parse_turn t c b = Inl e
    | Inr (ok, hasMore, c', s') \<Rightarrow> \<exists>b'. parse_turn t c b = Inr (ok, hasMore, c', b') \<and> buf_inv b' \<and> content b' = s'"
proof (cases "next_line (content b)")
  case None
  with assms buffer_no_line [OF assms(1) None] show ?thesis
    by (auto simp: text_turn_def parse_turn_def active_def)
next
  case (Some q)
  obtain line rest where q: "next_line (content b) = Some (line, rest)" using Some by (cases q) auto
  from buffer_line [OF assms(1) q] obtain crlf b' where l: "findCRLF b = Some crlf" "bytes_between b (peek b) crlf = line"
    "retrieveUntil (crlf + 2) b = Inr b'" "buf_inv b'" "content b' = rest" by blast
  have st: "hc_state c = kExpectRequestLine \<or> hc_state c = kExpectHeaders" using assms(2) by (simp add: active_def)
  show ?thesis
  proof (cases "hc_state c = kExpectRequestLine")
    case True
    show ?thesis
    proof (cases "processRequestLine line (hc_request c)")
      case (Inr p)
      with l q True assms(1) show ?thesis by (cases p) (auto simp: text_turn_def parse_turn_def)
    qed (use l q True in \<open>auto simp: text_turn_def parse_turn_def\<close>)
  next
    case False
    with st l q show ?thesis by (auto simp: text_turn_def parse_turn_def Let_def)
  qed
qed

text \<open>The loop always returns on an active context, with the result of the parser on texts.\<close>

lemma parseRequest_text:
  assumes "buf_inv b" and "active c"
  shows "case text_parse t c (content b) of
      Inl e \<Rightarrow> parseRequest t c b = Some (Inl e)
    | Inr (ok, c', s') \<Rightarrow> \<exists>b'. parseRequest t c b = Some (Inr (ok, c', b')) \<and> buf_inv b' \<and> content b' = s'"
  using assms
proof (induction t c "content b" arbitrary: b rule: text_parse.induct)
  case (1 t c)
  note turn = parse_turn_text [OF "1.prems", of t]
  show ?case
  proof (cases "text_turn t c (content b)")
    case (Inl e)
    with turn show ?thesis by (simp add: text_parse.simps [of t c] parseRequest.simps [of t c])
  next
    case (Inr q)
    obtain ok hasMore c' s' where q: "q = (ok, hasMore, c', s')" by (cases q)
    from turn Inr q obtain b' where b': "parse_turn t c b = Inr (ok, hasMore, c', b')" "buf_inv b'" "content b' = s'" by auto
    show ?thesis
    proof (cases hasMore)
      case True
      with text_turn_more [of t c "content b"] Inr q "1.prems" have m: "active c'" "length s' < length (content b)" by auto
      have "text_parse t c (content b) = text_parse t c' (content b')"
        using Inr q True m b'(3) by (simp add: text_parse.simps [of t c])
      moreover have "parseRequest t c b = parseRequest t c' b'" using b'(1) True by (simp add: parseRequest.simps [of t c])
      moreover have "case text_parse t c' (content b') of
          Inl e \<Rightarrow> parseRequest t c' b' = Some (Inl e)
        | Inr (ok, c'', s'') \<Rightarrow> \<exists>b''. parseRequest t c' b' = Some (Inr (ok, c'', b'')) \<and> buf_inv b'' \<and> content b'' = s''"
        by (rule "1.hyps" [of q ok "(hasMore, c', s')" hasMore "(c', s')" c']) (use Inr q True m b' in simp_all)
      ultimately show ?thesis by (cases "text_parse t c' (content b')") auto
    next
      case False
      with Inr q b' show ?thesis by (simp add: text_parse.simps [of t c] parseRequest.simps [of t c])
    qed
  qed
qed

text \<open>In the two other states it does not return.\<close>

lemma parseRequest_active: "parseRequest t c b = Some r \<Longrightarrow> active c"
proof (rule parseRequest.raw_induct [where P = "\<lambda>t c b r. active c"])
  fix f t c b r
  assume IH: "\<And>t c b r. f t c b = Some r \<Longrightarrow> active c"
    and body: "(case parse_turn t c b of Inl e \<Rightarrow> Some (Inl e)
      | Inr (ok, hasMore, c', buf') \<Rightarrow> if hasMore then f t c' buf' else Some (Inr (ok, c', buf'))) = Some r"
  show "active c"
  proof (rule ccontr)
    assume n: "\<not> active c"
    then have "parse_turn t c b = Inr (True, True, c, b)"
      by (auto simp: parse_turn_def active_def split: HttpRequestParseState.splits)
    with body have "f t c b = Some r" by simp
    with IH n show False by blast
  qed
qed

text \<open>Bytes that arrive later: a parser that waits goes on with them, one that is done leaves them alone.\<close>

lemma text_turn_append:
  assumes "text_turn t c s = r" and "next_line s \<noteq> None"
  shows "text_turn t c (s @ u) = (case r of Inl e \<Rightarrow> Inl e | Inr (ok, hasMore, c', s') \<Rightarrow> Inr (ok, hasMore, c', s' @ u))"
proof -
  from assms(2) obtain line rest where n: "next_line s = Some (line, rest)" by auto
  show ?thesis
  proof (cases "processRequestLine line (hc_request c)")
    case (Inr p)
    then show ?thesis using assms(1) n next_line_append [OF n, of u]
      by (cases p) (auto simp: text_turn_def split: if_splits)
  qed (use assms(1) n next_line_append [OF n, of u] in \<open>auto simp: text_turn_def split: if_splits\<close>)
qed

lemma text_turn_done:
  "text_turn t c s = Inr (ok, False, c', s') \<Longrightarrow> next_line s \<noteq> None \<Longrightarrow> \<not> (ok \<and> active c')"
  by (auto simp: text_turn_def active_def andThen_eq_Inr split: prod.splits if_splits)

lemma text_parse_append:
  assumes "active c"
  shows "text_parse t c (s @ u) = (case text_parse t c s of
      Inl e \<Rightarrow> Inl e
    | Inr (ok, c', s') \<Rightarrow> if ok \<and> active c' then text_parse t c' (s' @ u) else Inr (ok, c', s' @ u))"
  using assms
proof (induction t c s rule: text_parse.induct)
  case (1 t c s)
  show ?case
  proof (cases "next_line s = None")
    case True
    then have "text_parse t c s = Inr (True, c, s)" by (simp add: text_parse.simps [of t c s] text_turn_def)
    with "1.prems" show ?thesis by simp
  next
    case False
    note turn = text_turn_append [OF _ False, of t c]
    show ?thesis
    proof (cases "text_turn t c s")
      case (Inl e)
      with turn [OF Inl, of u] show ?thesis by (simp add: text_parse.simps [of t c])
    next
      case (Inr q)
      obtain ok hasMore c' s' where q: "q = (ok, hasMore, c', s')" by (cases q)
      have u: "text_turn t c (s @ u) = Inr (ok, hasMore, c', s' @ u)" using turn [OF Inr, of u] q by simp
      show ?thesis
      proof (cases hasMore)
        case True
        with text_turn_more [of t c s] Inr q "1.prems" have m: "active c'" "length s' < length s" by auto
        have "text_parse t c' (s' @ u) = (case text_parse t c' s' of
            Inl e \<Rightarrow> Inl e
          | Inr (ok, c', s') \<Rightarrow> if ok \<and> active c' then text_parse t c' (s' @ u) else Inr (ok, c', s' @ u))"
          by (rule "1.IH" [of q ok "(hasMore, c', s')" hasMore "(c', s')" c' s']) (use Inr q True m in simp_all)
        moreover have "text_parse t c (s @ u) = text_parse t c' (s' @ u)" using u True m by (simp add: text_parse.simps [of t c "s @ u"])
        moreover have "text_parse t c s = text_parse t c' s'" using Inr q True m by (simp add: text_parse.simps [of t c s])
        ultimately show ?thesis by simp
      next
        case f: False
        with text_turn_done [of t c s ok c' s'] Inr q False have "\<not> (ok \<and> active c')" by simp
        with f Inr q u show ?thesis by (auto simp: text_parse.simps [of t c])
      qed
    qed
  qed
qed

section \<open>Printing requests\<close>

text \<open>
  The text of a request, as a client sends it: the request line, one line for each header, an empty
  line. \<open>hs\<close> are the headers in the order sent.
\<close>

definition version_char :: "Version \<Rightarrow> char" where
  "version_char v = (if v = kHttp11 then CHR ''1'' else CHR ''0'')"

definition request_line :: "HttpRequest \<Rightarrow> string" where
  "request_line r = methodString r @ '' '' @ hr_path r @ hr_query r @ '' HTTP/1.'' @ [version_char (hr_version r)]"

definition header_line :: "string \<times> string \<Rightarrow> string" where
  "header_line h = fst h @ '': '' @ snd h"

definition request_text :: "HttpRequest \<Rightarrow> string_map \<Rightarrow> string" where
  "request_text r hs = request_line r @ kCRLF @ concat (map (\<lambda>h. header_line h @ kCRLF) hs) @ kCRLF"

text \<open>
  What a client may send: a known method and version, no white space in the address, the query (if
  any) from its question mark on, no colon in the name of a header, no white space around its value,
  and no carriage return anywhere.
\<close>

definition trimmed :: "string \<Rightarrow> bool" where
  "trimmed v \<longleftrightarrow> v = [] \<or> \<not> isspace (hd v) \<and> \<not> isspace (last v)"

definition header_ok :: "string \<times> string \<Rightarrow> bool" where
  "header_ok h \<longleftrightarrow> CHR '':'' \<notin> set (fst h) \<and> CHR 0x0D \<notin> set (fst h @ snd h) \<and> trimmed (snd h)"

definition request_ok :: "HttpRequest \<Rightarrow> string_map \<Rightarrow> bool" where
  "request_ok r hs \<longleftrightarrow> hr_method r \<noteq> kInvalid \<and> hr_version r \<noteq> kUnknown
     \<and> CHR ''?'' \<notin> set (hr_path r) \<and> (hr_query r = [] \<or> hd (hr_query r) = CHR ''?'')
     \<and> CHR '' '' \<notin> set (hr_path r @ hr_query r) \<and> CHR 0x0D \<notin> set (hr_path r @ hr_query r)
     \<and> (\<forall>h \<in> set hs. header_ok h)"

text \<open>What the parser makes of it.\<close>

definition received :: "Timestamp \<Rightarrow> HttpRequest \<Rightarrow> string_map \<Rightarrow> HttpRequest" where
  "received t r hs = r\<lparr>hr_receiveTime := t, hr_headers := fold (\<lambda>(f, v). map_set f v) hs []\<rparr>"

lemma map_of_map_set: "map_of (map_set k v m) = (map_of m)(k \<mapsto> v)"
  by (induction k v m rule: map_set.induct) auto

lemma map_of_fold_map_set: "map_of (fold (\<lambda>(f, v). map_set f v) hs m) = map_of m ++ map_of (rev hs)"
proof (induction hs arbitrary: m)
  case (Cons h hs)
  obtain f v where "h = (f, v)" by (cases h)
  with Cons show ?case by (simp add: map_of_map_set map_add_def fun_eq_iff split: option.splits)
qed simp

text \<open>The last header of each name wins.\<close>

lemma received_header: "getHeader f (received t r hs) = (case map_of (rev hs) f of Some v \<Rightarrow> v | None \<Rightarrow> [])"
  by (simp add: getHeader_def received_def map_of_fold_map_set)

lemma std_find_absent: "c \<notin> set xs \<Longrightarrow> std_find c xs = length xs"
  by (induction xs) (auto simp: std_find_def)

lemma method_word:
  assumes "hr_method r \<noteq> kInvalid" and "hr_method q = kInvalid"
  shows "CHR '' '' \<notin> set (methodString r)" "CHR 0x0D \<notin> set (methodString r)"
    "setMethod (methodString r) q = Inr (True, q\<lparr>hr_method := hr_method r\<rparr>)"
  using assms by (cases "hr_method r"; simp add: methodString_def setMethod_def Let_def)+

lemma process_line_parts:
  assumes "CHR '' '' \<notin> set m" and "CHR '' '' \<notin> set url" and "setMethod m r = Inr (True, r1)"
  shows "processRequestLine (m @ CHR '' '' # url @ CHR '' '' # ver) r =
    (let question = std_find (CHR ''?'') url;
         r2 = (if question \<noteq> length url then setQuery (drop question url) (setPath (take question url) r1) else setPath url r1)
     in if length ver = 8 \<and> take 7 ver = ''HTTP/1.'' then
          (if last ver = CHR ''1'' then Inr (True, setVersion kHttp11 r2)
           else if last ver = CHR ''0'' then Inr (True, setVersion kHttp10 r2) else Inr (False, r2))
        else Inr (False, r2))"
proof -
  let ?line = "m @ CHR '' '' # url @ CHR '' '' # ver"
  have 1: "std_find (CHR '' '') ?line = length m" "std_find (CHR '' '') (url @ CHR '' '' # ver) = length url"
    using assms(1,2) by simp_all
  have 2: "take (length m) ?line = m" "drop (length m + 1) ?line = url @ CHR '' '' # ver" "length m \<noteq> length ?line"
    "take (length url) (url @ CHR '' '' # ver) = url" "drop (length url + 1) (url @ CHR '' '' # ver) = ver"
    "length url \<noteq> length (url @ CHR '' '' # ver)" by simp_all
  show ?thesis unfolding processRequestLine_def Let_def 1 2(1,2) assms(3)
    by (simp only: andThen.simps prod.case if_True 1 2 simp_thms refl if_False)
qed

lemma process_request_line:
  assumes "request_ok r hs"
  shows "processRequestLine (request_line r) HttpRequest_new = Inr (True, r\<lparr>hr_receiveTime := Timestamp_invalid, hr_headers := []\<rparr>)"
proof -
  let ?ver = "''HTTP/1.'' @ [version_char (hr_version r)]"
  have v: "hr_version r = kHttp10 \<or> hr_version r = kHttp11" using assms by (cases "hr_version r") (auto simp: request_ok_def)
  have m: "hr_method r \<noteq> kInvalid" "hr_method HttpRequest_new = kInvalid" using assms by (simp_all add: request_ok_def HttpRequest_new_def)
  note w = method_word [OF m]
  have url: "CHR '' '' \<notin> set (hr_path r @ hr_query r)" using assms unfolding request_ok_def by blast
  have q: "std_find (CHR ''?'') (hr_path r @ hr_query r) = length (hr_path r)"
  proof (cases "hr_query r")
    case Nil
    with assms show ?thesis by (simp add: request_ok_def std_find_absent)
  next
    case (Cons a as)
    with assms std_find_append_notin [of "CHR ''?''" "hr_path r" as] show ?thesis by (auto simp: request_ok_def)
  qed
  have line: "request_line r = methodString r @ CHR '' '' # (hr_path r @ hr_query r) @ CHR '' '' # ?ver" by (simp add: request_line_def)
  show ?thesis unfolding line process_line_parts [OF w(1) url w(3)] q using v
    by (cases r) (auto simp: Let_def version_char_def setVersion_def setQuery_def setPath_def HttpRequest_new_def Timestamp_invalid_def)
qed

lemma strip_right: "trimmed v \<Longrightarrow> rev (dropWhile isspace (rev v)) = v"
  by (cases v rule: rev_cases) (auto simp: trimmed_def)

lemma add_header_line:
  assumes "header_ok h"
  shows "std_find (CHR '':'') (header_line h) = length (fst h)"
    "HttpRequest_addHeader (header_line h) (length (fst h)) r = r\<lparr>hr_headers := map_set (fst h) (snd h) (hr_headers r)\<rparr>"
    "CHR 0x0D \<notin> set (header_line h)"
proof -
  show "std_find (CHR '':'') (header_line h) = length (fst h)"
    using assms std_find_append_notin [of "CHR '':''" "fst h" "'' '' @ snd h"] by (simp add: header_ok_def header_line_def)
  have "dropWhile isspace ('' '' @ snd h) = snd h"
    using assms by (cases "snd h") (auto simp: header_ok_def trimmed_def isspace_def)
  with strip_right [of "snd h"] assms
  show "HttpRequest_addHeader (header_line h) (length (fst h)) r = r\<lparr>hr_headers := map_set (fst h) (snd h) (hr_headers r)\<rparr>"
    by (simp add: HttpRequest_addHeader_def header_line_def header_ok_def Let_def)
  show "CHR 0x0D \<notin> set (header_line h)" using assms by (simp add: header_ok_def header_line_def)
qed

lemma parse_headers:
  assumes "\<forall>h \<in> set hs. header_ok h" and "hc_state c = kExpectHeaders"
  shows "text_parse t c (concat (map (\<lambda>h. header_line h @ kCRLF) hs) @ kCRLF @ rest) =
    Inr (True, c\<lparr>hc_state := kGotAll, hc_request := (hc_request c)\<lparr>hr_headers := fold (\<lambda>(f, v). map_set f v) hs (hr_headers (hc_request c))\<rparr>\<rparr>, rest)"
  using assms
proof (induction hs arbitrary: c)
  case Nil
  then have "text_turn t c (kCRLF @ rest) = Inr (True, False, c\<lparr>hc_state := kGotAll\<rparr>, rest)"
    using next_line_text [of "[]" rest] by (simp add: text_turn_def std_find_def)
  then show ?case by (simp add: text_parse.simps [of t c])
next
  case (Cons h hs)
  let ?s = "concat (map (\<lambda>h. header_line h @ kCRLF) hs) @ kCRLF @ rest"
  let ?c = "c\<lparr>hc_request := (hc_request c)\<lparr>hr_headers := map_set (fst h) (snd h) (hr_headers (hc_request c))\<rparr>\<rparr>"
  have h: "header_ok h" using Cons.prems(1) by simp
  note line = add_header_line [OF h]
  have "text_turn t c (header_line h @ kCRLF @ ?s) = Inr (True, True, ?c, ?s)"
    using Cons.prems(2) line next_line_text [OF line(3), of ?s] by (simp add: text_turn_def header_line_def)
  then have "text_parse t c (header_line h @ kCRLF @ ?s) = text_parse t ?c ?s"
    by (simp add: text_parse.simps [of t c])
  moreover have "text_parse t ?c ?s = Inr (True, ?c\<lparr>hc_state := kGotAll,
      hc_request := (hc_request ?c)\<lparr>hr_headers := fold (\<lambda>(f, v). map_set f v) hs (hr_headers (hc_request ?c))\<rparr>\<rparr>, rest)"
    by (rule Cons.IH) (use Cons.prems in simp_all)
  ultimately show ?case by (cases h) simp
qed

lemma parse_request_text:
  assumes "request_ok r hs"
  shows "text_parse t HttpContext_new (request_text r hs @ rest) = Inr (True, \<lparr>hc_state = kGotAll, hc_request = received t r hs\<rparr>, rest)"
proof -
  let ?s = "concat (map (\<lambda>h. header_line h @ kCRLF) hs) @ kCRLF @ rest"
  let ?r = "r\<lparr>hr_receiveTime := t, hr_headers := []\<rparr>"
  have "CHR 0x0D \<notin> set (request_line r)"
    using assms method_word(2) [of r HttpRequest_new] by (auto simp: request_line_def request_ok_def version_char_def HttpRequest_new_def)
  then have "text_turn t HttpContext_new (request_line r @ kCRLF @ ?s) = Inr (True, True, \<lparr>hc_state = kExpectHeaders, hc_request = ?r\<rparr>, ?s)"
    using next_line_text [of "request_line r" ?s] process_request_line [OF assms]
    by (simp add: text_turn_def HttpContext_new_def setReceiveTime_def)
  then have "text_parse t HttpContext_new (request_text r hs @ rest) = text_parse t \<lparr>hc_state = kExpectHeaders, hc_request = ?r\<rparr> ?s"
    by (simp add: text_parse.simps [of t HttpContext_new] request_text_def)
  also have "\<dots> = Inr (True, \<lparr>hc_state = kGotAll, hc_request = received t r hs\<rparr>, rest)"
    using parse_headers [of hs "\<lparr>hc_state = kExpectHeaders, hc_request = ?r\<rparr>" t rest] assms
    by (simp add: request_ok_def received_def)
  finally show ?thesis .
qed

section \<open>Responses\<close>

definition response_text :: "HttpResponse \<Rightarrow> string" where
  "response_text p =
     ''HTTP/1.1 '' @ dec_int (status_code (hp_statusCode p)) @ '' '' @ hp_statusMessage p @ kCRLF
     @ (if hp_closeConnection p then ''Connection: close'' @ kCRLF
        else ''Content-Length: '' @ dec_nat (length (hp_body p)) @ kCRLF @ ''Connection: Keep-Alive'' @ kCRLF)
     @ concat (map (\<lambda>h. header_line h @ kCRLF) (hp_headers p)) @ kCRLF @ hp_body p"

lemma append_string_ok:
  assumes "buf_inv b" and "length (content b) + length str < 2 ^ 31"
  shows "\<exists>b'. append_string str b = Inr b' \<and> buf_inv b' \<and> content b' = content b @ str"
proof -
  have s: "length str < 2 ^ 31" using assms(2) by simp
  have "has_room (length str) b"
    by (rule has_room_if_small [OF assms(1)]) (use assms(2) in \<open>simp add: vector_max_size_def kCheapPrepend_def\<close>)
  then have "has_room (length (chars (StringPiece_of_string str))) b" unfolding chars_of_string [OF s] .
  from append_piece_ok [OF assms(1) piece_wf_of_string [OF s] this] show ?thesis
    unfolding append_string_def chars_of_string [OF s] .
qed

lemma append_strings_ok:
  assumes "buf_inv b" and "length (content b) + length (concat ss) < 2 ^ 31"
  shows "\<exists>b'. for_each append_string ss b = Inr b' \<and> buf_inv b' \<and> content b' = content b @ concat ss"
  using assms
proof (induction ss arbitrary: b)
  case (Cons s ss)
  from append_string_ok [OF Cons.prems(1), of s] Cons.prems(2) obtain c where
    c: "append_string s b = Inr c" "buf_inv c" "content c = content b @ s" by auto
  from Cons.IH [OF c(2)] Cons.prems(2) c(3) obtain d where
    "for_each append_string ss c = Inr d" "buf_inv d" "content d = content c @ concat ss" by auto
  with c show ?case by simp
qed simp

lemma append_headers_ok:
  assumes "buf_inv b" and "length (content b) + length (concat (map (\<lambda>h. header_line h @ kCRLF) hs)) < 2 ^ 31"
  shows "\<exists>b'. for_each append_header hs b = Inr b' \<and> buf_inv b' \<and> content b' = content b @ concat (map (\<lambda>h. header_line h @ kCRLF) hs)"
  using assms
proof (induction hs arbitrary: b)
  case (Cons h hs)
  from append_strings_ok [OF Cons.prems(1), of "[fst h, '': '', snd h, kCRLF]"] Cons.prems(2) obtain c where
    c: "append_header h b = Inr c" "buf_inv c" "content c = content b @ header_line h @ kCRLF"
    by (auto simp: append_header_def header_line_def)
  from Cons.IH [OF c(2)] Cons.prems(2) c(3) obtain d where
    "for_each append_header hs c = Inr d" "buf_inv d" "content d = content c @ concat (map (\<lambda>h. header_line h @ kCRLF) hs)" by auto
  with c show ?case by simp
qed simp

lemma status_line_fits:
  "snprintf 32 (''HTTP/1.1 '' @ dec_int (status_code s) @ '' '') = ''HTTP/1.1 '' @ dec_int (status_code s) @ '' ''"
proof -
  have "length (dec_int (status_code s)) \<le> 3"
    using length_dec_nat [of "nat (status_code s)" 3] by (cases s) (simp_all add: dec_int_def)
  then show ?thesis by (simp add: snprintf_def)
qed

lemma content_length_fits:
  assumes "n < 2 ^ 31"
  shows "snprintf 32 (''Content-Length: '' @ dec_nat n @ kCRLF) = ''Content-Length: '' @ dec_nat n @ kCRLF"
proof -
  have "length (dec_nat n) \<le> 10" using length_dec_nat [of n 10] assms by simp
  then show ?thesis by (simp add: snprintf_def kCRLF_def)
qed

lemma appendToBuffer_ok:
  assumes "buf_inv b" and "length (content b) + length (response_text p) < 2 ^ 31"
  shows "\<exists>b'. appendToBuffer p b = Inr b' \<and> buf_inv b' \<and> content b' = content b @ response_text p"
proof -
  let ?s1 = "[''HTTP/1.1 '' @ dec_int (status_code (hp_statusCode p)) @ '' '', hp_statusMessage p, kCRLF]"
  let ?s2 = "if hp_closeConnection p then [''Connection: close'' @ kCRLF]
    else [''Content-Length: '' @ dec_nat (length (hp_body p)) @ kCRLF, ''Connection: Keep-Alive'' @ kCRLF]"
  let ?hs = "concat (map (\<lambda>h. header_line h @ kCRLF) (hp_headers p))"
  have parts: "response_text p = concat ?s1 @ concat ?s2 @ ?hs @ concat [kCRLF, hp_body p]" by (simp add: response_text_def)
  have "length (response_text p) = length (concat ?s1) + length (concat ?s2) + length ?hs + length (concat [kCRLF, hp_body p])"
    unfolding parts by simp
  with assms(2) have len: "length (content b) + length (concat ?s1) + length (concat ?s2) + length ?hs + length (concat [kCRLF, hp_body p]) < 2 ^ 31"
    by linarith
  then have body: "length (hp_body p) < 2 ^ 31" by simp
  obtain b1 where 1: "for_each append_string ?s1 b = Inr b1" "buf_inv b1" "content b1 = content b @ concat ?s1"
    using append_strings_ok [OF assms(1), of ?s1] len by auto
  obtain b2 where 2: "for_each append_string ?s2 b1 = Inr b2" "buf_inv b2" "content b2 = content b1 @ concat ?s2"
    using append_strings_ok [OF 1(2), of ?s2] len 1(3) by auto
  obtain b3 where 3: "for_each append_header (hp_headers p) b2 = Inr b3" "buf_inv b3" "content b3 = content b2 @ ?hs"
    using append_headers_ok [OF 2(2), of "hp_headers p"] len 1(3) 2(3) by auto
  obtain b4 where 4: "for_each append_string [kCRLF, hp_body p] b3 = Inr b4" "buf_inv b4" "content b4 = content b3 @ concat [kCRLF, hp_body p]"
    using append_strings_ok [OF 3(2), of "[kCRLF, hp_body p]"] len 1(3) 2(3) 3(3) by auto
  have "(if hp_closeConnection p then append_string (''Connection: close'' @ kCRLF) b1
     else for_each append_string
       [snprintf 32 (''Content-Length: '' @ dec_nat (length (hp_body p)) @ kCRLF), ''Connection: Keep-Alive'' @ kCRLF] b1) = Inr b2"
    unfolding content_length_fits [OF body] using 2(1) by (cases "hp_closeConnection p") (simp_all add: andThen_eq_Inr)
  then have "appendToBuffer p b = Inr b4" using 1(1) 3(1) 4(1) unfolding appendToBuffer_def status_line_fits by simp
  moreover have "content b4 = content b @ response_text p" unfolding parts 4(3) 3(3) 2(3) 1(3) by simp
  ultimately show ?thesis using 4(2) by blast
qed

section \<open>The server's callbacks on a connection\<close>

lemma on_channel_frame:
  "on_channel f s = Inr s' \<Longrightarrow> cs_accepted s' = cs_accepted s \<and> cs_conn s' = cs_conn s"
  by (auto simp: on_channel_def andThen_eq_Inr)

lemma watch_frame:
  "the_channel t (\<lambda>ch. if \<not> isWriting ch then on_channel f t else Inr t) = Inr s' \<Longrightarrow>
    cs_accepted s' = cs_accepted t \<and> cs_conn s' = cs_conn t"
  using on_channel_frame [of f t s'] by (auto simp: the_channel_def with_channel_eq_Inr split: if_splits)

lemma buffer_rest_frame:
  assumes "buffer_rest upd data nwrote remaining s = Inr s'"
  shows "cs_accepted s' = cs_accepted s \<and> tc_inputBuffer (cs_conn s') = tc_inputBuffer (cs_conn s) \<and> conn_state s' = conn_state s"
  using assms unfolding buffer_rest_def Let_def andThen_eq_Inr
  by (elim exE conjE) (drule watch_frame, simp add: queue_functor_def)

text \<open>The kernel reports no broken connection.\<close>

definition peer_alive :: "write_call \<Rightarrow> bool" where
  "peer_alive wr \<longleftrightarrow> (\<forall>d e. wr d = Inl e \<longrightarrow> e \<noteq> EPIPE \<and> e \<noteq> ECONNRESET)"

lemma direct_write_frame:
  assumes "peer_alive wr" and "direct_write wr data s = (n, fault, s')"
  shows "\<not> fault \<and> cs_accepted s' = cs_accepted s \<and> cs_conn s' = cs_conn s"
  using assms by (auto simp: direct_write_def peer_alive_def Let_def queue_functor_def split: sum.splits if_splits)

lemma sendInLoop_accepts:
  assumes "sendInLoop True wr upd data s = Inr s'" and "conn_state s \<noteq> kDisconnected" and "peer_alive wr"
  shows "cs_accepted s' = cs_accepted s @ data \<and> tc_inputBuffer (cs_conn s') = tc_inputBuffer (cs_conn s) \<and> conn_state s' = conn_state s"
proof -
  from assms(1,2) obtain ch where ch: "cs_chans s (tc_channel (cs_conn s)) = Some ch"
    by (auto simp: sendInLoop_def the_channel_def with_channel_eq_Inr)
  obtain n fault s1 where w: "(if \<not> isWriting ch \<and> readableBytes (tc_outputBuffer (cs_conn s)) = 0
      then direct_write wr data s else (0, False, s)) = (n, fault, s1)" by (metis prod_cases3)
  have s1: "\<not> fault" "cs_accepted s1 = cs_accepted s" "cs_conn s1 = cs_conn s"
    using direct_write_frame [OF assms(3), of data s n fault s1] w by (auto split: if_splits)
  let ?s2 = "s1\<lparr>cs_accepted := cs_accepted s1 @ data\<rparr>"
  from assms(1,2) have "(if size_sub (length data) n > 0 then buffer_rest upd data n (size_sub (length data) n) ?s2 else Inr ?s2) = Inr s'"
    using s1(1) by (auto simp: sendInLoop_def the_channel_def ch w Let_def assert_that_eq_Inr split: if_splits)
  with s1 buffer_rest_frame [of upd data n "size_sub (length data) n" ?s2 s'] show ?thesis by (auto split: if_splits)
qed

lemma shutdown_frame:
  assumes "shutdown True s = Inr s'" and "conn_state s = kConnected"
  shows "cs_accepted s' = cs_accepted s \<and> tc_inputBuffer (cs_conn s') = tc_inputBuffer (cs_conn s) \<and> conn_state s' = kDisconnecting"
  using assms
  by (auto simp: shutdown_def shutdownInLoop_def Let_def the_channel_def with_channel_eq_Inr Socket_shutdownWrite_def
      split: if_splits option.splits)

definition wants_close :: "HttpRequest \<Rightarrow> bool" where
  "wants_close req \<longleftrightarrow> getHeader ''Connection'' req = ''close''
     \<or> hr_version req = kHttp10 \<and> getHeader ''Connection'' req \<noteq> ''Keep-Alive''"

definition set_input :: "Buffer \<Rightarrow> 'p conn_sys \<Rightarrow> 'p conn_sys" where
  "set_input b s = s\<lparr>cs_conn := (cs_conn s)\<lparr>tc_inputBuffer := b\<rparr>\<rparr>"

lemma safely_conjI: "safely P r \<Longrightarrow> (\<And>x. r = Inr x \<Longrightarrow> P x \<Longrightarrow> Q x) \<Longrightarrow> safely Q r"
  by (cases r) simp_all

text \<open>A call that returns, short of memory exhaustion with a result in \<open>P\<close>.\<close>

lemma returns_mono:
  "\<exists>res. f = Some res \<and> safely P res \<Longrightarrow> (\<And>x. P x \<Longrightarrow> Q x) \<Longrightarrow> \<exists>res. f = Some res \<and> safely Q res"
  using safely_mono by blast

context poller begin

lemma set_input_inv: "conn_inv s \<Longrightarrow> buf_inv b \<Longrightarrow> conn_inv (set_input b s)"
  by (cases "conn_state s") (simp_all add: conn_inv_def chan_inv_def stream_inv_def set_input_def Let_def)

lemma send_then_shutdown:
  assumes "conn_inv s" and "conn_state s = kConnected" and "write_ok wr" and "peer_alive wr" and "fits data"
  shows "safely (\<lambda>s'. conn_inv s' \<and> cs_accepted s' = cs_accepted s @ data \<and> tc_inputBuffer (cs_conn s') = tc_inputBuffer (cs_conn s)
      \<and> conn_state s' = (if close then kDisconnecting else kConnected))
    (andThen (sendInLoop True wr upd data s) (\<lambda>s'. if close then shutdown True s' else Inr s'))"
proof (rule safely_andThen)
  have "conn_state s \<noteq> kConnecting" "conn_state s \<noteq> kDisconnected" using assms(2) by simp_all
  then show "safely (\<lambda>t. conn_inv t \<and> cs_accepted t = cs_accepted s @ data
      \<and> tc_inputBuffer (cs_conn t) = tc_inputBuffer (cs_conn s) \<and> conn_state t = conn_state s) (sendInLoop True wr upd data s)"
    using sendInLoop_safe [OF assms(1) _ assms(3,5)] sendInLoop_accepts [OF _ _ assms(4), of upd data s]
    by (blast intro: safely_conjI)
next
  fix t assume t: "conn_inv t \<and> cs_accepted t = cs_accepted s @ data
      \<and> tc_inputBuffer (cs_conn t) = tc_inputBuffer (cs_conn s) \<and> conn_state t = conn_state s"
  then obtain u where u: "shutdown True t = Inr u" "conn_inv u" using shutdown_safe by blast
  with shutdown_frame [OF u(1)] t assms(2)
  show "safely (\<lambda>s'. conn_inv s' \<and> cs_accepted s' = cs_accepted s @ data \<and> tc_inputBuffer (cs_conn s') = tc_inputBuffer (cs_conn s)
      \<and> conn_state s' = (if close then kDisconnecting else kConnected)) (if close then shutdown True t else Inr t)"
    by simp
qed

lemma onRequest_serves:
  assumes "conn_inv s" and "conn_state s = kConnected" and "write_ok wr" and "peer_alive wr"
    and p: "p = cb req (HttpResponse_new (wants_close req))" and "length (response_text p) < 2 ^ 31"
  shows "safely (\<lambda>s'. conn_inv s' \<and> cs_accepted s' = cs_accepted s @ response_text p
      \<and> tc_inputBuffer (cs_conn s') = tc_inputBuffer (cs_conn s) \<and> conn_state s' = (if hp_closeConnection p then kDisconnecting else kConnected))
    (HttpServer_onRequest cb wr upd req s)"
proof -
  obtain b where b: "Buffer_new kInitialSize = Inr b" "buf_inv b" "content b = []" using Buffer_new_default by blast
  from appendToBuffer_ok [OF b(2), of p] assms(6) b(3) obtain b' where
    b': "appendToBuffer p b = Inr b'" "buf_inv b'" "content b' = response_text p" by auto
  have bytes: "bytes_between b' (peek b') (peek b' + readableBytes b') = response_text p"
    unfolding readableBytes_content [OF b'(2)] using bytes_from_peek [OF b'(2), of "length (content b')"] b'(3) by simp
  have "HttpServer_onRequest cb wr upd req s =
      andThen (sendInLoop True wr upd (response_text p) s) (\<lambda>s'. if hp_closeConnection p then shutdown True s' else Inr s')"
    using b(1) b'(1) assms(2) p
    by (simp add: HttpServer_onRequest_def Let_def wants_close_def send_buffer_def bytes andThen_assoc)
  moreover have "fits (response_text p)" using assms(6) by (simp add: fits_def vector_max_size_def)
  ultimately show ?thesis using send_then_shutdown [OF assms(1-4), of "response_text p" "hp_closeConnection p"] by simp
qed

lemma onMessage_serves:
  assumes "conn_inv s" and "conn_state s = kConnected" and "write_ok wr" and "peer_alive wr"
    and "request_ok r hs" and "content (tc_inputBuffer (cs_conn s)) = request_text r hs @ rest"
    and p: "p = cb (received t r hs) (HttpResponse_new (wants_close (received t r hs)))" and "length (response_text p) < 2 ^ 31"
  shows "\<exists>res. HttpServer_onMessage cb wr upd t (Some HttpContext_new, s) = Some res
    \<and> safely (\<lambda>(ctx, s'). ctx = Some HttpContext_new \<and> conn_inv s' \<and> cs_accepted s' = cs_accepted s @ response_text p
        \<and> content (tc_inputBuffer (cs_conn s')) = rest \<and> conn_state s' = (if hp_closeConnection p then kDisconnecting else kConnected)) res"
proof -
  let ?b = "tc_inputBuffer (cs_conn s)"
  have b: "buf_inv ?b" using assms(1) by (simp add: conn_inv_def stream_inv_def)
  let ?c = "\<lparr>hc_state = kGotAll, hc_request = received t r hs\<rparr>"
  from parseRequest_text [OF b active_new, of t] assms(6) parse_request_text [OF assms(5), of t rest] obtain b' where
    b': "parseRequest t HttpContext_new ?b = Some (Inr (True, ?c, b'))" "buf_inv b'" "content b' = rest" by auto
  have inv: "conn_inv (set_input b' s)" "conn_state (set_input b' s) = kConnected"
    using set_input_inv [OF assms(1) b'(2)] assms(2) by (simp_all add: set_input_def)
  have "HttpContext_reset ?c = HttpContext_new"
    by (simp add: HttpContext_reset_def HttpContext_new_def HttpRequest_swap_def HttpRequest_new_def received_def)
  then have "HttpServer_onMessage cb wr upd t (Some HttpContext_new, s) =
      Some (andThen (HttpServer_onRequest cb wr upd (received t r hs) (set_input b' s)) (\<lambda>s'. Inr (Some HttpContext_new, s')))"
    using b'(1) by (simp add: HttpServer_onMessage_def Let_def gotAll_def set_input_def)
  moreover have "safely (\<lambda>(ctx, s'). ctx = Some HttpContext_new \<and> conn_inv s' \<and> cs_accepted s' = cs_accepted s @ response_text p
        \<and> content (tc_inputBuffer (cs_conn s')) = rest \<and> conn_state s' = (if hp_closeConnection p then kDisconnecting else kConnected))
      (andThen (HttpServer_onRequest cb wr upd (received t r hs) (set_input b' s)) (\<lambda>s'. Inr (Some HttpContext_new, s')))"
    by (rule safely_andThen [OF onRequest_serves [of "set_input b' s" wr p cb "received t r hs", OF inv assms(3,4) p assms(8)]]) (simp add: set_input_def b'(3))
  ultimately show ?thesis by blast
qed

lemma onMessage_rejects:
  assumes "conn_inv s" and "conn_state s = kConnected" and "write_ok wr" and "peer_alive wr"
    and "next_line (content (tc_inputBuffer (cs_conn s))) = Some (line, rest)"
    and "processRequestLine line HttpRequest_new = Inr (False, r)"
  shows "\<exists>res. HttpServer_onMessage cb wr upd t (Some HttpContext_new, s) = Some res
    \<and> safely (\<lambda>(ctx, s'). ctx = Some \<lparr>hc_state = kExpectRequestLine, hc_request = r\<rparr> \<and> conn_inv s'
        \<and> cs_accepted s' = cs_accepted s @ ''HTTP/1.1 400 Bad Request'' @ kCRLF @ kCRLF
        \<and> content (tc_inputBuffer (cs_conn s')) = content (tc_inputBuffer (cs_conn s)) \<and> conn_state s' = kDisconnecting) res"
proof -
  let ?b = "tc_inputBuffer (cs_conn s)" and ?reply = "''HTTP/1.1 400 Bad Request'' @ kCRLF @ kCRLF"
  let ?c = "\<lparr>hc_state = kExpectRequestLine, hc_request = r\<rparr>"
  have b: "buf_inv ?b" using assms(1) by (simp add: conn_inv_def stream_inv_def)
  have "text_parse t HttpContext_new (content ?b) = Inr (False, ?c, content ?b)"
    unfolding text_parse.simps [of t HttpContext_new] using assms(5,6) by (simp add: text_turn_def HttpContext_new_def)
  with parseRequest_text [OF b active_new, of t] obtain b' where
    b': "parseRequest t HttpContext_new ?b = Some (Inr (False, ?c, b'))" "buf_inv b'" "content b' = content ?b" by auto
  have inv: "conn_inv (set_input b' s)" "conn_state (set_input b' s) = kConnected"
    using set_input_inv [OF assms(1) b'(2)] assms(2) by (simp_all add: set_input_def)
  have fits: "fits ?reply" by (simp add: fits_def vector_max_size_def kCRLF_def)
  have "HttpServer_onMessage cb wr upd t (Some HttpContext_new, s) =
      Some (andThen (andThen (sendInLoop True wr upd ?reply (set_input b' s)) (\<lambda>s'. if True then shutdown True s' else Inr s'))
        (\<lambda>s'. Inr (Some ?c, s')))"
    using b'(1) inv(2) by (simp add: HttpServer_onMessage_def Let_def gotAll_def set_input_def send_def)
  moreover have "safely (\<lambda>(ctx, s'). ctx = Some ?c \<and> conn_inv s' \<and> cs_accepted s' = cs_accepted s @ ?reply
        \<and> content (tc_inputBuffer (cs_conn s')) = content ?b \<and> conn_state s' = kDisconnecting)
      (andThen (andThen (sendInLoop True wr upd ?reply (set_input b' s)) (\<lambda>s'. if True then shutdown True s' else Inr s'))
        (\<lambda>s'. Inr (Some ?c, s')))"
    by (rule safely_andThen [OF send_then_shutdown [OF inv assms(3,4) fits]]) (simp add: set_input_def b'(3))
  ultimately show ?thesis by blast
qed

end

text \<open>A context whose request line failed after its method was recognised refuses to look at it again.\<close>

lemma rejected_line_again:
  assumes "processRequestLine line HttpRequest_new = Inr (ok, r)" and "hr_method r \<noteq> kInvalid"
  shows "processRequestLine line r = Inl (Assert_failed ''method_ == kInvalid'')"
proof -
  have "std_find (CHR '' '') line \<noteq> length line"
    using assms by (auto simp: processRequestLine_def HttpRequest_new_def Let_def split: if_splits)
  then show ?thesis using assms(2) by (simp add: processRequestLine_def Let_def setMethod_def)
qed

lemma rejected_again:
  assumes "buf_inv (tc_inputBuffer (cs_conn s))" and "next_line (content (tc_inputBuffer (cs_conn s))) = Some (line, rest)"
    and "processRequestLine line HttpRequest_new = Inr (ok, r)" and "hr_method r \<noteq> kInvalid"
  shows "HttpServer_onMessage cb wr upd t (Some \<lparr>hc_state = kExpectRequestLine, hc_request = r\<rparr>, s) =
    Some (Inl (Assert_failed ''method_ == kInvalid''))"
proof -
  let ?c = "\<lparr>hc_state = kExpectRequestLine, hc_request = r\<rparr>"
  have "text_parse t ?c (content (tc_inputBuffer (cs_conn s))) = Inl (Assert_failed ''method_ == kInvalid'')"
    using assms(2) rejected_line_again [OF assms(3,4)] by (simp add: text_parse.simps [of t ?c] text_turn_def)
  with parseRequest_text [OF assms(1), of ?c t] show ?thesis by (simp add: active_def HttpServer_onMessage_def)
qed

lemma text_parse_state: "text_parse t c s = Inr (ok, c', s') \<Longrightarrow> active c \<Longrightarrow> active c' \<or> gotAll c'"
proof (induction t c s arbitrary: ok c' s' rule: text_parse.induct)
  case (1 t c s)
  from "1.prems" obtain ok1 hasMore c1 s1 where turn: "text_turn t c s = Inr (ok1, hasMore, c1, s1)"
    by (cases "text_turn t c s") (auto simp: text_parse.simps [of t c s])
  show ?case
  proof (cases hasMore)
    case True
    with text_turn_more [of t c s] turn "1.prems" have m: "active c1" "length s1 < length s" by auto
    have "text_parse t c1 s1 = Inr (ok, c', s')" using "1.prems" turn True m by (simp add: text_parse.simps [of t c s])
    from "1.IH" [OF turn refl refl refl _ this m(1)] True m(2) show ?thesis by simp
  next
    case False
    with turn "1.prems" show ?thesis
      by (auto simp: text_parse.simps [of t c s] text_turn_def active_def gotAll_def andThen_eq_Inr split: option.splits prod.splits if_splits)
  qed
qed

section \<open>Properties\<close>

text \<open>A buffer holding a given text, and a connection whose user does nothing, for the examples.\<close>

lemma buffer_with: "length s \<le> 1024 \<Longrightarrow> \<exists>b. buf_inv b \<and> content b = s"
  using append_ok [OF init_buffer(2), of "length s" s] init_buffer(3) by (auto simp: has_room_def init_buffer_def)

lemma idle_ok: "user_ok upd (\<lambda>ev s. Inr s)"
  unfolding user_ok_def by (intro allI exI [of _ "[]"]) simp

lemma idle_connection: "epoll_connection (\<lambda>k. k) table_ctl (\<lambda>ev s. Inr s) sample_up"
proof -
  have "conn_step (\<lambda>ev s. Inr s) sample_upd sample_start sample_up"
    by (rule conn_step.established [of _ _ 9]) (simp add: sample_established)
  then have "(conn_step (\<lambda>ev s. Inr s) sample_upd)\<^sup>*\<^sup>* (conn_start False None sample_conn (empty_epoll Map.empty) [1 \<mapsto> conn_channel]) sample_up"
    unfolding sample_start_def by (rule r_into_rtranclp)
  moreover have "ep_inv (\<lambda>k. k) (empty_epoll Map.empty) Map.empty" by (rule empty_epoll_inv) simp
  ultimately show ?thesis by (intro epoll_connectionI [OF _ _ _ _ sample_new]) (simp_all add: empty_epoll_inv(2))
qed

lemma sample_up_state: "conn_state sample_up = kConnected" "cs_accepted sample_up = []"
  by (simp_all add: sample_up_def sample_start_def conn_start_def)

definition sample_request :: HttpRequest where
  "sample_request = \<lparr>hr_method = kGet, hr_version = kHttp11, hr_path = ''/a'', hr_query = ''?b'',
     hr_receiveTime = Timestamp_invalid, hr_headers = []\<rparr>"

lemma sample_request_ok: "request_ok sample_request [(''Host'', ''h''), (''Host'', ''i'')]"
  by (simp add: request_ok_def sample_request_def header_ok_def trimmed_def isspace_def)

lemma sample_request_text: "length (request_text sample_request [(''Host'', ''h''), (''Host'', ''i'')]) \<le> 1000"
  by (simp add: request_text_def request_line_def methodString_def sample_request_def header_line_def kCRLF_def)

text \<open>C20. A request survives the wire: the text a client sends for a request (known method and version, no stray
  white space) is parsed completely from whatever buffer holds it, the parsed request is the one that
  was sent, with the last value of each repeated header, and the bytes behind it are left in the buffer.\<close>

theorem http_request_roundtrip:
  assumes "request_ok r hs" and "buf_inv b" and "content b = request_text r hs @ rest"
  shows "\<exists>c b'. parseRequest t HttpContext_new b = Some (Inr (True, c, b')) \<and> gotAll c \<and> content b' = rest
    \<and> hr_method (hc_request c) = hr_method r \<and> hr_version (hc_request c) = hr_version r
    \<and> hr_path (hc_request c) = hr_path r \<and> hr_query (hc_request c) = hr_query r \<and> hr_receiveTime (hc_request c) = t
    \<and> (\<forall>f. getHeader f (hc_request c) = (case map_of (rev hs) f of Some v \<Rightarrow> v | None \<Rightarrow> []))"
proof -
  from parseRequest_text [OF assms(2) active_new, of t] assms(3) parse_request_text [OF assms(1), of t rest] obtain b' where
    b': "parseRequest t HttpContext_new b = Some (Inr (True, \<lparr>hc_state = kGotAll, hc_request = received t r hs\<rparr>, b'))" "content b' = rest"
    by auto
  have "hr_method (received t r hs) = hr_method r" "hr_version (received t r hs) = hr_version r" "hr_path (received t r hs) = hr_path r"
    "hr_query (received t r hs) = hr_query r" "hr_receiveTime (received t r hs) = t" by (simp_all add: received_def)
  with b' received_header [of _ t r hs] show ?thesis by (simp add: gotAll_def)
qed

theorem http_request_roundtrip_witness:
  "\<exists>b c b'. content b = request_text sample_request [(''Host'', ''h''), (''Host'', ''i'')] @ ''rest''
     \<and> parseRequest 7 HttpContext_new b = Some (Inr (True, c, b')) \<and> content b' = ''rest'' \<and> hr_query (hc_request c) = ''?b''
     \<and> getHeader ''Host'' (hc_request c) = ''i''"
proof -
  let ?s = "request_text sample_request [(''Host'', ''h''), (''Host'', ''i'')] @ ''rest''"
  from buffer_with [of ?s] sample_request_text obtain b where b: "buf_inv b" "content b = ?s" by auto
  from http_request_roundtrip [OF sample_request_ok b, of 7] b(2) show ?thesis by (fastforce simp: sample_request_def)
qed

text \<open>The result of a call with the buffer seen as its content.\<close>

definition parsed :: "(bool \<times> HttpContext \<times> Buffer) outcome option \<Rightarrow> (bool \<times> HttpContext \<times> string) outcome option" where
  "parsed = map_option (map_sum id (\<lambda>(ok, c, b). (ok, c, content b)))"

lemma parsed_text: "buf_inv b \<Longrightarrow> active c \<Longrightarrow> parsed (parseRequest t c b) = Some (text_parse t c (content b))"
  using parseRequest_text [of b c t] by (cases "text_parse t c (content b)") (auto simp: parsed_def)

text \<open>C23. How the bytes of a request are cut into arrivals does not matter. The parser returns for every buffer, in
  the two states in which it is called; and if more bytes arrive, going on from where it waited gives the
  same answer, the same request and the same rest as one call on all the bytes. A request that is complete
  or rejected stays so. In the other two states the call never returns.\<close>

theorem http_parse_chunks:
  assumes "buf_inv b1" and "buf_inv b2" and "content b2 = content b1 @ u"
  shows "(parseRequest t c b1 \<noteq> None \<longleftrightarrow> hc_state c \<in> {kExpectRequestLine, kExpectHeaders})
    \<and> (\<forall>ok c' b'. parseRequest t c b1 = Some (Inr (ok, c', b')) \<longrightarrow>
         (if ok \<and> \<not> gotAll c'
          then \<forall>b3. buf_inv b3 \<and> content b3 = content b' @ u \<longrightarrow> parsed (parseRequest t c b2) = parsed (parseRequest t c' b3)
          else parsed (parseRequest t c b2) = Some (Inr (ok, c', content b' @ u))))"
proof (intro conjI allI impI)
  show "(parseRequest t c b1 \<noteq> None) = (hc_state c \<in> {kExpectRequestLine, kExpectHeaders})"
    using parsed_text [OF assms(1), of c t] parseRequest_active [of t c b1] by (auto simp: active_def parsed_def)
  fix ok c' b' assume p: "parseRequest t c b1 = Some (Inr (ok, c', b'))"
  then have a: "active c" by (rule parseRequest_active)
  with parsed_text [OF assms(1) a, of t] p have s: "text_parse t c (content b1) = Inr (ok, c', content b')" by (simp add: parsed_def)
  note app = text_parse_append [OF a, of t "content b1" u, unfolded s]
  have all: "parsed (parseRequest t c b2) = Some (text_parse t c (content b1 @ u))" using parsed_text [OF assms(2) a, of t] assms(3) by simp
  show "if ok \<and> \<not> gotAll c' then \<forall>b3. buf_inv b3 \<and> content b3 = content b' @ u \<longrightarrow> parsed (parseRequest t c b2) = parsed (parseRequest t c' b3)
      else parsed (parseRequest t c b2) = Some (Inr (ok, c', content b' @ u))"
    using all app text_parse_state [OF s a] parsed_text [of _ c' t] by (auto simp: active_def gotAll_def)
qed

lemma sample_first_chunk:
  "text_parse 7 HttpContext_new (request_line sample_request @ kCRLF @ ''Ho'') =
    Inr (True, \<lparr>hc_state = kExpectHeaders, hc_request = sample_request\<lparr>hr_receiveTime := 7\<rparr>\<rparr>, ''Ho'')"
proof -
  let ?c = "\<lparr>hc_state = kExpectHeaders, hc_request = sample_request\<lparr>hr_receiveTime := 7\<rparr>\<rparr>"
  have cr: "CHR 0x0D \<notin> set (request_line sample_request)"
    by (simp add: request_line_def methodString_def sample_request_def version_char_def)
  have "text_turn 7 HttpContext_new (request_line sample_request @ kCRLF @ ''Ho'') = Inr (True, True, ?c, ''Ho'')"
    using process_request_line [OF sample_request_ok] unfolding text_turn_def next_line_text [OF cr]
    by (simp add: HttpContext_new_def setReceiveTime_def sample_request_def)
  then have "text_parse 7 HttpContext_new (request_line sample_request @ kCRLF @ ''Ho'') = text_parse 7 ?c ''Ho''"
    unfolding text_parse.simps [of 7 HttpContext_new] by simp
  also have "\<dots> = Inr (True, ?c, ''Ho'')"
    unfolding text_parse.simps [of 7 ?c] by (simp add: text_turn_def next_line_def kCRLF_def)
  finally show ?thesis .
qed

theorem http_parse_chunks_witness:
  "\<exists>b1 b2 b3 c b'. content b1 = request_line sample_request @ kCRLF @ ''Ho'' \<and> content b2 = content b1 @ ''st: i'' @ kCRLF @ kCRLF
     \<and> parseRequest 7 HttpContext_new b1 = Some (Inr (True, c, b')) \<and> hc_state c = kExpectHeaders \<and> content b3 = ''Host: i'' @ kCRLF @ kCRLF
     \<and> parsed (parseRequest 7 HttpContext_new b2) = parsed (parseRequest 7 c b3)"
proof -
  let ?u = "''st: i'' @ kCRLF @ kCRLF"
  let ?s = "request_line sample_request @ kCRLF @ ''Ho''"
  have "length ?s + length ?u \<le> 1024" by (simp add: request_line_def methodString_def sample_request_def kCRLF_def)
  then obtain b1 b2 b3 where b: "buf_inv b1" "content b1 = ?s" "buf_inv b2" "content b2 = content b1 @ ?u" "buf_inv b3" "content b3 = ''Ho'' @ ?u"
    using buffer_with [of ?s] buffer_with [of "?s @ ?u"] buffer_with [of "''Ho'' @ ?u"] by auto
  from parseRequest_text [OF b(1) active_new, of 7] b(2) sample_first_chunk obtain b' where b':
    "parseRequest 7 HttpContext_new b1 = Some (Inr (True, \<lparr>hc_state = kExpectHeaders, hc_request = sample_request\<lparr>hr_receiveTime := 7\<rparr>\<rparr>, b'))"
    "content b' = ''Ho''" by auto
  let ?c = "\<lparr>hc_state = kExpectHeaders, hc_request = sample_request\<lparr>hr_receiveTime := 7\<rparr>\<rparr>"
  have "\<not> gotAll ?c" by (simp add: gotAll_def)
  with http_parse_chunks [OF b(1,3,4), of 7 HttpContext_new, THEN conjunct2, rule_format, OF b'(1)] b(5,6) b'(2)
  have "parsed (parseRequest 7 HttpContext_new b2) = parsed (parseRequest 7 ?c b3)" by simp
  moreover have "content b3 = ''Host: i'' @ kCRLF @ kCRLF" "hc_state ?c = kExpectHeaders" using b(6) by simp_all
  ultimately show ?thesis using b(2,4) b'(1) by blast
qed

text \<open>C17. Request in, response out. On a live connection with a fresh context, a complete request in the input buffer is
  answered with exactly the response the user's callback made: its text is handed to the connection as one message,
  the request (and nothing behind it) is gone from the input buffer, the context is fresh again, and the
  connection is shut down exactly when the response says so, which it does by default for \<^verbatim>\<open>Connection: close\<close> and for
  HTTP/1.0 without \<^verbatim>\<open>Keep-Alive\<close>. A second request already in the buffer is not looked at.\<close>

theorem http_serves_request:
  assumes "epoll_ctl_ok interest ctl" and "user_ok (EPollPoller_updateChannel ctl True) user" and "epoll_connection interest ctl user s"
    and "conn_state s = kConnected" and "write_ok wr" and "peer_alive wr" and "buf_inv b"
    and "request_ok r hs" and "content b = request_text r hs @ rest"
    and "p = cb (received t r hs) (HttpResponse_new (wants_close (received t r hs)))" and "length (response_text p) < 2 ^ 31"
  shows "\<exists>res. HttpServer_onMessage cb wr (EPollPoller_updateChannel ctl True) t (Some HttpContext_new, set_input b s) = Some res
    \<and> safely (\<lambda>(ctx, s'). ctx = Some HttpContext_new \<and> cs_accepted s' = cs_accepted s @ response_text p
        \<and> content (tc_inputBuffer (cs_conn s')) = rest \<and> conn_state s' = (if hp_closeConnection p then kDisconnecting else kConnected)) res"
proof -
  note P = epoll_is_poller [OF assms(1)]
  from epoll_connection_inv [OF assms(1-3)] have "epoll_conn_inv interest s" by blast
  from poller.set_input_inv [OF P this assms(7)] have i: "epoll_conn_inv interest (set_input b s)" .
  have st: "conn_state (set_input b s) = kConnected" "content (tc_inputBuffer (cs_conn (set_input b s))) = request_text r hs @ rest"
    "cs_accepted (set_input b s) = cs_accepted s" using assms(4,9) by (simp_all add: set_input_def)
  from poller.onMessage_serves [where cb = cb and t = t, OF P i st(1) assms(5,6,8) st(2) assms(10,11)] st(3) show ?thesis
    by (auto elim!: safely_mono)
qed

theorem http_serves_request_witness:
  "\<exists>b res. content b = request_text sample_request [(''Host'', ''h''), (''Host'', ''i'')] @ []
     \<and> HttpServer_onMessage defaultHttpCallback two sample_upd 7 (Some HttpContext_new, set_input b sample_up) = Some res
     \<and> safely (\<lambda>(ctx, s'). cs_accepted s' = ''HTTP/1.1 404 Not Found'' @ kCRLF @ ''Connection: close'' @ kCRLF @ kCRLF \<and> conn_state s' = kDisconnecting) res"
proof -
  let ?hs = "[(''Host'', ''h''), (''Host'', ''i'')]"
  let ?q = "received 7 sample_request ?hs"
  let ?p = "defaultHttpCallback ?q (HttpResponse_new (wants_close ?q))"
  from buffer_with [of "request_text sample_request ?hs @ []"] sample_request_text obtain b where
    b: "buf_inv b" "content b = request_text sample_request ?hs @ []" by auto
  have p: "response_text ?p = ''HTTP/1.1 404 Not Found'' @ kCRLF @ ''Connection: close'' @ kCRLF @ kCRLF" "hp_closeConnection ?p"
    by (simp_all add: response_text_def defaultHttpCallback_def setCloseConnection_def setStatusMessage_def setStatusCode_def
      HttpResponse_new_def dec_int_def dec_nat.simps digit_chars)
  have len: "length (response_text ?p) < 2 ^ 31" unfolding p(1) by (simp add: kCRLF_def)
  have alive: "peer_alive two" by (simp add: peer_alive_def two_def)
  from http_serves_request [OF table_ctl_ok idle_ok idle_connection sample_up_state(1) two_ok(1) alive b(1) sample_request_ok b(2), where cb = defaultHttpCallback and t = 7, OF refl len]
  show ?thesis using b(2) p sample_up_state(2) by (auto elim!: safely_mono)
qed

text \<open>C37. A rejected request can bring the server down. When a request line has a known method but is otherwise
  malformed, the server answers 400 and shuts down its side, but it keeps the line in the buffer and the method in
  the context: whatever the client sends next, the second call of \<^verbatim>\<open>setMethod\<close> fails its assertion.\<close>

theorem http_bad_request_aborts:
  assumes "epoll_ctl_ok interest ctl" and "user_ok (EPollPoller_updateChannel ctl True) user" and "epoll_connection interest ctl user s"
    and "conn_state s = kConnected" and "write_ok wr" and "peer_alive wr" and "buf_inv b"
    and "content b = line @ kCRLF @ rest" and "CHR 0x0D \<notin> set line"
    and "processRequestLine line HttpRequest_new = Inr (False, r)" and "hr_method r \<noteq> kInvalid"
  shows "\<exists>res. HttpServer_onMessage cb wr (EPollPoller_updateChannel ctl True) t (Some HttpContext_new, set_input b s) = Some res
    \<and> safely (\<lambda>(ctx, s'). cs_accepted s' = cs_accepted s @ ''HTTP/1.1 400 Bad Request'' @ kCRLF @ kCRLF
        \<and> conn_state s' = kDisconnecting \<and> content (tc_inputBuffer (cs_conn s')) = content b
        \<and> (\<forall>b' u. buf_inv b' \<and> content b' = content b @ u \<longrightarrow>
             HttpServer_onMessage cb wr (EPollPoller_updateChannel ctl True) t' (ctx, set_input b' s') = Some (Inl (Assert_failed ''method_ == kInvalid'')))) res"
proof -
  note P = epoll_is_poller [OF assms(1)]
  from epoll_connection_inv [OF assms(1-3)] have "epoll_conn_inv interest s" by blast
  from poller.set_input_inv [OF P this assms(7)] have i: "epoll_conn_inv interest (set_input b s)" .
  have line: "next_line (content b @ u) = Some (line, rest @ u)" for u
    using next_line_text [OF assms(9), of "rest @ u"] assms(8) by simp
  have st: "conn_state (set_input b s) = kConnected" "next_line (content (tc_inputBuffer (cs_conn (set_input b s)))) = Some (line, rest)"
    "cs_accepted (set_input b s) = cs_accepted s" "content (tc_inputBuffer (cs_conn (set_input b s))) = content b"
    using assms(4) line [of "[]"] by (simp_all add: set_input_def)
  have again: "HttpServer_onMessage cb wr (EPollPoller_updateChannel ctl True) t' (Some \<lparr>hc_state = kExpectRequestLine, hc_request = r\<rparr>, set_input b' s')
      = Some (Inl (Assert_failed ''method_ == kInvalid''))" if "buf_inv b'" "content b' = content b @ u" for b' u s'
    by (rule rejected_again [OF _ _ assms(10,11)]) (use that line in \<open>simp_all add: set_input_def\<close>)
  show ?thesis
    by (rule returns_mono [OF poller.onMessage_rejects [where cb = cb and t = t, OF P i st(1) assms(5,6) st(2) assms(10)]])
      (use st(3,4) again in auto)
qed

lemma sample_bad_line: "\<exists>r. processRequestLine ''GET / HTTP/2.0'' HttpRequest_new = Inr (False, r) \<and> hr_method r \<noteq> kInvalid"
  using process_line_parts [of "''GET''" "''/''" HttpRequest_new "HttpRequest_new\<lparr>hr_method := kGet\<rparr>" "''HTTP/2.0''"]
  by (simp add: setMethod_def HttpRequest_new_def setPath_def setQuery_def Let_def)

theorem http_bad_request_aborts_witness:
  "\<exists>b res. content b = ''GET / HTTP/2.0'' @ kCRLF @ []
     \<and> HttpServer_onMessage defaultHttpCallback two sample_upd 7 (Some HttpContext_new, set_input b sample_up) = Some res
     \<and> safely (\<lambda>(ctx, s'). \<forall>b'. buf_inv b' \<and> content b' = content b @ ''x'' \<longrightarrow>
          HttpServer_onMessage defaultHttpCallback two sample_upd 8 (ctx, set_input b' s') = Some (Inl (Assert_failed ''method_ == kInvalid''))) res"
proof -
  let ?s = "''GET / HTTP/2.0'' @ kCRLF @ []"
  have "length ?s \<le> 1024" by (simp add: kCRLF_def)
  then obtain b where b: "buf_inv b" "content b = ?s" using buffer_with [of ?s] by blast
  from sample_bad_line obtain r where r: "processRequestLine ''GET / HTTP/2.0'' HttpRequest_new = Inr (False, r)" "hr_method r \<noteq> kInvalid" by blast
  have alive: "peer_alive two" and cr: "CHR 0x0D \<notin> set ''GET / HTTP/2.0''" by (simp_all add: peer_alive_def two_def)
  have "\<exists>res. HttpServer_onMessage defaultHttpCallback two sample_upd 7 (Some HttpContext_new, set_input b sample_up) = Some res
     \<and> safely (\<lambda>(ctx, s'). \<forall>b'. buf_inv b' \<and> content b' = content b @ ''x'' \<longrightarrow>
          HttpServer_onMessage defaultHttpCallback two sample_upd 8 (ctx, set_input b' s') = Some (Inl (Assert_failed ''method_ == kInvalid''))) res"
    by (rule returns_mono [OF http_bad_request_aborts
          [OF table_ctl_ok idle_ok idle_connection sample_up_state(1) two_ok(1) alive b cr r, of defaultHttpCallback 7 8]]) blast
  with b(2) show ?thesis by blast
qed

end
