(* ===== verification/Muduo_TcpClient.thy ===== *)
theory Muduo_TcpClient
  imports Muduo_TcpConnection "HOL-Library.Multiset"
begin

text \<open>
  Clients: \<^verbatim>\<open>net/Connector.cc\<close>, which connects a socket, retrying with growing delays, and
  \<^verbatim>\<open>net/TcpClient.cc\<close>, which turns the connected socket into a connection. The connector's state is
  surrounded by the poller and the channels, by the functors and timers it has asked its loop for, and
  by the history of the sockets it created, closed and handed to its owner. Results of system calls
  are arguments. Log lines are left out.
\<close>

section \<open>Connector\<close>

datatype States = Co_kDisconnected | Co_kConnecting | Co_kConnected

definition kMaxRetryDelayMs :: int where "kMaxRetryDelayMs = 30 * 1000"

definition kInitRetryDelayMs :: int where "kInitRetryDelayMs = 500"

record Connector =
  co_loop :: addr
  co_serverAddr :: InetAddress
  co_connect :: bool
  co_state :: States
  co_channel :: "addr option"
  co_retryDelayMs :: int

datatype connector_functor = StartInLoop | StopInLoop | ResetChannel

record 'p connector_sys =
  cn_connector :: Connector
  cn_poller :: 'p
  cn_chans :: chans
  cn_pending :: "connector_functor list"
  cn_timers :: "int list"
  cn_opened :: "int list"
  cn_closed :: "int list"
  cn_handed :: "int list"

definition Connector_new :: "addr \<Rightarrow> InetAddress \<Rightarrow> Connector" where
  "Connector_new loop serverAddr = \<lparr>co_loop = loop, co_serverAddr = serverAddr, co_connect = False, co_state = Co_kDisconnected,
     co_channel = None, co_retryDelayMs = kInitRetryDelayMs\<rparr>"

definition Connector_delete :: "Connector \<Rightarrow> unit outcome" where
  "Connector_delete c = assert_that (co_channel c = None) ''!channel_'' (Inr ())"

definition co_update :: "(Connector \<Rightarrow> Connector) \<Rightarrow> 'p connector_sys \<Rightarrow> 'p connector_sys" where
  "co_update f s = s\<lparr>cn_connector := f (cn_connector s)\<rparr>"

definition co_setState :: "States \<Rightarrow> 'p connector_sys \<Rightarrow> 'p connector_sys" where
  "co_setState st = co_update (\<lambda>c. c\<lparr>co_state := st\<rparr>)"

definition co_queue :: "connector_functor \<Rightarrow> 'p connector_sys \<Rightarrow> 'p connector_sys" where
  "co_queue f s = s\<lparr>cn_pending := cn_pending s @ [f]\<rparr>"

definition sockets_close :: "int \<Rightarrow> 'p connector_sys \<Rightarrow> 'p connector_sys" where
  "sockets_close fd s = s\<lparr>cn_closed := cn_closed s @ [fd]\<rparr>"

definition co_on_channel :: "'p chan_call \<Rightarrow> 'p connector_sys \<Rightarrow> 'p connector_sys outcome" where
  "co_on_channel f s = (case co_channel (cn_connector s) of
       None \<Rightarrow> Inl Bad_pointer
     | Some a \<Rightarrow> andThen (f a (cn_poller s, cn_chans s)) (\<lambda>(p, h). Inr (s\<lparr>cn_poller := p, cn_chans := h\<rparr>)))"

definition co_retry :: "int \<Rightarrow> 'p connector_sys \<Rightarrow> 'p connector_sys" where
  "co_retry sockfd s =
     (let s1 = co_setState Co_kDisconnected (sockets_close sockfd s); d = co_retryDelayMs (cn_connector s1) in
      if co_connect (cn_connector s1) then
        co_update (\<lambda>c. c\<lparr>co_retryDelayMs := min (d * 2) kMaxRetryDelayMs\<rparr>) (s1\<lparr>cn_timers := cn_timers s1 @ [d]\<rparr>)
      else s1)"

text \<open>\<open>a\<close> is the address of the new channel.\<close>

definition connecting :: "'p chan_call \<Rightarrow> addr \<Rightarrow> int \<Rightarrow> 'p connector_sys \<Rightarrow> 'p connector_sys outcome" where
  "connecting upd a sockfd s =
     (let s1 = co_setState Co_kConnecting s in
      assert_that (co_channel (cn_connector s1) = None) ''!channel_''
        (let s2 = co_update (\<lambda>c. c\<lparr>co_channel := Some a\<rparr>) s1;
             ch = setErrorCallback (setWriteCallback (Channel_new (co_loop (cn_connector s2)) sockfd))
         in co_on_channel (enableWriting upd) (s2\<lparr>cn_chans := (cn_chans s2)(a \<mapsto> ch)\<rparr>)))"

text \<open>
  \<^verbatim>\<open>connect\<close>, with the descriptor \<^verbatim>\<open>socket\<close> returned and the error of \<^verbatim>\<open>connect(2)\<close>, 0 for none. Creating the
  socket is fatal when it fails.
\<close>

definition Connector_connect :: "'p chan_call \<Rightarrow> addr \<Rightarrow> errno + int \<Rightarrow> errno \<Rightarrow> 'p connector_sys \<Rightarrow> 'p connector_sys outcome" where
  "Connector_connect upd a sock savedErrno s = (case sock of
       Inl e \<Rightarrow> Inl (Log_fatal ''sockets::createNonblockingOrDie'')
     | Inr sockfd \<Rightarrow>
         let s1 = s\<lparr>cn_opened := cn_opened s @ [sockfd]\<rparr> in
         if savedErrno \<in> {0, EINPROGRESS, EINTR, EISCONN} then connecting upd a sockfd s1
         else if savedErrno \<in> {EAGAIN, EADDRINUSE, EADDRNOTAVAIL, ECONNREFUSED, ENETUNREACH} then Inr (co_retry sockfd s1)
         else Inr (sockets_close sockfd s1))"

definition startInLoop :: "bool \<Rightarrow> 'p chan_call \<Rightarrow> addr \<Rightarrow> errno + int \<Rightarrow> errno \<Rightarrow> 'p connector_sys \<Rightarrow> 'p connector_sys outcome" where
  "startInLoop inLoop upd a sock err s = assertInLoopThread inLoop
     (assert_that (co_state (cn_connector s) = Co_kDisconnected) ''state_ == kDisconnected''
       (if co_connect (cn_connector s) then Connector_connect upd a sock err s else Inr s))"

definition Connector_start :: "bool \<Rightarrow> 'p chan_call \<Rightarrow> addr \<Rightarrow> errno + int \<Rightarrow> errno \<Rightarrow> 'p connector_sys \<Rightarrow> 'p connector_sys outcome" where
  "Connector_start inLoop upd a sock err s =
     (let s1 = co_update (\<lambda>c. c\<lparr>co_connect := True\<rparr>) s
      in if inLoop then startInLoop inLoop upd a sock err s1 else Inr (co_queue StartInLoop s1))"

definition Connector_stop :: "'p connector_sys \<Rightarrow> 'p connector_sys" where
  "Connector_stop s = co_queue StopInLoop (co_update (\<lambda>c. c\<lparr>co_connect := False\<rparr>) s)"

definition Connector_restart :: "bool \<Rightarrow> 'p chan_call \<Rightarrow> addr \<Rightarrow> errno + int \<Rightarrow> errno \<Rightarrow> 'p connector_sys \<Rightarrow> 'p connector_sys outcome" where
  "Connector_restart inLoop upd a sock err s = assertInLoopThread inLoop
     (startInLoop inLoop upd a sock err
        (co_update (\<lambda>c. c\<lparr>co_state := Co_kDisconnected, co_retryDelayMs := kInitRetryDelayMs, co_connect := True\<rparr>) s))"

definition removeAndResetChannel ::
  "'p chan_call \<Rightarrow> 'p chan_call \<Rightarrow> 'p connector_sys \<Rightarrow> (int \<times> 'p connector_sys) outcome" where
  "removeAndResetChannel upd rem s =
     andThen (co_on_channel (disableAll upd) s) (\<lambda>s1.
       andThen (co_on_channel (Channel_remove rem) s1) (\<lambda>s2. case co_channel (cn_connector s2) of
           None \<Rightarrow> Inl Bad_pointer
         | Some a \<Rightarrow> with_channel a (cn_chans s2) (\<lambda>ch. Inr (ch_fd ch, co_queue ResetChannel s2))))"

text \<open>Resetting the pointer destroys the channel; \<open>has\<close> is the loop's \<^verbatim>\<open>hasChannel\<close>.\<close>

definition resetChannel :: "('p \<Rightarrow> addr \<Rightarrow> bool) \<Rightarrow> 'p connector_sys \<Rightarrow> 'p connector_sys outcome" where
  "resetChannel has s = (case co_channel (cn_connector s) of
       None \<Rightarrow> Inr s
     | Some a \<Rightarrow> andThen (Channel_delete True has a (cn_poller s, cn_chans s)) (\<lambda>(p, h).
         Inr (co_update (\<lambda>c. c\<lparr>co_channel := None\<rparr>) (s\<lparr>cn_poller := p, cn_chans := h\<rparr>))))"

definition stopInLoop :: "bool \<Rightarrow> 'p chan_call \<Rightarrow> 'p chan_call \<Rightarrow> 'p connector_sys \<Rightarrow> 'p connector_sys outcome" where
  "stopInLoop inLoop upd rem s = assertInLoopThread inLoop
     (if co_state (cn_connector s) = Co_kConnecting then
        andThen (removeAndResetChannel upd rem (co_setState Co_kDisconnected s)) (\<lambda>(sockfd, s1). Inr (co_retry sockfd s1))
      else Inr s)"

text \<open>
  \<open>getsockopt\<close> is the pending error of the socket and \<open>self\<close> whether it is connected to itself. A
  connected socket goes to the owner's callback, which takes it over.
\<close>

definition Connector_handleWrite ::
  "'p chan_call \<Rightarrow> 'p chan_call \<Rightarrow> (int \<Rightarrow> errno + int) \<Rightarrow> (int \<Rightarrow> bool) \<Rightarrow> 'p connector_sys \<Rightarrow> 'p connector_sys outcome" where
  "Connector_handleWrite upd rem getsockopt self s =
     (if co_state (cn_connector s) = Co_kConnecting then
        andThen (removeAndResetChannel upd rem s) (\<lambda>(sockfd, s1).
          if getSocketError getsockopt sockfd \<noteq> 0 then Inr (co_retry sockfd s1)
          else if self sockfd then Inr (co_retry sockfd s1)
          else let s2 = co_setState Co_kConnected s1 in
            if co_connect (cn_connector s2) then Inr (s2\<lparr>cn_handed := cn_handed s2 @ [sockfd]\<rparr>)
            else Inr (sockets_close sockfd s2))
      else assert_that (co_state (cn_connector s) = Co_kDisconnected) ''state_ == kDisconnected'' (Inr s))"

definition Connector_handleError :: "'p chan_call \<Rightarrow> 'p chan_call \<Rightarrow> 'p connector_sys \<Rightarrow> 'p connector_sys outcome" where
  "Connector_handleError upd rem s =
     (if co_state (cn_connector s) = Co_kConnecting then
        andThen (removeAndResetChannel upd rem s) (\<lambda>(sockfd, s1). Inr (co_retry sockfd s1))
      else Inr s)"

section \<open>TcpClient\<close>

datatype client_functor = SetCloseCallback addr | Client_ConnectDestroyed addr | RemoveConnector | ForceCloses addr | ShutsDown addr

text \<open>\<open>cl_dispatched\<close> are the functors given to the loop and the members called on the connection.\<close>

record TcpClient =
  cl_loop :: addr
  cl_name :: string
  cl_writeCompleteCallback :: bool
  cl_retry :: bool
  cl_connect :: bool
  cl_nextConnId :: int
  cl_connection :: "addr option"
  cl_conns :: "addr \<Rightarrow> TcpConnection option"
  cl_dispatched :: "client_functor list"

definition TcpClient_new :: "addr \<Rightarrow> string \<Rightarrow> TcpClient" where
  "TcpClient_new loop nameArg = \<lparr>cl_loop = loop, cl_name = nameArg, cl_writeCompleteCallback = False, cl_retry = False, cl_connect = True, cl_nextConnId = 1,
     cl_connection = None, cl_conns = Map.empty, cl_dispatched = []\<rparr>"

definition enableRetry :: "TcpClient \<Rightarrow> TcpClient" where
  "enableRetry cl = cl\<lparr>cl_retry := True\<rparr>"

definition client_dispatch :: "client_functor \<Rightarrow> TcpClient \<Rightarrow> TcpClient" where
  "client_dispatch f cl = cl\<lparr>cl_dispatched := cl_dispatched cl @ [f]\<rparr>"

definition TcpClient_connect ::
  "bool \<Rightarrow> 'p chan_call \<Rightarrow> addr \<Rightarrow> errno + int \<Rightarrow> errno \<Rightarrow> TcpClient \<times> 'p connector_sys \<Rightarrow> (TcpClient \<times> 'p connector_sys) outcome" where
  "TcpClient_connect inLoop upd a sock err s = (case s of (cl, co) \<Rightarrow>
     andThen (Connector_start inLoop upd a sock err co) (\<lambda>co'. Inr (cl\<lparr>cl_connect := True\<rparr>, co')))"

definition TcpClient_disconnect :: "TcpClient \<Rightarrow> TcpClient" where
  "TcpClient_disconnect cl = (let cl1 = cl\<lparr>cl_connect := False\<rparr> in
     case cl_connection cl1 of None \<Rightarrow> cl1 | Some conn \<Rightarrow> client_dispatch (ShutsDown conn) cl1)"

definition TcpClient_stop :: "TcpClient \<times> 'p connector_sys \<Rightarrow> TcpClient \<times> 'p connector_sys" where
  "TcpClient_stop s = (case s of (cl, co) \<Rightarrow> (cl\<lparr>cl_connect := False\<rparr>, Connector_stop co))"

text \<open>\<open>established\<close> is \<^verbatim>\<open>connectEstablished\<close> on the new connection. \<open>ipPort\<close> prints the peer's address; the buffer for the second part of the name has 32 bytes.\<close>

definition TcpClient_newConnection ::
  "bool \<Rightarrow> (int \<Rightarrow> InetAddress option) \<Rightarrow> (int \<Rightarrow> InetAddress option) \<Rightarrow> (InetAddress \<Rightarrow> string) \<Rightarrow> addr \<Rightarrow> addr \<Rightarrow> int
     \<Rightarrow> (addr \<Rightarrow> TcpClient \<times> chans \<Rightarrow> (TcpClient \<times> chans) outcome) \<Rightarrow> TcpClient \<times> chans \<Rightarrow> (TcpClient \<times> chans) outcome" where
  "TcpClient_newConnection inLoop getsockname getpeername ipPort a ch sockfd established s = (case s of (cl, h) \<Rightarrow>
     assertInLoopThread inLoop
       (let peerAddr = getPeerAddr getpeername sockfd;
            connName = cl_name cl @ snprintf 32 ('':'' @ ipPort peerAddr @ ''#'' @ dec_int (cl_nextConnId cl));
            localAddr = getLocalAddr getsockname sockfd
        in andThen (TcpConnection_new (cl_loop cl) connName sockfd localAddr peerAddr ch h) (\<lambda>(conn, h').
             established a (cl\<lparr>cl_nextConnId := cl_nextConnId cl + 1, cl_connection := Some a,
               cl_conns := (cl_conns cl)(a \<mapsto> (if cl_writeCompleteCallback cl then setWriteCompleteCallback conn else conn))\<rparr>, h'))))"

definition TcpClient_removeConnection ::
  "bool \<Rightarrow> 'p chan_call \<Rightarrow> addr \<Rightarrow> errno + int \<Rightarrow> errno \<Rightarrow> addr \<Rightarrow> TcpClient \<times> 'p connector_sys \<Rightarrow> (TcpClient \<times> 'p connector_sys) outcome" where
  "TcpClient_removeConnection inLoop upd a sock err conn s = (case s of (cl, co) \<Rightarrow> assertInLoopThread inLoop
     (case cl_conns cl conn of
        None \<Rightarrow> Inl Bad_pointer
      | Some c \<Rightarrow> assert_that (cl_loop cl = tc_loop c) ''loop_ == conn->getLoop()''
          (assert_that (cl_connection cl = Some conn) ''connection_ == conn''
            (let cl1 = client_dispatch (Client_ConnectDestroyed conn) (cl\<lparr>cl_connection := None\<rparr>) in
             if cl_retry cl1 \<and> cl_connect cl1
             then andThen (Connector_restart inLoop upd a sock err co) (\<lambda>co'. Inr (cl1, co'))
             else Inr (cl1, co)))))"

text \<open>The destructor; \<open>unique\<close> is whether the client holds the only reference to the connection.\<close>

definition TcpClient_delete :: "bool \<Rightarrow> TcpClient \<times> 'p connector_sys \<Rightarrow> (TcpClient \<times> 'p connector_sys) outcome" where
  "TcpClient_delete unique s = (case s of (cl, co) \<Rightarrow> (case cl_connection cl of
       Some conn \<Rightarrow> (case cl_conns cl conn of
           None \<Rightarrow> Inl Bad_pointer
         | Some c \<Rightarrow> assert_that (cl_loop cl = tc_loop c) ''loop_ == conn->getLoop()''
             (let cl1 = client_dispatch (SetCloseCallback conn) cl
              in Inr (if unique then client_dispatch (ForceCloses conn) cl1 else cl1, co)))
     | None \<Rightarrow> Inr (client_dispatch RemoveConnector cl, Connector_stop co)))"

section \<open>Sockets and delays of a connector\<close>

text \<open>
  The steps of a connector: the public members, its functors and timers run by the loop, the events of
  its channel. A new channel has a fresh address, and the kernel returns a descriptor that is not in use:
  \<open>fresh\<close> says which are not registered with the poller. \<^verbatim>\<open>restart\<close> is for connected connectors.
\<close>

inductive connector_step ::
  "'p chan_call \<Rightarrow> 'p chan_call \<Rightarrow> ('p \<Rightarrow> addr \<Rightarrow> bool) \<Rightarrow> ('p \<Rightarrow> int \<Rightarrow> bool) \<Rightarrow> 'p connector_sys \<Rightarrow> 'p connector_sys \<Rightarrow> bool"
  for upd rem has fresh where
  start: "cn_chans s a = None \<Longrightarrow> fresh (cn_poller s) fd \<Longrightarrow> Connector_start inLoop upd a (Inr fd) err s = Inr s' \<Longrightarrow>
    connector_step upd rem has fresh s s'"
| stop: "connector_step upd rem has fresh s (Connector_stop s)"
| restart: "co_state (cn_connector s) = Co_kConnected \<Longrightarrow> cn_chans s a = None \<Longrightarrow> fresh (cn_poller s) fd \<Longrightarrow>
    Connector_restart True upd a (Inr fd) err s = Inr s' \<Longrightarrow> connector_step upd rem has fresh s s'"
| run_start: "cn_pending s = StartInLoop # fs \<Longrightarrow> cn_chans s a = None \<Longrightarrow> fresh (cn_poller s) fd \<Longrightarrow>
    startInLoop True upd a (Inr fd) err (s\<lparr>cn_pending := fs\<rparr>) = Inr s' \<Longrightarrow> connector_step upd rem has fresh s s'"
| run_stop: "cn_pending s = StopInLoop # fs \<Longrightarrow> stopInLoop True upd rem (s\<lparr>cn_pending := fs\<rparr>) = Inr s' \<Longrightarrow>
    connector_step upd rem has fresh s s'"
| run_reset: "cn_pending s = ResetChannel # fs \<Longrightarrow> resetChannel has (s\<lparr>cn_pending := fs\<rparr>) = Inr s' \<Longrightarrow>
    connector_step upd rem has fresh s s'"
| timer: "cn_timers s = ts @ t # ts' \<Longrightarrow> cn_chans s a = None \<Longrightarrow> fresh (cn_poller s) fd \<Longrightarrow>
    startInLoop True upd a (Inr fd) err (s\<lparr>cn_timers := ts @ ts'\<rparr>) = Inr s' \<Longrightarrow> connector_step upd rem has fresh s s'"
| writable: "Connector_handleWrite upd rem getsockopt self s = Inr s' \<Longrightarrow> connector_step upd rem has fresh s s'"
| failed: "Connector_handleError upd rem s = Inr s' \<Longrightarrow> connector_step upd rem has fresh s s'"

abbreviation co_st :: "'p connector_sys \<Rightarrow> States" where
  "co_st s \<equiv> co_state (cn_connector s)"

definition delays_ok :: "'p connector_sys \<Rightarrow> bool" where
  "delays_ok s \<longleftrightarrow> (\<forall>d \<in> insert (co_retryDelayMs (cn_connector s)) (set (cn_timers s)). kInitRetryDelayMs \<le> d \<and> d \<le> kMaxRetryDelayMs)"

text \<open>The socket being connected, if any, is that of the channel.\<close>

definition in_progress :: "'p connector_sys \<Rightarrow> int multiset" where
  "in_progress s = (if co_st s = Co_kConnecting
     then (case co_channel (cn_connector s) of None \<Rightarrow> {#} | Some a \<Rightarrow>
       (case cn_chans s a of None \<Rightarrow> {#} | Some ch \<Rightarrow> {# ch_fd ch #})) else {#})"

definition sockets_ok :: "'p connector_sys \<Rightarrow> bool" where
  "sockets_ok s \<longleftrightarrow> mset (cn_opened s) = mset (cn_closed s) + mset (cn_handed s) + in_progress s"

lemmas co_defs = co_update_def co_setState_def co_queue_def sockets_close_def

text \<open>Giving up on a socket that is not in progress any more.\<close>

lemma co_retry_keeps:
  "cn_poller (co_retry fd s) = cn_poller s" "cn_chans (co_retry fd s) = cn_chans s" "cn_pending (co_retry fd s) = cn_pending s"
  "cn_opened (co_retry fd s) = cn_opened s" "cn_closed (co_retry fd s) = cn_closed s @ [fd]" "cn_handed (co_retry fd s) = cn_handed s"
  "co_st (co_retry fd s) = Co_kDisconnected" "co_channel (cn_connector (co_retry fd s)) = co_channel (cn_connector s)"
  by (simp_all add: co_retry_def co_defs Let_def)

lemma co_retry_delays: "delays_ok s \<Longrightarrow> delays_ok (co_retry fd s)"
  by (auto simp: delays_ok_def co_retry_def co_defs Let_def kMaxRetryDelayMs_def kInitRetryDelayMs_def min_def)

context poller begin

definition co_inv :: "'p connector_sys \<Rightarrow> bool" where
  "co_inv s \<longleftrightarrow> inv (cn_poller s) (cn_chans s) \<and> delays_ok s \<and> sockets_ok s
   \<and> count_list (cn_pending s) ResetChannel \<le> 1
   \<and> (ResetChannel \<in> set (cn_pending s) \<longrightarrow> co_channel (cn_connector s) \<noteq> None \<and> co_st s \<noteq> Co_kConnecting)
   \<and> (\<forall>a. co_channel (cn_connector s) = Some a \<longrightarrow>
        (if co_st s = Co_kConnecting
         then \<exists>ch. cn_chans s a = Some ch \<and> channels (cn_poller s) (ch_fd ch) = Some a \<and> event_mask (ch_events ch)
         else (\<forall>fd. channels (cn_poller s) fd \<noteq> Some a)))
   \<and> (co_st s = Co_kConnecting \<longrightarrow> co_channel (cn_connector s) \<noteq> None)"

text \<open>Removing the channel of the socket in progress.\<close>

lemma removeAndResetChannel_ok:
  assumes "inv (cn_poller s) (cn_chans s)" and "co_channel (cn_connector s) = Some a" and "cn_chans s a = Some ch"
    and "channels (cn_poller s) (ch_fd ch) = Some a"
  shows "\<exists>p h. removeAndResetChannel upd rem s = Inr (ch_fd ch, co_queue ResetChannel (s\<lparr>cn_poller := p, cn_chans := h\<rparr>))
    \<and> inv p h \<and> (\<forall>fd. channels p fd \<noteq> Some a)"
proof -
  let ?h1 = "(cn_chans s)(a \<mapsto> ch\<lparr>ch_events := 0, ch_addedToLoop := True\<rparr>)"
  from update_existing [OF assms(1,3,4), of 0 ?h1 True] obtain p1 h1 where
    u: "upd a (cn_poller s, ?h1) = Inr (p1, h1)" "inv p1 h1" "channels p1 = channels (cn_poller s)" "reindexed {a} ?h1 h1"
      "removable p1 h1 a" by auto
  from reindexed_Some [OF u(4), of a] obtain i where c1: "h1 a = Some (ch\<lparr>ch_events := 0, ch_addedToLoop := True, ch_index := i\<rparr>)" by auto
  let ?c1 = "ch\<lparr>ch_events := 0, ch_addedToLoop := True, ch_index := i\<rparr>"
  let ?h2 = "h1(a \<mapsto> ?c1\<lparr>ch_addedToLoop := False\<rparr>)"
  have "channels p1 (ch_fd ?c1) = Some a" "ch_events ?c1 = 0" using u(3) assms(4) by simp_all
  from remove_removable [OF u(2) c1 this u(5), of ?h2 False] obtain p h where
    r: "rem a (p1, ?h2) = Inr (p, h)" "inv p h" "channels p = (channels p1)(ch_fd ch := None)"
      "reindexed (insert a (ran (channels p))) ?h2 h" by auto
  from reindexed_Some [OF r(4), of a] obtain j where
    c2: "h a = Some (?c1\<lparr>ch_addedToLoop := False, ch_index := j\<rparr>)" by auto
  have gone: "channels p fd \<noteq> Some a" for fd
  proof
    assume f: "channels p fd = Some a"
    from inv_channels [OF r(2) f] c2 have "ch_fd ch = fd" by auto
    with f r(3) show False by simp
  qed
  have "co_on_channel (disableAll upd) s = Inr (s\<lparr>cn_poller := p1, cn_chans := h1\<rparr>)"
    using assms(2,3) u(1) by (simp add: co_on_channel_def disableAll_def with_events_def Channel_update_def kNoneEvent_def)
  moreover have "co_on_channel (Channel_remove rem) (s\<lparr>cn_poller := p1, cn_chans := h1\<rparr>) = Inr (s\<lparr>cn_poller := p, cn_chans := h\<rparr>)"
    using assms(2) c1 r(1) by (simp add: co_on_channel_def Channel_remove_def isNoneEvent_def kNoneEvent_def)
  ultimately show ?thesis using assms(2) c2 r(2) gone by (auto simp: removeAndResetChannel_def)
qed

lemma connecting_ok:
  assumes "inv (cn_poller s) (cn_chans s)" and "co_channel (cn_connector s) = None" and "cn_chans s a = None"
    and "channels (cn_poller s) fd = None" and "0 \<le> fd"
  shows "\<exists>p h ch. connecting upd a fd s = Inr ((co_update (\<lambda>c. c\<lparr>co_state := Co_kConnecting, co_channel := Some a\<rparr>) s)\<lparr>cn_poller := p, cn_chans := h\<rparr>)
    \<and> inv p h \<and> h a = Some ch \<and> ch_fd ch = fd \<and> channels p fd = Some a \<and> event_mask (ch_events ch)"
proof -
  let ?c = "setErrorCallback (setWriteCallback (Channel_new (co_loop (cn_connector s)) fd))"
  let ?h = "(cn_chans s)(a \<mapsto> ?c)"
  have c: "ch_fd ?c = fd" "ch_index ?c = -1" "ch_events ?c = 0"
    by (simp_all add: setErrorCallback_def setWriteCallback_def Channel_new_def)
  have i: "inv (cn_poller s) ?h"
    using assms(3) inv_channels [OF assms(1)] by (intro inv_cong [OF assms(1)]) fastforce
  let ?h1 = "?h(a \<mapsto> ?c\<lparr>ch_events := kWriteEvent, ch_addedToLoop := True\<rparr>)"
  have "?h a = Some ?c" "channels (cn_poller s) (ch_fd ?c) = None" "0 \<le> ch_fd ?c" "event_mask kWriteEvent"
    using c assms(4,5) by (simp_all add: event_mask_def)
  from update_new [OF i this(1) c(2) this(2-4), of ?h1 True] obtain p h where
    u: "upd a (cn_poller s, ?h1) = Inr (p, h)" "inv p h" "channels p = (channels (cn_poller s))(fd \<mapsto> a)" "reindexed {a} ?h1 h"
    unfolding c(1) by blast
  from reindexed_Some [OF u(4), of a] obtain j where
    ch: "h a = Some (?c\<lparr>ch_events := kWriteEvent, ch_addedToLoop := True, ch_index := j\<rparr>)" by auto
  have "connecting upd a fd s = Inr ((co_update (\<lambda>c. c\<lparr>co_state := Co_kConnecting, co_channel := Some a\<rparr>) s)\<lparr>cn_poller := p, cn_chans := h\<rparr>)"
    using assms(2) u(1) c(3)
    by (simp add: connecting_def co_defs Let_def co_on_channel_def enableWriting_def with_events_def Channel_update_def)
  moreover have "channels p fd = Some a" using u(3) by simp
  moreover have "ch_fd (?c\<lparr>ch_events := kWriteEvent, ch_addedToLoop := True, ch_index := j\<rparr>) = fd"
    "event_mask (ch_events (?c\<lparr>ch_events := kWriteEvent, ch_addedToLoop := True, ch_index := j\<rparr>))"
    using c(1) by (simp_all add: event_mask_def)
  ultimately show ?thesis using u(2) ch by blast
qed

text \<open>Preservation, one operation at a time.\<close>

lemma co_inv_connecting:
  assumes "co_inv s" and "co_st s = Co_kConnecting"
  shows "\<exists>a ch. co_channel (cn_connector s) = Some a \<and> cn_chans s a = Some ch \<and> channels (cn_poller s) (ch_fd ch) = Some a
    \<and> ResetChannel \<notin> set (cn_pending s) \<and> mset (cn_opened s) = mset (cn_closed s) + mset (cn_handed s) + {# ch_fd ch #}"
  using assms by (auto simp: co_inv_def sockets_ok_def in_progress_def)

text \<open>A connector whose attempt at socket \<open>fd\<close> has been taken out of the poller.\<close>

definition detached :: "int \<Rightarrow> 'p connector_sys \<Rightarrow> bool" where
  "detached fd s \<longleftrightarrow> inv (cn_poller s) (cn_chans s) \<and> delays_ok s
   \<and> mset (cn_opened s) = mset (cn_closed s) + mset (cn_handed s) + {# fd #}
   \<and> count_list (cn_pending s) ResetChannel = 1
   \<and> (\<exists>a. co_channel (cn_connector s) = Some a \<and> (\<forall>fd. channels (cn_poller s) fd \<noteq> Some a))"

lemma detach:
  assumes "co_inv s" and "co_st s = Co_kConnecting"
  shows "\<exists>fd s1. removeAndResetChannel upd rem (co_setState st s) = Inr (fd, s1) \<and> detached fd s1"
proof -
  let ?s = "co_setState st s"
  from co_inv_connecting [OF assms] obtain a ch where a: "co_channel (cn_connector ?s) = Some a" "cn_chans ?s a = Some ch"
    "channels (cn_poller ?s) (ch_fd ch) = Some a" "ResetChannel \<notin> set (cn_pending s)"
    "mset (cn_opened s) = mset (cn_closed s) + mset (cn_handed s) + {# ch_fd ch #}" by (auto simp: co_defs)
  have i: "inv (cn_poller ?s) (cn_chans ?s)" "delays_ok s" using assms(1) by (simp_all add: co_inv_def co_defs)
  from removeAndResetChannel_ok [OF i(1) a(1-3)] obtain p h where
    r: "removeAndResetChannel upd rem ?s = Inr (ch_fd ch, co_queue ResetChannel (?s\<lparr>cn_poller := p, cn_chans := h\<rparr>))"
      "inv p h" "\<forall>fd. channels p fd \<noteq> Some a" by blast
  have "count_list (cn_pending s) ResetChannel = 0" using a(4) by simp
  then have "detached (ch_fd ch) (co_queue ResetChannel (?s\<lparr>cn_poller := p, cn_chans := h\<rparr>))"
    using r i(2) a by (simp add: detached_def co_defs delays_ok_def)
  with r(1) show ?thesis by blast
qed

lemma detach_connecting:
  assumes "co_inv s" and "co_st s = Co_kConnecting"
  shows "\<exists>fd s1. removeAndResetChannel upd rem s = Inr (fd, s1) \<and> detached fd s1"
proof -
  have "co_setState Co_kConnecting s = s" using assms(2) by (simp add: co_defs)
  with detach [OF assms, of Co_kConnecting] show ?thesis by simp
qed

lemma detached_retry: "detached fd s \<Longrightarrow> co_inv (co_retry fd s)"
  by (auto simp: detached_def co_inv_def co_retry_keeps co_retry_delays sockets_ok_def in_progress_def)

lemma stopInLoop_inv: "co_inv s \<Longrightarrow> \<exists>s'. stopInLoop True upd rem s = Inr s' \<and> co_inv s'"
  using detach [of s Co_kDisconnected] detached_retry by (auto simp: stopInLoop_def)

lemma handleError_inv: "co_inv s \<Longrightarrow> \<exists>s'. Connector_handleError upd rem s = Inr s' \<and> co_inv s'"
  using detach_connecting [of s] detached_retry by (auto simp: Connector_handleError_def)

lemma handleWrite_inv:
  assumes "co_inv s" and "Connector_handleWrite upd rem getsockopt self s = Inr s'"
  shows "co_inv s'"
proof (cases "co_st s = Co_kConnecting")
  case True
  from detach_connecting [OF assms(1) True] obtain fd s1 where
    d: "removeAndResetChannel upd rem s = Inr (fd, s1)" "detached fd s1" by blast
  then have "co_inv ((co_setState Co_kConnected s1)\<lparr>cn_handed := cn_handed s1 @ [fd]\<rparr>)"
    "co_inv (sockets_close fd (co_setState Co_kConnected s1))"
    by (auto simp: detached_def co_inv_def co_defs delays_ok_def sockets_ok_def in_progress_def)
  with d assms(2) True detached_retry [OF d(2)] show ?thesis
    by (auto simp: Connector_handleWrite_def Let_def co_defs split: if_splits)
next
  case False
  with assms show ?thesis by (auto simp: Connector_handleWrite_def assert_that_eq_Inr)
qed

lemma startInLoop_inv:
  assumes "co_inv s" and "cn_chans s a = None" and "channels (cn_poller s) fd = None" and "0 \<le> fd"
    and "startInLoop True upd a (Inr fd) err s = Inr s'"
  shows "co_inv s'"
proof -
  from assms(5) have st: "co_st s = Co_kDisconnected" by (simp add: startInLoop_def assert_that_eq_Inr)
  let ?s1 = "s\<lparr>cn_opened := cn_opened s @ [fd]\<rparr>"
  have close: "co_inv (sockets_close fd ?s1)" "co_inv (co_retry fd ?s1)"
    using assms(1) st co_retry_delays [of ?s1 fd]
    by (auto simp: co_inv_def co_defs co_retry_keeps delays_ok_def sockets_ok_def in_progress_def)
  have conn: "co_inv s'" if "connecting upd a fd ?s1 = Inr s'"
  proof -
    from that have none: "co_channel (cn_connector s) = None" by (simp add: connecting_def co_defs Let_def assert_that_eq_Inr)
    from connecting_ok [of ?s1 a fd] assms(1-4) none obtain p h ch where
      "connecting upd a fd ?s1 = Inr ((co_update (\<lambda>c. c\<lparr>co_state := Co_kConnecting, co_channel := Some a\<rparr>) ?s1)\<lparr>cn_poller := p, cn_chans := h\<rparr>)"
      "inv p h" "h a = Some ch" "ch_fd ch = fd" "channels p fd = Some a" "event_mask (ch_events ch)"
      by (auto simp: co_inv_def)
    with that assms(1) none st show ?thesis
      by (auto simp: co_inv_def co_defs delays_ok_def sockets_ok_def in_progress_def)
  qed
  show ?thesis
    using assms(1,5) st close conn
    by (auto simp: startInLoop_def Connector_connect_def Let_def split: if_splits)
qed

lemma resetChannel_inv:
  assumes "co_inv s" and "cn_pending s = ResetChannel # fs" and "resetChannel has (s\<lparr>cn_pending := fs\<rparr>) = Inr s'"
  shows "co_inv s'"
proof -
  from assms(1,2) obtain a where a: "co_channel (cn_connector s) = Some a" "co_st s \<noteq> Co_kConnecting" "ResetChannel \<notin> set fs"
    by (auto simp: co_inv_def count_list_0_iff)
  from assms(1) a have gone: "\<forall>fd. channels (cn_poller s) fd \<noteq> Some a" and i: "inv (cn_poller s) (cn_chans s)"
    by (auto simp: co_inv_def)
  from gone have "inv (cn_poller s) ((cn_chans s)(a := None))" by (intro inv_cong [OF i]) auto
  moreover from assms(3) a(1) have
    "s' = co_update (\<lambda>c. c\<lparr>co_channel := None\<rparr>) (s\<lparr>cn_pending := fs, cn_chans := (cn_chans s)(a := None)\<rparr>)"
    by (auto simp: resetChannel_def Channel_delete_def andThen_eq_Inr assert_that_eq_Inr with_channel_eq_Inr)
  ultimately show ?thesis using assms(1) a
    by (auto simp: co_inv_def co_defs delays_ok_def sockets_ok_def in_progress_def)
qed

lemma stepped_ok:
  assumes "connector_step upd rem has (\<lambda>p fd. channels p fd = None \<and> 0 \<le> fd) s s'" and "co_inv s"
  shows "co_inv s'"
proof -
  have pend: "co_inv (s\<lparr>cn_pending := fs\<rparr>)" if "cn_pending s = f # fs" "f \<noteq> ResetChannel" for f fs
    using assms(2) that by (auto simp: co_inv_def delays_ok_def sockets_ok_def in_progress_def split: if_splits cong: option.case_cong)
  have upd: "co_inv (co_update (\<lambda>c. c\<lparr>co_connect := b\<rparr>) s)" for b
    using assms(2) by (simp add: co_inv_def co_defs delays_ok_def sockets_ok_def in_progress_def cong: option.case_cong)
  have queue: "co_inv (co_queue f t)" if "co_inv t" "f \<noteq> ResetChannel" for f t
    using that by (simp add: co_inv_def co_defs delays_ok_def sockets_ok_def in_progress_def cong: option.case_cong)
  from assms(1) show ?thesis
  proof cases
    case (start a fd inLoop err)
    with startInLoop_inv [OF upd, of True a fd err s'] queue [OF upd, of StartInLoop] show ?thesis
      by (cases inLoop) (auto simp: Connector_start_def Let_def co_defs)
  next
    case stop
    with queue [OF upd] show ?thesis by (simp add: Connector_stop_def)
  next
    case (restart a fd err)
    have "co_inv (co_update (\<lambda>c. c\<lparr>co_state := Co_kDisconnected, co_retryDelayMs := kInitRetryDelayMs, co_connect := True\<rparr>) s)"
      using assms(2) restart(1)
      by (auto simp: co_inv_def co_defs delays_ok_def sockets_ok_def in_progress_def kInitRetryDelayMs_def kMaxRetryDelayMs_def cong: option.case_cong)
    from startInLoop_inv [OF this, of a fd err s'] restart show ?thesis by (auto simp: Connector_restart_def co_defs)
  next
    case (run_start fs a fd err)
    with startInLoop_inv [OF pend, of StartInLoop fs a fd err s'] show ?thesis by auto
  next
    case (run_stop fs)
    with stopInLoop_inv [OF pend, of StopInLoop fs] show ?thesis by auto
  next
    case (run_reset fs)
    with resetChannel_inv assms(2) show ?thesis by blast
  next
    case (timer ts t ts' a fd err)
    have "co_inv (s\<lparr>cn_timers := ts @ ts'\<rparr>)"
      using assms(2) timer(1) by (simp add: co_inv_def delays_ok_def sockets_ok_def in_progress_def cong: option.case_cong)
    from startInLoop_inv [OF this, of a fd err s'] timer show ?thesis by auto
  next
    case (writable getsockopt self)
    with handleWrite_inv assms(2) show ?thesis by blast
  next
    case failed
    with handleError_inv [OF assms(2)] show ?thesis by auto
  qed
qed

text \<open>Every history of a connector, from its construction.\<close>

lemma runs_ok:
  assumes "(connector_step upd rem has (\<lambda>p fd. channels p fd = None \<and> 0 \<le> fd))\<^sup>*\<^sup>* s s'" and "co_inv s"
  shows "co_inv s'"
  using assms by (induction rule: rtranclp_induct) (auto intro: stepped_ok)

end

section \<open>Connectors on an EPollPoller\<close>

text \<open>A connector just constructed, in a loop whose poller and channels are \<open>p\<close> and \<open>h\<close>.\<close>

definition connector_init :: "addr \<Rightarrow> InetAddress \<Rightarrow> 'p \<Rightarrow> chans \<Rightarrow> 'p connector_sys" where
  "connector_init loop serverAddr p h = \<lparr>cn_connector = Connector_new loop serverAddr, cn_poller = p, cn_chans = h,
     cn_pending = [], cn_timers = [], cn_opened = [], cn_closed = [], cn_handed = []\<rparr>"

definition epoll_connector_step ::
  "'k epoll_ctl_call \<Rightarrow> ('k EPollPoller \<Rightarrow> addr \<Rightarrow> bool) \<Rightarrow> 'k EPollPoller connector_sys \<Rightarrow> 'k EPollPoller connector_sys \<Rightarrow> bool" where
  "epoll_connector_step ctl has = connector_step (EPollPoller_updateChannel ctl True) (EPollPoller_removeChannel ctl True) has
     (\<lambda>p fd. ep_channels p fd = None \<and> 0 \<le> fd)"

lemma epoll_connector_inv:
  assumes "epoll_ctl_ok interest ctl" and "ep_inv interest p h"
    and "(epoll_connector_step ctl has)\<^sup>*\<^sup>* (connector_init loop serverAddr p h) s"
  shows "poller.co_inv (ep_inv interest) ep_channels s"
proof (rule poller.runs_ok [OF epoll_is_poller [OF assms(1)] assms(3) [unfolded epoll_connector_step_def]])
  show "poller.co_inv (ep_inv interest) ep_channels (connector_init loop serverAddr p h)"
    using assms(2) unfolding poller.co_inv_def [OF epoll_is_poller [OF assms(1)]]
    by (simp add: connector_init_def Connector_new_def delays_ok_def sockets_ok_def in_progress_def kInitRetryDelayMs_def kMaxRetryDelayMs_def)
qed

section \<open>Properties\<close>

text \<open>C13. A connector leaks no socket and never retries too often. However it is started, stopped and
  restarted, whatever \<^verbatim>\<open>connect(2)\<close> and the socket report and however late its timers and functors run,
  every socket it opened has been closed once or handed to its owner once, or is the single one in
  progress, which is registered with the poller; every retry delay is between half a second and thirty
  seconds; and \<^verbatim>\<open>stopInLoop\<close> and \<^verbatim>\<open>handleError\<close> never fail and leave no socket in progress.\<close>

theorem connector_sockets:
  assumes "epoll_ctl_ok interest ctl" and "ep_inv interest p h"
    and "(epoll_connector_step ctl has)\<^sup>*\<^sup>* (connector_init loop serverAddr p h) s"
  shows "mset (cn_opened s) = mset (cn_closed s) + mset (cn_handed s) + in_progress s
    \<and> (co_st s = Co_kConnecting \<longrightarrow> (\<exists>a fd. in_progress s = {# fd #} \<and> co_channel (cn_connector s) = Some a \<and> ep_channels (cn_poller s) fd = Some a))
    \<and> (\<forall>d \<in> set (cn_timers s). 500 \<le> d \<and> d \<le> 30000)
    \<and> (\<exists>s'. stopInLoop True (EPollPoller_updateChannel ctl True) (EPollPoller_removeChannel ctl True) s = Inr s'
         \<and> mset (cn_opened s') = mset (cn_closed s') + mset (cn_handed s'))
    \<and> (\<exists>s'. Connector_handleError (EPollPoller_updateChannel ctl True) (EPollPoller_removeChannel ctl True) s = Inr s'
         \<and> mset (cn_opened s') = mset (cn_closed s') + mset (cn_handed s'))"
proof -
  note P = epoll_is_poller [OF assms(1)]
  note inv_def = poller.co_inv_def [OF P]
  note inv = epoll_connector_inv [OF assms]
  from inv have s: "sockets_ok s" "delays_ok s" unfolding inv_def by blast+
  have gone: "mset (cn_opened t) = mset (cn_closed t) + mset (cn_handed t)"
    if "poller.co_inv (ep_inv interest) ep_channels t" "co_st t \<noteq> Co_kConnecting" for t
    using that unfolding inv_def by (simp add: sockets_ok_def in_progress_def)
  from poller.stopInLoop_inv [OF P inv] obtain s1 where
    1: "stopInLoop True (EPollPoller_updateChannel ctl True) (EPollPoller_removeChannel ctl True) s = Inr s1"
      "poller.co_inv (ep_inv interest) ep_channels s1" by blast
  from poller.handleError_inv [OF P inv] obtain s2 where
    2: "Connector_handleError (EPollPoller_updateChannel ctl True) (EPollPoller_removeChannel ctl True) s = Inr s2"
      "poller.co_inv (ep_inv interest) ep_channels s2" by blast
  from 1(1) have "co_st s1 \<noteq> Co_kConnecting" by (auto simp: stopInLoop_def andThen_eq_Inr co_retry_keeps split: if_splits)
  moreover from 2(1) have "co_st s2 \<noteq> Co_kConnecting"
    by (auto simp: Connector_handleError_def andThen_eq_Inr co_retry_keeps split: if_splits)
  moreover have "\<exists>a fd. in_progress s = {# fd #} \<and> co_channel (cn_connector s) = Some a \<and> ep_channels (cn_poller s) fd = Some a"
    if "co_st s = Co_kConnecting"
    using poller.co_inv_connecting [OF P inv that] that by (auto simp: in_progress_def)
  ultimately show ?thesis using s gone [OF 1(2)] gone [OF 2(2)] 1(1) 2(1)
    by (auto simp: sockets_ok_def delays_ok_def kInitRetryDelayMs_def kMaxRetryDelayMs_def)
qed

text \<open>C40. The retry timer is never cancelled. If a connector waiting to retry is stopped and, before the timer
  expires, started again, it connects at once; the old timer then runs \<^verbatim>\<open>startInLoop\<close> on a connector that
  is connecting, and the assertion that it is disconnected aborts the program.\<close>

theorem connector_stale_timer_aborts:
  assumes "epoll_ctl_ok interest ctl" and "ep_inv interest (cn_poller s) (cn_chans s)"
    and "co_state (cn_connector s) = Co_kDisconnected" and "co_channel (cn_connector s) = None" and "cn_pending s = []"
    and "cn_timers s = [d]" and "cn_chans s a = None" and "ep_channels (cn_poller s) fd = None" and "0 \<le> fd"
  shows "cn_pending (Connector_stop s) = [StopInLoop]
    \<and> (\<exists>s1 s2. stopInLoop True (EPollPoller_updateChannel ctl True) (EPollPoller_removeChannel ctl True) ((Connector_stop s)\<lparr>cn_pending := []\<rparr>) = Inr s1
      \<and> Connector_start True (EPollPoller_updateChannel ctl True) a (Inr fd) EINPROGRESS s1 = Inr s2 \<and> cn_timers s2 = [d]
      \<and> startInLoop True (EPollPoller_updateChannel ctl True) b sock err (s2\<lparr>cn_timers := []\<rparr>) = Inl (Assert_failed ''state_ == kDisconnected''))"
proof -
  let ?upd = "EPollPoller_updateChannel ctl True"
  let ?s1 = "co_update (\<lambda>c. c\<lparr>co_connect := False\<rparr>) s"
  let ?s2 = "(co_update (\<lambda>c. c\<lparr>co_connect := True\<rparr>) s)\<lparr>cn_opened := cn_opened s @ [fd]\<rparr>"
  have "stopInLoop True ?upd (EPollPoller_removeChannel ctl True) ((Connector_stop s)\<lparr>cn_pending := []\<rparr>) = Inr ?s1"
    using assms(3,5) by (simp add: stopInLoop_def Connector_stop_def co_defs)
  moreover from poller.connecting_ok [OF epoll_is_poller [OF assms(1)], of ?s2 a fd] assms(2,4,7-9) obtain p h where
    "connecting ?upd a fd ?s2 = Inr ((co_update (\<lambda>c. c\<lparr>co_state := Co_kConnecting, co_channel := Some a\<rparr>) ?s2)\<lparr>cn_poller := p, cn_chans := h\<rparr>)"
    (is "_ = Inr ?s3") by (auto simp: co_defs)
  then have "Connector_start True ?upd a (Inr fd) EINPROGRESS ?s1 = Inr ?s3"
    using assms(3) by (simp add: Connector_start_def startInLoop_def Connector_connect_def Let_def co_defs)
  moreover have "startInLoop True ?upd b sock err (?s3\<lparr>cn_timers := []\<rparr>) = Inl (Assert_failed ''state_ == kDisconnected'')"
    by (simp add: startInLoop_def co_defs)
  moreover have "cn_timers ?s3 = [d]" using assms(6) by (simp add: co_defs)
  ultimately show ?thesis using assms(5) by (intro conjI exI [of _ ?s1] exI [of _ ?s3]) (simp_all add: Connector_stop_def co_defs)
qed

text \<open>A connector whose first attempt is refused; it waits half a second.\<close>

definition sample_connector :: "(int \<Rightarrow> epoll_event option) EPollPoller connector_sys" where
  "sample_connector = co_retry 7 (co_update (\<lambda>c. c\<lparr>co_connect := True\<rparr>)
     ((connector_init 1 memZero (empty_epoll Map.empty) Map.empty)\<lparr>cn_opened := [7]\<rparr>))"

lemma sample_connector_fields:
  "cn_poller sample_connector = empty_epoll Map.empty" "cn_chans sample_connector = Map.empty" "co_st sample_connector = Co_kDisconnected"
  "co_channel (cn_connector sample_connector) = None" "cn_pending sample_connector = []" "cn_timers sample_connector = [500]"
  "cn_opened sample_connector = [7]" "cn_closed sample_connector = [7]"
  by (simp_all add: sample_connector_def connector_init_def Connector_new_def co_retry_def co_defs Let_def kInitRetryDelayMs_def)

lemma sample_connector_step:
  "epoll_connector_step table_ctl has (connector_init 1 memZero (empty_epoll Map.empty) Map.empty) sample_connector"
  unfolding epoll_connector_step_def
  by (rule connector_step.start [where a = 2 and fd = 7 and inLoop = True and err = ECONNREFUSED])
    (simp_all add: sample_connector_def connector_init_def empty_epoll_inv Connector_start_def startInLoop_def Connector_connect_def Let_def
      co_defs Connector_new_def errno_defs)

theorem connector_sockets_witness:
  "\<exists>s :: (int \<Rightarrow> epoll_event option) EPollPoller connector_sys. cn_timers s = [500] \<and> mset (cn_opened s) = mset [7] \<and> mset (cn_opened s) = mset (cn_closed s) + mset (cn_handed s) + in_progress s"
proof -
  have "(epoll_connector_step table_ctl (\<lambda>p a. False))\<^sup>*\<^sup>* (connector_init 1 memZero (empty_epoll Map.empty) Map.empty) sample_connector"
    using sample_connector_step by (rule r_into_rtranclp)
  from connector_sockets [OF table_ctl_ok empty_epoll_inv(1) [of "\<lambda>k. k", OF refl] this] show ?thesis
    using sample_connector_fields(6,7) by (intro exI [of _ sample_connector]) simp
qed

theorem connector_stale_timer_aborts_witness:
  "\<exists>s1 s2. Connector_start True sample_upd 2 (Inr 8) EINPROGRESS s1 = Inr s2 \<and> cn_timers s2 = [500]
     \<and> startInLoop True sample_upd 3 (Inr 9) 0 (s2\<lparr>cn_timers := []\<rparr>) = Inl (Assert_failed ''state_ == kDisconnected'')"
  using connector_stale_timer_aborts [OF table_ctl_ok, of sample_connector 500 2 8 3 "Inr 9" 0]
  by (simp add: sample_connector_fields empty_epoll_inv) blast

text \<open>The name \<^verbatim>\<open>newConnection\<close> gives a connection of a client has the client's name, the peer's address and
  the number of the connection, in a buffer of 32 bytes. Numbers of at most eight digits are printed in full when
  the address has at most 21 characters, the length of the longest IPv4 address and port; from 30
  characters on, as many IPv6 addresses have, nothing of the number is left, and all the connections of
  the client have the same name.\<close>

theorem client_connection_names:
  assumes "TcpClient_newConnection True getsockname getpeername ipPort a ch fd (\<lambda>a s. Inr s) (cl, h) = Inr (cl', h')"
    and "text = ipPort (getPeerAddr getpeername fd)"
  shows "\<exists>c. cl_conns cl' a = Some c \<and> cl_connection cl' = Some a \<and> cl_nextConnId cl' = cl_nextConnId cl + 1
    \<and> (length text \<le> 21 \<and> 0 \<le> cl_nextConnId cl \<and> cl_nextConnId cl < 10 ^ 8 \<longrightarrow>
         tc_name c = cl_name cl @ '':'' @ text @ ''#'' @ dec_int (cl_nextConnId cl))
    \<and> (30 \<le> length text \<longrightarrow> tc_name c = cl_name cl @ '':'' @ take 30 text)"
proof -
  let ?text = "'':'' @ text @ ''#'' @ dec_int (cl_nextConnId cl)"
  from assms obtain c where c: "cl_conns cl' a = Some c" "cl_connection cl' = Some a" "cl_nextConnId cl' = cl_nextConnId cl + 1"
    "tc_name c = cl_name cl @ snprintf 32 ?text"
    by (auto simp: TcpClient_newConnection_def TcpConnection_new_def setWriteCompleteCallback_def Let_def andThen_eq_Inr split: if_splits)
  have "snprintf 32 ?text = ?text" if "length text \<le> 21" "0 \<le> cl_nextConnId cl" "cl_nextConnId cl < 10 ^ 8"
  proof -
    have "length (dec_nat (nat (cl_nextConnId cl))) \<le> 8" by (rule length_dec_nat) (use that in \<open>simp_all add: nat_less_iff\<close>)
    with that have "length ?text \<le> 31" by (simp add: dec_int_def)
    then show ?thesis by (simp add: snprintf_def)
  qed
  moreover have "snprintf 32 ?text = '':'' @ take 30 text" if "30 \<le> length text"
    using that by (simp add: snprintf_def)
  ultimately show ?thesis using c by auto
qed

theorem client_connection_names_witness:
  "\<exists>cl h c. TcpClient_newConnection True (\<lambda>fd. None) (\<lambda>fd. None) (\<lambda>a. ''127.0.0.1:2000'') 5 6 7 (\<lambda>a s. Inr s)
      (TcpClient_new 1 ''chat'', Map.empty) = Inr (cl, h) \<and> cl_conns cl 5 = Some c \<and> tc_name c = ''chat:127.0.0.1:2000#1''"
proof -
  obtain cl h where n: "TcpClient_newConnection True (\<lambda>fd. None) (\<lambda>fd. None) (\<lambda>a. ''127.0.0.1:2000'') 5 6 7 (\<lambda>a s. Inr s)
      (TcpClient_new 1 ''chat'', Map.empty) = Inr (cl, h)"
    by (simp add: TcpClient_newConnection_def TcpConnection_new_def init_buffer Let_def)
  from client_connection_names [OF n refl] n show ?thesis
    by (auto simp: TcpClient_new_def dec_int_def dec_nat.simps digit_chars)
qed

end
