(* ===== verification/Spec2Isabelle.thy ===== *)
theory Spec2Isabelle
  imports Muduo_Buffer Muduo_EPoller Muduo_Logging Muduo_AsyncLogging Muduo_Rpc Muduo_Thread Muduo_Http Muduo_TcpClient
begin

text \<open>
  A model of the muduo network library (\<^verbatim>\<open>src/muduo\<close>) and the theorems that make it correct.

  \<^bold>\<open>The program.\<close> muduo is a library of event loops. A loop waits in a poller for the file descriptors of its channels, runs the
  callbacks of the channels that are ready, the timers that are due and the functors other threads have queued. On top of the loop
  are sockets, acceptors and connectors, connections with an input and an output buffer, servers and clients, an HTTP server, a
  codec for Protocol Buffers messages and remote procedure calls. Beside it are the parts of \<^verbatim>\<open>base\<close>: time, dates, time zones, strings,
  formatting and logging with a writing thread, files, and threads with their queues.

  \<^bold>\<open>How the code is modelled.\<close> A class is a record with the members of the class, an enumeration a datatype, a member function a
  definition on the record with its guards, early returns and assertions. An operation that can fail returns \<open>'a outcome\<close>: \<open>Inl\<close> of a
  \<open>failure\<close> is a failed \<^verbatim>\<open>assert\<close>, a \<^verbatim>\<open>LOG_FATAL\<close>, a \<^verbatim>\<open>length_error\<close>, an access out of bounds or a bad pointer, and \<open>andThen\<close> puts two such
  operations in sequence. Objects others hold pointers to (channels, timers) live in heaps by address. Integers are words of
  their width where they wrap around, and unbounded where the theorems state the range. System calls, the C library's
  streams and clocks, user callbacks and the libraries outside of the repository (Protocol Buffers, zlib, boost) are arguments;
  theorems that rely on them name what they rely on as hypotheses on these arguments, and their witnesses instantiate
  them. Threads are transition systems: a critical section of a mutex is one step, so is an access to an atomic variable, a wait
  on a condition ends by a notification, by its time limit or for no reason, and a theorem on every reachable state
  covers every interleaving.

  \<^bold>\<open>The theories.\<close>
  \<^item> \<open>Muduo_Prelude\<close>: failures and their sequencing, sizes and integers, arrays, searches, decimal texts and \<^verbatim>\<open>snprintf\<close>.
  \<^item> \<open>Muduo_Endian\<close>, \<open>Muduo_StringPiece\<close>, \<open>Muduo_Buffer\<close>: \<^verbatim>\<open>net/Endian.h\<close>, \<^verbatim>\<open>base/StringPiece.h\<close>, \<^verbatim>\<open>net/Buffer.h\<close> and \<^verbatim>\<open>.cc\<close>. The vector with two
    indices keeps its layout and is a queue of bytes (locale \<open>byte_queue\<close>); integers written on one host are read on any other.
  \<^item> \<open>Muduo_Channel\<close>, \<open>Muduo_Poller\<close>, \<open>Muduo_EPoller\<close>: \<^verbatim>\<open>net/Channel.cc\<close>, \<^verbatim>\<open>net/Poller.cc\<close>, \<^verbatim>\<open>net/poller/*\<close>. The contract of the virtual class is the
    locale \<open>poller\<close>; both pollers satisfy it and watch the same channels for the same events, and where a client that breaks the
    discipline sees a difference is shown too.
  \<^item> \<open>Muduo_Timestamp\<close>, \<open>Muduo_TimerQueue\<close>: \<^verbatim>\<open>base/Timestamp.cc\<close>, \<^verbatim>\<open>net/Timer.cc\<close>, \<^verbatim>\<open>net/TimerQueue.cc\<close>. No assertion fails and no freed timer is
    used whatever the callbacks do, an identifier cancels its own timer only, expired timers are restarted or deleted as they should,
    and an alarm is pending while there are timers.
  \<^item> \<open>Muduo_EventLoop\<close>, \<open>Muduo_LoopThreads\<close>: \<^verbatim>\<open>net/EventLoop.cc\<close>, \<^verbatim>\<open>net/EventLoopThread.cc\<close>, \<^verbatim>\<open>net/EventLoopThreadPool.cc\<close>. Queued functors run
    once and in order, no wakeup is lost, the loop returns after \<^verbatim>\<open>quit\<close>, and a started thread hands its loop over.
  \<^item> \<open>Muduo_Sockets\<close>, \<open>Muduo_TcpConnection\<close>, \<open>Muduo_TcpServer\<close>, \<open>Muduo_TcpClient\<close>: \<^verbatim>\<open>net/SocketsOps.cc\<close>, \<^verbatim>\<open>net/Socket.cc\<close>, \<^verbatim>\<open>net/InetAddress.cc\<close>,
    \<^verbatim>\<open>net/TcpConnection.cc\<close>, \<^verbatim>\<open>net/Acceptor.cc\<close>, \<^verbatim>\<open>net/TcpServer.cc\<close>, \<^verbatim>\<open>net/Connector.cc\<close>, \<^verbatim>\<open>net/TcpClient.cc\<close>. The bytes a connection accepts are those
    the kernel took followed by those in its output buffer, its handlers do not abort, a shutdown sends everything first and
    completes, connections of a server are established and destroyed once each, sockets of a connector are not leaked.
    Sequences of calls that do abort are shown too.
  \<^item> \<open>Muduo_Http\<close>: \<^verbatim>\<open>net/http/*\<close>. A well-formed request is parsed to what was sent, in whichever pieces it arrives, and answered.
  \<^item> \<open>Muduo_Codec\<close>, \<open>Muduo_Rpc\<close>: \<^verbatim>\<open>net/protobuf/*\<close>, \<^verbatim>\<open>net/protorpc/*\<close>. Messages survive the wire in whichever pieces their bytes arrive, bad
    frames are never delivered, and every remote call gets its own answer.
  \<^item> \<open>Muduo_Calendar\<close>: \<^verbatim>\<open>base/Date.cc\<close>, \<^verbatim>\<open>base/TimeZone.cc\<close>. The day numbers are those of the Gregorian calendar, conversions of times
    are inverse to each other.
  \<^item> \<open>Muduo_LogStream\<close>, \<open>Muduo_Logging\<close>, \<open>Muduo_LogFile\<close>, \<open>Muduo_AsyncLogging\<close>: \<^verbatim>\<open>base/LogStream.cc\<close>, \<^verbatim>\<open>base/Logging.cc\<close>, \<^verbatim>\<open>base/FileUtil.cc\<close>,
    \<^verbatim>\<open>base/LogFile.cc\<close>, \<^verbatim>\<open>base/AsyncLogging.cc\<close>. Nothing is written outside of the fixed buffers, a log statement hands over one complete
    line, and the writing thread writes the lines in order (locale \<open>log_sink\<close> between the thread and its file).
  \<^item> \<open>Muduo_Atomic\<close>, \<open>Muduo_Queues\<close>, \<open>Muduo_Thread\<close>: \<^verbatim>\<open>base/Atomic.h\<close>, \<^verbatim>\<open>base/BlockingQueue.h\<close>, \<^verbatim>\<open>base/BoundedBlockingQueue.h\<close>, \<^verbatim>\<open>base/ThreadPool.cc\<close>,
    \<^verbatim>\<open>base/CountDownLatch.cc\<close>, \<^verbatim>\<open>base/Thread.cc\<close>. What was put is taken once and in order, within the capacity, and no wakeup is lost; this is
    proved once in the locale \<open>work_queue\<close> and holds for the two queues and the pool.

  \<^bold>\<open>Loops.\<close> Loops over data are structural recursion or have a termination proof (the loop of the codec, which takes a frame off the
  buffer in each round; the reading of a file). Three need not end and are \<open>partial_function\<close>s in the option type: writing to a file when
  the C library reports neither progress nor an error, the parser of requests in a state in which it is never called, and the
  event loop itself; that they return is a theorem under the conditions under which they do. Where a theorem bounds a length
  (frames of 64 MiB, buffers below the greatest size of a vector, fewer than \<open>2 ^ 64\<close> calls) the bound is that of the code or of its types.

  \<^bold>\<open>Not modelled.\<close> Mutexes and conditions as objects (\<^verbatim>\<open>base/Mutex.h\<close>, \<^verbatim>\<open>base/Condition.cc\<close>): they are what makes a critical section one
  step. Thread-local and singleton objects, exceptions with their stack traces, the wrappers of zlib (\<^verbatim>\<open>base/GzipFile.h\<close>,
  \<^verbatim>\<open>net/ZlibStream.h\<close>), \<^verbatim>\<open>base/ProcessInfo.cc\<close> and the pages of \<^verbatim>\<open>net/inspect\<close>: they only call the thread library, the C library and the kernel and
  pass their results on. \<^verbatim>\<open>formatIEC\<close> of \<^verbatim>\<open>base/LogStream.cc\<close>: its thresholds are products of floating-point numbers. Of the components that
  are modelled in part, the log lines of the network code, the socket options that have no effect on what is proved, the
  callback at the start of a pool's threads, the handling of exceptions of tasks and the forwarding of \<^verbatim>\<open>RpcServer\<close> to its \<^verbatim>\<open>TcpServer\<close>.
  Data races on plain variables are outside of a model with atomic steps. The tests, benchmarks and build files are not part of
  the library.
\<close>

end
